(* ===== verification/Nr_Prelude.thy ===== *)
theory Nr_Prelude
  imports Main "HOL-Library.Word"
begin

unbundle bit_operations_syntax

text \<open>
  Shared vocabulary of the development: the outcome type of an operation, the 64-bit machine
  integers of the Rust sources, segments of the history of the log, and the generic list lemmas
  that the component proofs rely on.

  An operation of the sources is a function of the state it reads. A panic and a busy-wait loop
  that nothing will ever release are values of \<open>failure\<close>, so every early exit of the code is a
  branch of the model.
\<close>

text \<open>Token arithmetic \<open>idx - 1\<close> stays in the form the sources write it.\<close>

declare One_nat_def [simp del]

named_theorems nr_defs \<open>definitions of the operations, unfolded together\<close>
named_theorems nr_inv \<open>facts every well-formed state provides\<close>

section \<open>Outcomes\<close>

text \<open>
  \<open>Panic\<close> is a Rust panic (an explicit one, an out-of-range index, an unwrap of \<open>None\<close>).
  \<open>Hang\<close> is a spin loop whose condition no step of the running thread can change.
\<close>

datatype failure = Panic string | Hang

type_synonym 'a run = "failure + 'a"

type_synonym usize = nat
type_synonym isize = int

abbreviation index_panic :: failure where
  "index_panic \<equiv> Panic ''index out of bounds''"

abbreviation unwrap_panic :: failure where
  "unwrap_panic \<equiv> Panic ''called unwrap on a None value''"

text \<open>Sequencing: the first failure ends the run.\<close>

definition bind_run :: "'a run \<Rightarrow> ('a \<Rightarrow> 'b run) \<Rightarrow> 'b run" where
  "bind_run r k = (case r of Inl f \<Rightarrow> Inl f | Inr x \<Rightarrow> k x)"

lemma bind_run_simps [simp]: "bind_run (Inl f) k = Inl f" "bind_run (Inr x) k = k x"
  by (simp_all add: bind_run_def)

lemma bind_run_Inr: "bind_run r k = Inr y \<longleftrightarrow> (\<exists>x. r = Inr x \<and> k x = Inr y)"
  by (cases r) simp_all

lemma bind_run_Inl: "bind_run r k = Inl f \<longleftrightarrow> r = Inl f \<or> (\<exists>x. r = Inr x \<and> k x = Inl f)"
  by (cases r) simp_all

lemma bind_run_assoc: "bind_run (bind_run r k) k' = bind_run r (\<lambda>x. bind_run (k x) k')"
  by (cases r) simp_all

lemma bind_run_cong [fundef_cong]:
  "r = r' \<Longrightarrow> (\<And>x. r' = Inr x \<Longrightarrow> k x = k' x) \<Longrightarrow> bind_run r k = bind_run r' k'"
  by (cases r') simp_all

text \<open>Reading an array: Rust panics out of range.\<close>

definition array_get :: "'a list \<Rightarrow> nat \<Rightarrow> 'a run" where
  "array_get xs i = (if i < length xs then Inr (xs ! i) else Inl index_panic)"

lemma array_get_in [simp]: "i < length xs \<Longrightarrow> array_get xs i = Inr (xs ! i)"
  by (simp add: array_get_def)

lemma array_get_out [simp]: "length xs \<le> i \<Longrightarrow> array_get xs i = Inl index_panic"
  by (simp add: array_get_def)

section \<open>Machine integers\<close>

text \<open>
  A \<open>usize\<close> is a natural number below \<open>2 ^ 64\<close>. Counters of the log only grow by the number of
  appended operations; where the code can leave the range the wrap-around is written out.
\<close>

definition usize_sub :: "nat \<Rightarrow> nat \<Rightarrow> nat" where
  "usize_sub a b = (if b \<le> a then a - b else a + 2 ^ 64 - b)"

lemma usize_sub_le [simp]: "b \<le> a \<Longrightarrow> usize_sub a b = a - b"
  by (simp add: usize_sub_def)

text \<open>The cast \<open>x as usize\<close> of a signed 64-bit value.\<close>

definition isize_as_usize :: "int \<Rightarrow> nat" where
  "isize_as_usize x = nat (x mod 2 ^ 64)"

lemma isize_as_usize_id: "0 \<le> x \<Longrightarrow> x < 2 ^ 63 \<Longrightarrow> isize_as_usize x = nat x"
  by (simp add: isize_as_usize_def)

text \<open>The number of significant bits, as the standard library's \<open>leading_zeros\<close> gives it.\<close>

fun bit_len :: "nat \<Rightarrow> nat" where
  "bit_len n = (if n = 0 then 0 else Suc (bit_len (n div 2)))"

declare bit_len.simps [simp del]

lemma less_exp_bit_len: "n < 2 ^ bit_len n"
proof (induction n rule: bit_len.induct)
  case (1 n)
  show ?case
  proof (cases "n = 0")
    case True
    then show ?thesis by (simp add: bit_len.simps)
  next
    case False
    with "1.IH" have "n div 2 < 2 ^ bit_len (n div 2)" by simp
    then have "n < 2 * 2 ^ bit_len (n div 2)" by linarith
    with False show ?thesis by (simp add: bit_len.simps [of n])
  qed
qed

lemma exp_bit_len_le: "0 < n \<Longrightarrow> 2 ^ bit_len n \<le> 2 * n"
proof (induction n rule: bit_len.induct)
  case (1 n)
  show ?case
  proof (cases "n div 2 = 0")
    case True
    with "1.prems" have "n = 1" by simp
    then show ?thesis by (simp add: bit_len.simps [of 1] bit_len.simps [of 0])
  next
    case False
    with "1" have "2 ^ bit_len (n div 2) \<le> 2 * (n div 2)" by simp
    then have "2 * 2 ^ bit_len (n div 2) \<le> 2 * n" by linarith
    with "1.prems" show ?thesis by (simp add: bit_len.simps [of n])
  qed
qed

lemma bit_len_exp [simp]: "bit_len (2 ^ k) = Suc k"
proof (rule antisym)
  have "(2::nat) ^ bit_len (2 ^ k) \<le> 2 ^ Suc k"
    using exp_bit_len_le [of "2 ^ k"] by simp
  then show "bit_len (2 ^ k) \<le> Suc k" by (rule power_le_imp_le_exp [rotated]) simp
  have "(2::nat) ^ k < 2 ^ bit_len (2 ^ k)" by (rule less_exp_bit_len)
  then show "Suc k \<le> bit_len (2 ^ k)" by (simp add: Suc_le_eq)
qed

definition is_power_of_two :: "nat \<Rightarrow> bool" where
  "is_power_of_two n \<longleftrightarrow> n \<noteq> 0 \<and> n = 2 ^ (bit_len n - 1)"

lemma is_power_of_two_iff: "is_power_of_two n \<longleftrightarrow> (\<exists>k. n = 2 ^ k)"
  by (auto simp: is_power_of_two_def)

definition checked_next_power_of_two :: "nat \<Rightarrow> nat option" where
  "checked_next_power_of_two n =
     (let p = (if n \<le> 1 then 1 else 2 ^ bit_len (n - 1))
      in if p < 2 ^ 64 then Some p else None)"

lemma checked_next_power_of_two_Some:
  assumes "checked_next_power_of_two n = Some p"
  shows "is_power_of_two p" and "n \<le> p" and "1 < n \<Longrightarrow> p < 2 * n"
proof -
  show "is_power_of_two p"
    using assms by (auto simp: checked_next_power_of_two_def Let_def is_power_of_two_iff
        split: if_splits intro: exI [of _ 0])
  show "n \<le> p"
    using assms less_exp_bit_len [of "n - 1"]
    by (auto simp: checked_next_power_of_two_def Let_def split: if_splits)
  show "1 < n \<Longrightarrow> p < 2 * n"
    using assms exp_bit_len_le [of "n - 1"]
    by (auto simp: checked_next_power_of_two_def Let_def split: if_splits)
qed

lemma checked_next_power_of_two_exp:
  "k < 64 \<Longrightarrow> checked_next_power_of_two (2 ^ k) = Some (2 ^ k)"
proof -
  assume k: "k < 64"
  show ?thesis
  proof (cases "k = 0")
    case False
    have "bit_len (2 ^ k - 1) = k"
    proof (rule antisym)
      have "0 < (2::nat) ^ k - 1" using False one_less_power [of "2::nat" k] by simp
      then have "(2::nat) ^ bit_len (2 ^ k - 1) \<le> 2 * (2 ^ k - 1)" by (rule exp_bit_len_le)
      also have "\<dots> < 2 ^ Suc k" by simp
      finally have "bit_len (2 ^ k - 1) < Suc k" by (rule power_less_imp_less_exp [rotated]) simp
      then show "bit_len (2 ^ k - 1) \<le> k" by simp
      have "(2::nat) ^ k - 1 < 2 ^ bit_len (2 ^ k - 1)" by (rule less_exp_bit_len)
      then have "(2::nat) ^ k \<le> 2 ^ bit_len (2 ^ k - 1)" by linarith
      then show "k \<le> bit_len (2 ^ k - 1)" by (rule power_le_imp_le_exp [rotated]) simp
    qed
    moreover have "(2::nat) ^ k < 2 ^ 64" using k by (rule power_strict_increasing) simp
    moreover have "1 < (2::nat) ^ k" using False by (intro one_less_power) simp_all
    ultimately show ?thesis
      by (auto simp: checked_next_power_of_two_def Let_def)
  qed (simp add: checked_next_power_of_two_def)
qed

text \<open>Masking with a power of two minus one is the remainder.\<close>

lemma and_exp_minus_1_nat: "(x::nat) AND (2 ^ k - 1) = x mod 2 ^ k"
  using take_bit_eq_mask [of k x] by (simp add: take_bit_eq_mod mask_eq_exp_minus_1)

section \<open>Segments of a history\<close>

definition segment :: "nat \<Rightarrow> nat \<Rightarrow> 'a list \<Rightarrow> 'a list" where
  "segment a b xs = drop a (take b xs)"

lemma segment_empty [simp]: "b \<le> a \<Longrightarrow> segment a b xs = []"
  by (simp add: segment_def)

lemma segment_full [simp]: "length xs \<le> b \<Longrightarrow> segment a b xs = drop a xs"
  by (simp add: segment_def)

lemma length_segment [simp]: "b \<le> length xs \<Longrightarrow> length (segment a b xs) = b - a"
  by (simp add: segment_def)

lemma nth_segment: "a + i < b \<Longrightarrow> b \<le> length xs \<Longrightarrow> segment a b xs ! i = xs ! (a + i)"
  by (simp add: segment_def)

lemma segment_append_left [simp]: "b \<le> length xs \<Longrightarrow> segment a b (xs @ ys) = segment a b xs"
  by (simp add: segment_def)

lemma segment_join: "a \<le> b \<Longrightarrow> b \<le> c \<Longrightarrow> segment a b xs @ segment b c xs = segment a c xs"
proof -
  assume "a \<le> b" "b \<le> c"
  have "take (b - a) (drop a (take c xs)) = segment a b xs"
    using \<open>a \<le> b\<close> \<open>b \<le> c\<close> by (simp add: segment_def take_drop min_def)
  moreover have "drop (b - a) (drop a (take c xs)) = segment b c xs"
    using \<open>a \<le> b\<close> by (simp add: segment_def)
  ultimately show ?thesis
    using append_take_drop_id [of "b - a" "drop a (take c xs)"] by (simp add: segment_def)
qed

lemma take_segment_join: "a \<le> b \<Longrightarrow> take a xs @ segment a b xs = take b xs"
  using segment_join [of 0 a b xs] by (simp add: segment_def)

lemma segment_Cons: "a < b \<Longrightarrow> b \<le> length xs \<Longrightarrow> segment a b xs = xs ! a # segment (Suc a) b xs"
proof -
  assume "a < b" "b \<le> length xs"
  then have "segment a (Suc a) xs = [xs ! a]"
    by (simp add: segment_def take_Suc_conv_app_nth)
  then show ?thesis using segment_join [of a "Suc a" b xs] \<open>a < b\<close> by simp
qed

section \<open>Circular buffers\<close>

text \<open>
  Two logical positions less than one round apart never share a physical slot, and the round
  number of a position flips exactly when the position passes the last slot.
\<close>

lemma mod_eq_close:
  fixes i j n :: nat
  assumes "i mod n = j mod n" and "i \<le> j" and "j < i + n"
  shows "i = j"
proof -
  from assms(1,2) have "n dvd j - i" using mod_eq_dvd_iff_nat [of i j n] by simp
  moreover from assms(2,3) have "j - i < n" by simp
  ultimately have "j - i = 0" by (auto dest: dvd_imp_le)
  with assms(2) show ?thesis by simp
qed

lemma Suc_div_wrap:
  fixes i n :: nat
  assumes "0 < n"
  shows "Suc i div n = (if i mod n = n - 1 then Suc (i div n) else i div n)"
proof (cases "i mod n = n - 1")
  case True
  then have "Suc i mod n = 0" using assms by (simp add: mod_Suc)
  with True show ?thesis by (simp add: div_Suc)
next
  case False
  then have "Suc i mod n \<noteq> 0" using assms by (auto simp: mod_Suc split: if_splits)
  with False show ?thesis by (simp add: div_Suc)
qed

lemma div_add_round: "0 < (n::nat) \<Longrightarrow> (i + n) div n = Suc (i div n)"
  using div_add_self2 [of n i] by simp

lemma list_update_nth_eq: "xs ! i = v \<Longrightarrow> xs[i := v] = xs"
  by auto

lemma nth_list_update_if:
  "i < length xs \<Longrightarrow> xs[i := v] ! j = (if i = j then v else xs ! j)"
  by (simp add: nth_list_update)

end
