(* ===== verification/Shared_Log.thy ===== *)
theory Shared_Log
  imports Nr_Prelude
begin

text \<open>
  The shared operation log of \<open>node-replication/src/log.rs\<close>: its constants, the \<open>Entry\<close> and
  \<open>Log\<close> structs, the constructors with the rounding of the log size, the registration of
  replicas, the logical-to-physical index, the search for the slowest replica, the reset used
  by the benchmarks and the test whether a replica may serve reads.

  The log is generic in the operation \<open>'op\<close>, in the metadata of an entry \<open>'m\<close> and in the
  metadata of the log \<open>'lm\<close>; node replication uses \<open>()\<close> for both.
\<close>

section \<open>Constants\<close>

definition MAX_PENDING_OPS :: nat where
  "MAX_PENDING_OPS = 32"

definition MAX_THREADS_PER_REPLICA :: nat where
  "MAX_THREADS_PER_REPLICA = 32"

definition DEFAULT_LOG_BYTES :: nat where
  "DEFAULT_LOG_BYTES = 64 * 1024 * 1024"

definition MAX_REPLICAS_PER_LOG :: nat where
  "MAX_REPLICAS_PER_LOG = 16"

definition GC_FROM_HEAD :: nat where
  "GC_FROM_HEAD = MAX_PENDING_OPS * MAX_THREADS_PER_REPLICA"

definition WARN_THRESHOLD :: nat where
  "WARN_THRESHOLD = 2 ^ 7"

lemmas log_constants =
  MAX_PENDING_OPS_def MAX_THREADS_PER_REPLICA_def MAX_REPLICAS_PER_LOG_def GC_FROM_HEAD_def
  WARN_THRESHOLD_def

lemma GC_FROM_HEAD_pos [simp]: "0 < GC_FROM_HEAD"
  by (simp add: log_constants)

lemma GC_FROM_HEAD_value: "GC_FROM_HEAD = 1024"
  by (simp add: log_constants)

section \<open>Entries and the log\<close>

record ('op, 'm) entry =
  operation :: "'op option"
  replica :: nat
  alivef :: bool
  metadata :: 'm

definition entry_default :: "'m \<Rightarrow> ('op, 'm) entry" where
  "entry_default m = \<lparr>operation = None, replica = 0, alivef = False, metadata = m\<rparr>"

record ('op, 'lm, 'm) log =
  slog :: "('op, 'm) entry list"
  head :: nat
  tail :: nat
  ctail :: nat
  commit_tail :: nat
  ltails :: "nat list"
  next_id :: nat
  lmasks :: "bool list"
  log_metadata :: 'lm

section \<open>Construction\<close>

definition entries_to_log_entries :: "nat \<Rightarrow> nat" where
  "entries_to_log_entries entries =
     (case checked_next_power_of_two (max (2 * GC_FROM_HEAD) entries) of
        Some n \<Rightarrow> n
      | None \<Rightarrow> 2 * GC_FROM_HEAD)"

text \<open>\<open>esize\<close> is the size of one entry in bytes, \<open>size_of::<Cell<Entry<T, M>>>()\<close>.\<close>

definition bytes_to_log_entries :: "nat \<Rightarrow> nat \<Rightarrow> nat" where
  "bytes_to_log_entries esize bytes =
     (let num = max (2 * GC_FROM_HEAD) (bytes div esize)
      in if \<not> is_power_of_two num
         then (case checked_next_power_of_two num of Some n \<Rightarrow> n | None \<Rightarrow> 2 * GC_FROM_HEAD)
         else num)"

definition new_with_entries :: "'m \<Rightarrow> nat \<Rightarrow> 'lm \<Rightarrow> ('op, 'lm, 'm) log" where
  "new_with_entries m num lm =
     \<lparr>slog = replicate (entries_to_log_entries num) (entry_default m),
      head = 0, tail = 0, ctail = 0, commit_tail = 0,
      ltails = replicate MAX_REPLICAS_PER_LOG 0,
      next_id = 1,
      lmasks = replicate MAX_REPLICAS_PER_LOG True,
      log_metadata = lm\<rparr>"

definition new_with_bytes :: "'m \<Rightarrow> nat \<Rightarrow> nat \<Rightarrow> 'lm \<Rightarrow> ('op, 'lm, 'm) log" where
  "new_with_bytes m esize bytes lm = new_with_entries m (bytes_to_log_entries esize bytes) lm"

definition new_with_metadata :: "'m \<Rightarrow> nat \<Rightarrow> 'lm \<Rightarrow> ('op, 'lm, 'm) log" where
  "new_with_metadata m esize lm =
     new_with_entries m (bytes_to_log_entries esize DEFAULT_LOG_BYTES) lm"

definition log_default :: "'m \<Rightarrow> nat \<Rightarrow> 'lm \<Rightarrow> ('op, 'lm, 'm) log" where
  "log_default m esize lm0 = new_with_bytes m esize DEFAULT_LOG_BYTES lm0"

section \<open>Registration, indexing, the slowest replica\<close>

text \<open>
  The token of a replica is the number inside \<open>LogToken\<close>, counted from 1. The weak compare and
  exchange of the loop may fail; a failed attempt changes nothing and the loop retries. The
  first argument is the number of attempts that fail.
\<close>

fun log_register :: "nat \<Rightarrow> ('op, 'lm, 'm) log \<Rightarrow> nat option \<times> ('op, 'lm, 'm) log" where
  "log_register fails l =
     (let n = next_id l
      in if n > MAX_REPLICAS_PER_LOG then (None, l)
         else (case fails of
                 Suc fails' \<Rightarrow> log_register fails' l
               | 0 \<Rightarrow> (Some n, l\<lparr>next_id := n + 1\<rparr>)))"

declare log_register.simps [simp del]

definition index :: "('op, 'lm, 'm) log \<Rightarrow> nat \<Rightarrow> nat" where
  "index l logical = logical AND (length (slog l) - 1)"

fun find_min_tail_loop :: "nat list \<Rightarrow> nat list \<Rightarrow> nat \<times> nat \<Rightarrow> nat \<times> nat" where
  "find_min_tail_loop lts [] acc = acc"
| "find_min_tail_loop lts (idx # idxs) (min_replica_idx, min_local_tail) =
     (let cur_local_tail = lts ! (idx - 1)
      in if cur_local_tail < min_local_tail
         then find_min_tail_loop lts idxs (idx - 1, cur_local_tail)
         else find_min_tail_loop lts idxs (min_replica_idx, min_local_tail))"

definition find_min_tail :: "('op, 'lm, 'm) log \<Rightarrow> (nat \<times> nat) run" where
  "find_min_tail l =
     (if length (ltails l) < max 1 (next_id l - 1) then Inl index_panic
      else Inr (find_min_tail_loop (ltails l) [1..<next_id l] (0, ltails l ! 0)))"

definition log_reset :: "('op, 'lm, 'm) log \<Rightarrow> ('op, 'lm, 'm) log" where
  "log_reset l =
     l\<lparr>head := 0, tail := 0, next_id := 1,
       ltails := replicate MAX_REPLICAS_PER_LOG 0,
       lmasks := replicate MAX_REPLICAS_PER_LOG True,
       slog := map (\<lambda>e. e\<lparr>alivef := False\<rparr>) (slog l)\<rparr>"

definition is_replica_synced_for_reads :: "('op, 'lm, 'm) log \<Rightarrow> nat \<Rightarrow> nat \<Rightarrow> bool" where
  "is_replica_synced_for_reads l idx ct \<longleftrightarrow> ct \<le> ltails l ! (idx - 1)"

definition get_ctail :: "('op, 'lm, 'm) log \<Rightarrow> nat" where
  "get_ctail l = ctail l"

section \<open>Size of the log\<close>

lemma two_gc_pow2: "is_power_of_two (2 * GC_FROM_HEAD)"
proof -
  have "2 * GC_FROM_HEAD = 2 ^ 11" by (simp add: log_constants)
  then show ?thesis unfolding is_power_of_two_iff by blast
qed

lemma entries_to_log_entries_pow2: "is_power_of_two (entries_to_log_entries n)"
proof (cases "checked_next_power_of_two (max (2 * GC_FROM_HEAD) n)")
  case None
  have "is_power_of_two (2 * GC_FROM_HEAD)" by (rule two_gc_pow2)
  then show ?thesis by (simp add: entries_to_log_entries_def None)
next
  case (Some p)
  then show ?thesis
    by (simp add: entries_to_log_entries_def checked_next_power_of_two_Some(1))
qed

lemma entries_to_log_entries_min: "2 * GC_FROM_HEAD \<le> entries_to_log_entries n"
proof (cases "checked_next_power_of_two (max (2 * GC_FROM_HEAD) n)")
  case None
  then show ?thesis by (simp add: entries_to_log_entries_def)
next
  case (Some p)
  then have "max (2 * GC_FROM_HEAD) n \<le> p" by (rule checked_next_power_of_two_Some(2))
  with Some show ?thesis by (simp add: entries_to_log_entries_def)
qed

lemma bytes_to_log_entries_pow2: "is_power_of_two (bytes_to_log_entries esize n)"
  by (auto simp: bytes_to_log_entries_def Let_def two_gc_pow2 split: option.split
      dest: checked_next_power_of_two_Some(1))

lemma entries_to_log_entries_fix:
  assumes "2 * GC_FROM_HEAD \<le> n" "is_power_of_two n" "n < 2 ^ 64"
  shows "entries_to_log_entries n = n"
proof -
  from assms(2) obtain k where k: "n = 2 ^ k" by (auto simp: is_power_of_two_iff)
  from assms(3) have "k < 64" unfolding k by (rule power_less_imp_less_exp [rotated]) simp
  then show ?thesis using assms(1)
    by (simp add: entries_to_log_entries_def max_def k checked_next_power_of_two_exp)
qed

section \<open>Well-formed logs\<close>

text \<open>
  Independent of the operations on it a log has a power of two of at least \<open>2 * GC_FROM_HEAD\<close>
  slots, arrays of the declared length, and hands out the tokens \<open>1\<close> to
  \<open>MAX_REPLICAS_PER_LOG\<close> only.
\<close>

definition log_wf :: "('op, 'lm, 'm) log \<Rightarrow> bool" where
  "log_wf l \<longleftrightarrow>
     is_power_of_two (length (slog l)) \<and> 2 * GC_FROM_HEAD \<le> length (slog l)
     \<and> length (ltails l) = MAX_REPLICAS_PER_LOG \<and> length (lmasks l) = MAX_REPLICAS_PER_LOG
     \<and> 1 \<le> next_id l \<and> next_id l \<le> MAX_REPLICAS_PER_LOG + 1"

definition registered :: "('op, 'lm, 'm) log \<Rightarrow> nat \<Rightarrow> bool" where
  "registered l idx \<longleftrightarrow> 1 \<le> idx \<and> idx < next_id l"

lemma log_wf_slots [nr_inv]:
  assumes "log_wf l"
  shows "0 < length (slog l)" "GC_FROM_HEAD \<le> length (slog l)" "2 * GC_FROM_HEAD \<le> length (slog l)"
  using assms by (auto simp: log_wf_def log_constants)

lemma log_wf_registered [nr_inv]:
  assumes "log_wf l" "registered l idx"
  shows "0 < idx" "idx - 1 < length (ltails l)" "idx - 1 < length (lmasks l)" "idx \<le> length (ltails l)"
  using assms by (auto simp: log_wf_def registered_def)

lemma log_wf_new: "log_wf (new_with_entries m n lm)"
  by (simp add: log_wf_def new_with_entries_def entries_to_log_entries_pow2
      entries_to_log_entries_min)

lemma index_eq_mod: "log_wf l \<Longrightarrow> index l i = i mod length (slog l)"
  by (auto simp: log_wf_def index_def is_power_of_two_iff and_exp_minus_1_nat)

lemma index_less: "log_wf l \<Longrightarrow> index l i < length (slog l)"
  using log_wf_slots(1) [of l] by (simp add: index_eq_mod)

lemma log_register_eq:
  "log_register fails l =
     (if next_id l > MAX_REPLICAS_PER_LOG then (None, l)
      else (Some (next_id l), l\<lparr>next_id := next_id l + 1\<rparr>))"
  by (induction fails) (simp_all add: log_register.simps [of 0] log_register.simps [of "Suc _"] Let_def)

lemma log_wf_register: "log_wf l \<Longrightarrow> log_register fails l = (t, l') \<Longrightarrow> log_wf l'"
  by (auto simp: log_register_eq log_wf_def split: if_splits)

lemma find_min_tail_loop_spec:
  assumes "find_min_tail_loop lts idxs (m, t) = (m', t')" "t = lts ! m"
  shows "t' = lts ! m' \<and> t' \<le> t \<and> (\<forall>i\<in>set idxs. t' \<le> lts ! (i - 1))
    \<and> (m' = m \<or> (\<exists>i\<in>set idxs. m' = i - 1))"
  using assms
proof (induction lts idxs "(m, t)" arbitrary: m t rule: find_min_tail_loop.induct)
  case (1 lts)
  then show ?case by auto
next
  case (2 lts idx idxs m t)
  show ?case
  proof (cases "lts ! (idx - 1) < t")
    case True
    with "2.prems" "2.hyps"(1) show ?thesis by (fastforce simp: Let_def)
  next
    case False
    with "2.prems" "2.hyps"(2) show ?thesis by (fastforce simp: Let_def)
  qed
qed

lemma find_min_tail_wf: "log_wf l \<Longrightarrow> \<exists>m t. find_min_tail l = Inr (m, t)"
  by (auto simp: find_min_tail_def log_wf_def log_constants)

lemma find_min_tail_spec:
  assumes "find_min_tail l = Inr (m, t)" "registered l idx"
  shows "t = ltails l ! m" "registered l (Suc m)"
    and "\<And>i. registered l i \<Longrightarrow> t \<le> ltails l ! (i - 1)"
proof -
  from assms(1) have loop: "find_min_tail_loop (ltails l) [1..<next_id l] (0, ltails l ! 0) = (m, t)"
    by (auto simp: find_min_tail_def split: if_splits)
  note spec = find_min_tail_loop_spec [OF loop refl]
  from spec show "t = ltails l ! m" by simp
  from spec assms(2) show "registered l (Suc m)" by (auto simp: registered_def)
  show "\<And>i. registered l i \<Longrightarrow> t \<le> ltails l ! (i - 1)"
    using spec by (auto simp: registered_def)
qed

end
