(* ===== verification/Nr_Log.thy ===== *)
theory Nr_Log
  imports Shared_Log
begin

text \<open>
  The operations of node replication on the shared log, \<open>node-replication/src/nr/log.rs\<close>:
  \<open>append\<close>, \<open>exec\<close>, \<open>publish\<close> and \<open>advance_head\<close>. The boolean argument \<open>scr\<close> selects the build:
  with the feature \<open>scr\<close> entries are published through the commit tail, without it through the
  alive mask of each entry. A closure passed to the log is a function on the state it captures.

  Each function is the run of one thread from its call to its return with no other thread
  moving, so a wait that only another thread could end is \<open>Hang\<close>. The proofs relate the
  circular buffer to the history of the log, the list of all operations ever appended, each
  with the token of the replica that appended it.
\<close>

type_synonym 'op nr_log = "('op, unit, unit) log"

type_synonym ('op, 's) closure = "'op \<Rightarrow> bool \<Rightarrow> 's \<Rightarrow> 's run"

section \<open>Replaying entries\<close>

fun exec_loop :: "bool \<Rightarrow> nat \<Rightarrow> ('op, 's) closure \<Rightarrow> nat list \<Rightarrow> 'op nr_log \<Rightarrow> 's
    \<Rightarrow> ('op nr_log \<times> 's) run" where
  "exec_loop scr idx d [] l st = Inr (l, st)"
| "exec_loop scr idx d (i # is) l st =
     (let e = slog l ! index l i
      in if \<not> scr \<and> alivef e \<noteq> lmasks l ! (idx - 1) then Inl Hang
         else (case operation e of
                 None \<Rightarrow> Inl unwrap_panic
               | Some oper \<Rightarrow>
                   (case d oper (replica e = idx) st of
                      Inl f \<Rightarrow> Inl f
                    | Inr st' \<Rightarrow>
                        exec_loop scr idx d is
                          (if index l i = length (slog l) - 1
                           then l\<lparr>lmasks := (lmasks l)[idx - 1 := \<not> lmasks l ! (idx - 1)]\<rparr>
                           else l) st')))"

definition gtail :: "bool \<Rightarrow> 'op nr_log \<Rightarrow> nat" where
  "gtail scr l = (if scr then commit_tail l else tail l)"

definition exec :: "bool \<Rightarrow> nat \<Rightarrow> ('op, 's) closure \<Rightarrow> 'op nr_log \<Rightarrow> 's
    \<Rightarrow> ('op nr_log \<times> 's) run" where
  "exec scr idx d l st =
     (case (if idx = 0 then Inl index_panic else array_get (ltails l) (idx - 1)) of
        Inl f \<Rightarrow> Inl f
      | Inr ltail \<Rightarrow>
          (let gt = gtail scr l
           in if ltail = gt then Inr (l, st)
              else if ltail > gt \<or> ltail < head l
                then Inl (Panic ''Local tail not within the shared log!'')
              else (case exec_loop scr idx d [ltail..<gt] l st of
                      Inl f \<Rightarrow> Inl f
                    | Inr (l', st') \<Rightarrow>
                        Inr (l'\<lparr>ctail := max (ctail l') gt,
                                ltails := (ltails l')[idx - 1 := gt]\<rparr>, st'))))"

section \<open>Writing and publishing entries\<close>

fun write_entries :: "bool \<Rightarrow> nat \<Rightarrow> nat \<Rightarrow> 'op list \<Rightarrow> 'op nr_log \<Rightarrow> 'op nr_log" where
  "write_entries scr idx pos [] l = l"
| "write_entries scr idx pos (oper # ops) l =
     (let p = index l pos;
          e = slog l ! p;
          m0 = lmasks l ! (idx - 1);
          m = (if alivef e = m0 then \<not> m0 else m0);
          e' = (if scr then e\<lparr>operation := Some oper, replica := idx\<rparr>
                else e\<lparr>operation := Some oper, replica := idx, alivef := m\<rparr>)
      in write_entries scr idx (pos + 1) ops (l\<lparr>slog := (slog l)[p := e']\<rparr>))"

definition publish :: "nat \<Rightarrow> nat \<Rightarrow> 'op nr_log \<Rightarrow> 'op nr_log run" where
  "publish start n l =
     (if n = 0 then Inr l
      else if commit_tail l \<noteq> start then Inl Hang
      else Inr (l\<lparr>commit_tail := start + n\<rparr>))"

section \<open>Garbage collection\<close>

lemma exec_loop_frame:
  assumes "exec_loop scr idx d is l st = Inr (l', st')"
  shows "\<exists>ms. l' = l\<lparr>lmasks := ms\<rparr> \<and> length ms = length (lmasks l)"
  using assms
proof (induction scr idx d "is" l st rule: exec_loop.induct)
  case (1 scr idx d l st)
  then have "l' = l\<lparr>lmasks := lmasks l\<rparr>" by simp
  then show ?case by blast
next
  case (2 scr idx d i "is" l st)
  from "2.prems" obtain oper st1 where
    "operation (slog l ! index l i) = Some oper"
    "d oper (replica (slog l ! index l i) = idx) st = Inr st1"
    "exec_loop scr idx d is (if index l i = length (slog l) - 1
       then l\<lparr>lmasks := (lmasks l)[idx - 1 := \<not> lmasks l ! (idx - 1)]\<rparr> else l) st1 = Inr (l', st')"
    "\<not> (\<not> scr \<and> alivef (slog l ! index l i) \<noteq> lmasks l ! (idx - 1))"
    by (auto simp: Let_def split: if_splits option.splits sum.splits)
  from "2.IH" [OF refl this(4) this(1) this(2) this(3)] show ?case
    by (auto split: if_splits)
qed

lemma exec_frame:
  assumes "exec scr idx d l st = Inr (l', st')"
  shows "tail l' = tail l" "commit_tail l' = commit_tail l" "head l' = head l"
    "next_id l' = next_id l" "slog l' = slog l" "length (ltails l') = length (ltails l)"
    "idx - 1 < length (ltails l)" "ltails l' ! (idx - 1) = gtail scr l"
    "gtail scr l' = gtail scr l" "ltails l ! (idx - 1) = gtail scr l \<Longrightarrow> l' = l"
  using assms
  by (auto simp: exec_def gtail_def array_get_def Let_def split: if_splits sum.splits
      dest!: exec_loop_frame)

text \<open>
  The loop of \<open>advance_head\<close> ends: every turn that finds the head already at the slowest replica
  spends one of the \<open>WARN_THRESHOLD\<close> iterations, and a turn that moves the head without making
  enough room either brings this replica up to date or leaves the head at the slowest replica.
\<close>

definition head_lag :: "'op nr_log \<Rightarrow> nat" where
  "head_lag l = (case find_min_tail l of Inl _ \<Rightarrow> 0 | Inr (_, t) \<Rightarrow> if t = head l then 0 else 1)"

lemma find_min_tail_head [simp]: "find_min_tail (l\<lparr>head := h\<rparr>) = find_min_tail l"
  by (simp add: find_min_tail_def)

definition warn_left :: "nat \<Rightarrow> nat" where
  "warn_left it = (if it mod WARN_THRESHOLD = 0 then 0 else WARN_THRESHOLD - it mod WARN_THRESHOLD)"

lemma warn_left_Suc: "it mod WARN_THRESHOLD \<noteq> 0 \<Longrightarrow> warn_left (it + 1) < warn_left it"
proof -
  assume "it mod WARN_THRESHOLD \<noteq> 0"
  moreover have "it mod WARN_THRESHOLD < WARN_THRESHOLD" by (simp add: WARN_THRESHOLD_def)
  ultimately show ?thesis by (auto simp: warn_left_def mod_Suc simp flip: Suc_eq_plus1 split: if_splits)
qed

function advance_head_loop :: "bool \<Rightarrow> nat \<Rightarrow> ('op, 's) closure \<Rightarrow> nat \<Rightarrow> 'op nr_log \<Rightarrow> 's
    \<Rightarrow> ((nat + unit) \<times> 'op nr_log \<times> 's) run" where
  "advance_head_loop scr rid s iteration l st =
     (let global_head = head l; f = tail l
      in (case find_min_tail l of
            Inl x \<Rightarrow> Inl x
          | Inr (min_replica_idx, min_local_tail) \<Rightarrow>
              if min_local_tail = global_head
              then if iteration mod WARN_THRESHOLD = 0 then Inr (Inl min_replica_idx, l, st)
                   else (case exec scr rid s l st of
                           Inl x \<Rightarrow> Inl x
                         | Inr (l', st') \<Rightarrow> advance_head_loop scr rid s (iteration + 1) l' st')
              else (let l1 = l\<lparr>head := min_local_tail\<rparr>
                    in if f < min_local_tail + length (slog l) - GC_FROM_HEAD
                       then Inr (Inr (), l1, st)
                       else (case exec scr rid s l1 st of
                               Inl x \<Rightarrow> Inl x
                             | Inr (l', st') \<Rightarrow> advance_head_loop scr rid s iteration l' st'))))"
  by (pat_completeness, (elim Pair_inject, hypsubst, rule refl))
termination
proof (relation "measures
    [\<lambda>(scr, rid, s, it, l, st). warn_left it,
     \<lambda>(scr, rid, s, it, l, st). if ltails l ! (rid - 1) = gtail scr l then 0 else 1,
     \<lambda>(scr, rid, s, it, l, st). head_lag l]", goal_cases)
  case 1
  show ?case by simp
next
  case (2 scr rid s it l st)
  then show ?case using warn_left_Suc [of it] by simp
next
  case (3 scr rid s it l st gh f x m t l1 r l' st')
  from 3 have fmt: "find_min_tail l = Inr (m, t)" and l1: "l1 = l\<lparr>head := t\<rparr>"
    and ex: "exec scr rid s l1 st = Inr (l', st')" and ne: "t \<noteq> head l"
    by auto
  note fr = exec_frame [OF ex]
  have g: "gtail scr l1 = gtail scr l" by (simp add: l1 gtail_def)
  show ?case
  proof (cases "ltails l ! (rid - 1) = gtail scr l")
    case True
    with fr(10) g have "l' = l1" by (simp add: l1)
    with True ne fmt show ?thesis by (simp add: head_lag_def l1 gtail_def)
  next
    case False
    with fr(8,9) g show ?thesis by simp
  qed
qed

declare advance_head_loop.simps [simp del]

definition advance_head :: "bool \<Rightarrow> nat \<Rightarrow> ('op, 's) closure \<Rightarrow> 'op nr_log \<Rightarrow> 's
    \<Rightarrow> ((nat + unit) \<times> 'op nr_log \<times> 's) run" where
  "advance_head scr rid s l st = advance_head_loop scr rid s 1 l st"

section \<open>Appending\<close>

text \<open>
  \<open>cas n\<close> says whether the weak compare and exchange of iteration \<open>n\<close> succeeds. The result is
  that of the source: \<open>Inr None\<close> when everything was appended, \<open>Inr (Some r)\<close> when it was but
  replica \<open>r\<close> blocks garbage collection, \<open>Inl r\<close> when nothing was appended.
\<close>

function append_loop :: "bool \<Rightarrow> (nat \<Rightarrow> bool) \<Rightarrow> 'op list \<Rightarrow> nat \<Rightarrow> ('op, 's) closure \<Rightarrow> nat \<Rightarrow> nat
    \<Rightarrow> 'op nr_log \<Rightarrow> 's \<Rightarrow> ((nat + nat option) \<times> 'op nr_log \<times> 's) run" where
  "append_loop scr cas ops idx s iteration waitgc l st =
     (let nops = length ops
      in if iteration mod WARN_THRESHOLD = 0
         then (case find_min_tail l of Inl x \<Rightarrow> Inl x | Inr (m, _) \<Rightarrow> Inr (Inl m, l, st))
         else if tail l > head l + length (slog l) - GC_FROM_HEAD
         then (if waitgc mod WARN_THRESHOLD = 0
               then (case find_min_tail l of Inl x \<Rightarrow> Inl x | Inr (m, _) \<Rightarrow> Inr (Inl m, l, st))
               else (case exec scr idx s l st of
                       Inl x \<Rightarrow> Inl x
                     | Inr (l1, st1) \<Rightarrow>
                         (case advance_head scr idx s l1 st1 of
                            Inl x \<Rightarrow> Inl x
                          | Inr (Inl r, l2, st2) \<Rightarrow> Inr (Inl r, l2, st2)
                          | Inr (Inr _, l2, st2) \<Rightarrow>
                              append_loop scr cas ops idx s (iteration + 1) (waitgc + 1) l2 st2)))
         else (let advance = (tail l + nops > head l + length (slog l) - GC_FROM_HEAD)
               in if \<not> cas iteration
                  then append_loop scr cas ops idx s (iteration + 1) waitgc l st
                  else (let l1 = write_entries scr idx (tail l) ops (l\<lparr>tail := tail l + nops\<rparr>)
                        in (case (if scr then publish (tail l) nops l1 else Inr l1) of
                              Inl x \<Rightarrow> Inl x
                            | Inr l2 \<Rightarrow>
                                if advance
                                then (case advance_head scr idx s l2 st of
                                        Inl x \<Rightarrow> Inl x
                                      | Inr (Inr _, l3, st3) \<Rightarrow> Inr (Inr None, l3, st3)
                                      | Inr (Inl r, l3, st3) \<Rightarrow> Inr (Inr (Some r), l3, st3))
                                else Inr (Inr None, l2, st)))))"
  by (pat_completeness, (elim Pair_inject, hypsubst, rule refl))
termination
proof (relation "measure (\<lambda>(scr, cas, ops, idx, s, it, w, l, st). warn_left it)", goal_cases)
  case 1
  show ?case by simp
next
  case (2 scr cas ops idx s it w l st)
  then show ?case using warn_left_Suc [of it] by simp
next
  case (3 scr cas ops idx s it w l st)
  then show ?case using warn_left_Suc [of it] by simp
qed

declare append_loop.simps [simp del]

definition append :: "bool \<Rightarrow> (nat \<Rightarrow> bool) \<Rightarrow> 'op list \<Rightarrow> nat \<Rightarrow> ('op, 's) closure
    \<Rightarrow> 'op nr_log \<Rightarrow> 's \<Rightarrow> ((nat + nat option) \<times> 'op nr_log \<times> 's) run" where
  "append scr cas ops idx s l st = append_loop scr cas ops idx s 1 1 l st"

end
