(* ===== verification/Nr_Log_Inv.thy ===== *)
theory Nr_Log_Inv
  imports Nr_Log
begin

text \<open>
  Correctness of the log of node replication. The invariant \<open>log_inv\<close> ties the circular buffer
  to the history \<open>h\<close> of everything appended so far; \<open>exec\<close> is proved equal to replaying the
  part of the history the replica has not seen, and \<open>append\<close> to extending the history.
\<close>

section \<open>The invariant\<close>

type_synonym 'op history = "('op \<times> nat) list"

definition holds_history :: "'op nr_log \<Rightarrow> 'op history \<Rightarrow> bool" where
  "holds_history l h \<longleftrightarrow>
     (\<forall>i. head l \<le> i \<and> i < tail l \<longrightarrow>
        operation (slog l ! index l i) = Some (fst (h ! i)) \<and> replica (slog l ! index l i) = snd (h ! i))"

text \<open>
  Without \<open>scr\<close> the alive flag of a slot tells the round it was last written in: the slot the
  next round will use at position \<open>i\<close> still has the flag of the round before.
\<close>

definition alive_rounds :: "'op nr_log \<Rightarrow> bool" where
  "alive_rounds l \<longleftrightarrow>
     (\<forall>i. tail l \<le> i \<and> i < tail l + length (slog l) \<longrightarrow>
        alivef (slog l ! index l i) = odd (i div length (slog l)))"

definition replicas_inside :: "'op nr_log \<Rightarrow> bool" where
  "replicas_inside l \<longleftrightarrow>
     (\<forall>idx. registered l idx \<longrightarrow>
        head l \<le> ltails l ! (idx - 1) \<and> ltails l ! (idx - 1) \<le> ctail l
        \<and> lmasks l ! (idx - 1) = even (ltails l ! (idx - 1) div length (slog l)))
     \<and> (\<forall>idx. next_id l \<le> idx \<and> idx \<le> MAX_REPLICAS_PER_LOG \<longrightarrow>
        ltails l ! (idx - 1) = 0 \<and> lmasks l ! (idx - 1))"

definition log_inv :: "bool \<Rightarrow> 'op nr_log \<Rightarrow> 'op history \<Rightarrow> bool" where
  "log_inv scr l h \<longleftrightarrow>
     log_wf l \<and> length h = tail l \<and> head l \<le> tail l \<and> tail l \<le> head l + length (slog l)
     \<and> ctail l \<le> tail l \<and> replicas_inside l \<and> holds_history l h
     \<and> (if scr then commit_tail l = tail l else alive_rounds l)"

lemma log_invD:
  assumes "log_inv scr l h"
  shows "log_wf l" "length h = tail l" "head l \<le> tail l" "tail l \<le> head l + length (slog l)"
    "ctail l \<le> tail l" "replicas_inside l" "holds_history l h" "gtail scr l = tail l"
    "scr \<Longrightarrow> commit_tail l = tail l" "\<not> scr \<Longrightarrow> alive_rounds l"
  using assms by (auto simp: log_inv_def gtail_def split: if_splits)

lemma replicas_insideD:
  assumes "replicas_inside l" "registered l idx"
  shows "head l \<le> ltails l ! (idx - 1)" "ltails l ! (idx - 1) \<le> ctail l"
    "lmasks l ! (idx - 1) = even (ltails l ! (idx - 1) div length (slog l))"
  using assms by (auto simp: replicas_inside_def)

lemma log_inv_new: "log_inv scr (new_with_entries () n ()) []"
proof -
  let ?l = "new_with_entries () n () :: 'a nr_log"
  have wf: "log_wf ?l" by (rule log_wf_new)
  have slot: "slog ?l ! index ?l i = entry_default ()" for i
    using index_less [OF wf, of i] by (simp add: new_with_entries_def)
  have "alive_rounds ?l"
    unfolding alive_rounds_def
  proof (intro allI impI)
    fix i assume i: "tail ?l \<le> i \<and> i < tail ?l + length (slog ?l)"
    then have "i < length (slog ?l)" by (simp add: new_with_entries_def)
    then show "alivef (slog ?l ! index ?l i) = odd (i div length (slog ?l))"
      unfolding slot by (simp add: entry_default_def)
  qed
  with wf show ?thesis
    by (auto simp: log_inv_def replicas_inside_def holds_history_def registered_def
        new_with_entries_def MAX_REPLICAS_PER_LOG_def)
qed

text \<open>The flags of the entries still in the log, as a reader of the entry sees them.\<close>

lemma alive_roundsD:
  assumes "alive_rounds l" "log_wf l" "i < tail l" "tail l \<le> i + length (slog l)"
  shows "alivef (slog l ! index l i) = even (i div length (slog l))"
proof -
  let ?n = "length (slog l)"
  have n: "0 < ?n" using assms(2) by (rule log_wf_slots)
  have "alivef (slog l ! index l (i + ?n)) = odd ((i + ?n) div ?n)"
    using assms by (simp add: alive_rounds_def)
  moreover have "index l (i + ?n) = index l i" using assms(2) by (simp add: index_eq_mod)
  moreover have "odd ((i + ?n) div ?n) = even (i div ?n)" using n by (simp add: div_add_round)
  ultimately show ?thesis by simp
qed

section \<open>Replaying the history\<close>

fun replay :: "('op, 's) closure \<Rightarrow> nat \<Rightarrow> 'op history \<Rightarrow> 's \<Rightarrow> 's run" where
  "replay d idx [] st = Inr st"
| "replay d idx ((oper, r) # xs) st =
     (case d oper (r = idx) st of Inl f \<Rightarrow> Inl f | Inr st' \<Rightarrow> replay d idx xs st')"

lemma replay_append:
  "replay d idx (xs @ ys) st =
     (case replay d idx xs st of Inl f \<Rightarrow> Inl f | Inr st' \<Rightarrow> replay d idx ys st')"
  by (induction d idx xs st rule: replay.induct) (auto split: sum.splits)

lemma replay_appendI:
  "replay d idx xs st = Inr st1 \<Longrightarrow> replay d idx ys st1 = r \<Longrightarrow> replay d idx (xs @ ys) st = r"
  by (simp add: replay_append)

lemma exec_loop_replay:
  assumes "log_wf l" "idx - 1 < length (lmasks l)" "a \<le> b" "b \<le> length h"
    and "\<And>i. a \<le> i \<Longrightarrow> i < b \<Longrightarrow> operation (slog l ! index l i) = Some (fst (h ! i))
           \<and> replica (slog l ! index l i) = snd (h ! i)
           \<and> (\<not> scr \<longrightarrow> alivef (slog l ! index l i) = even (i div length (slog l)))"
    and "lmasks l ! (idx - 1) = even (a div length (slog l))"
  shows "exec_loop scr idx d [a..<b] l st =
    (case replay d idx (segment a b h) st of
       Inl f \<Rightarrow> Inl f
     | Inr st' \<Rightarrow> Inr (l\<lparr>lmasks := (lmasks l)[idx - 1 := even (b div length (slog l))]\<rparr>, st'))"
  using assms
proof (induction "b - a" arbitrary: a l st)
  case 0
  then have "a = b" by simp
  with 0 have "(lmasks l)[idx - 1 := even (b div length (slog l))] = lmasks l"
    by (intro list_update_nth_eq) simp
  with \<open>a = b\<close> show ?case by simp
next
  case (Suc k)
  let ?n = "length (slog l)"
  from Suc.hyps(2) have ab: "a < b" by simp
  obtain oper r where ha: "h ! a = (oper, r)" by fastforce
  from ab Suc.prems(5) [of a] Suc.prems(6) ha have e: "operation (slog l ! index l a) = Some oper"
    "replica (slog l ! index l a) = r" "scr \<or> alivef (slog l ! index l a) = lmasks l ! (idx - 1)"
    by auto
  define l1 where "l1 = (if index l a = ?n - 1
    then l\<lparr>lmasks := (lmasks l)[idx - 1 := \<not> lmasks l ! (idx - 1)]\<rparr> else l)"
  have l1: "slog l1 = slog l" "length (lmasks l1) = length (lmasks l)" "index l1 = index l"
    "log_wf l1"
    using Suc.prems(1) by (auto simp: l1_def index_def log_wf_def fun_eq_iff)
  have mask1: "lmasks l1 ! (idx - 1) = even (Suc a div ?n)"
    using Suc.prems(1,2,6) log_wf_slots(1) [OF Suc.prems(1)]
    by (simp add: l1_def Suc_div_wrap index_eq_mod)
  have upd1: "l1\<lparr>lmasks := (lmasks l1)[idx - 1 := v]\<rparr> = l\<lparr>lmasks := (lmasks l)[idx - 1 := v]\<rparr>" for v
    by (simp add: l1_def)
  have IH: "exec_loop scr idx d [Suc a..<b] l1 st1 =
    (case replay d idx (segment (Suc a) b h) st1 of
       Inl f \<Rightarrow> Inl f
     | Inr st' \<Rightarrow> Inr (l1\<lparr>lmasks := (lmasks l1)[idx - 1 := even (b div length (slog l1))]\<rparr>, st'))" for st1
    using Suc.hyps(2) Suc.prems ab mask1 by (intro Suc.hyps(1)) (simp_all add: l1)
  have "exec_loop scr idx d [a..<b] l st =
    (case d oper (r = idx) st of Inl f \<Rightarrow> Inl f | Inr st1 \<Rightarrow> exec_loop scr idx d [Suc a..<b] l1 st1)"
    using ab e
    by (cases "d oper (r = idx) st"; cases scr) (simp_all add: upt_conv_Cons Let_def l1_def)
  also have "\<dots> = (case replay d idx (segment a b h) st of
       Inl f \<Rightarrow> Inl f
     | Inr st' \<Rightarrow> Inr (l\<lparr>lmasks := (lmasks l)[idx - 1 := even (b div ?n)]\<rparr>, st'))"
    using ab Suc.prems(4) by (simp add: segment_Cons ha IH l1 upd1 split: sum.split)
  finally show ?case .
qed

text \<open>The log after replica \<open>idx\<close> has caught up.\<close>

definition caught_up :: "nat \<Rightarrow> 'op nr_log \<Rightarrow> 'op nr_log" where
  "caught_up idx l =
     l\<lparr>lmasks := (lmasks l)[idx - 1 := even (tail l div length (slog l))],
       ctail := tail l,
       ltails := (ltails l)[idx - 1 := tail l]\<rparr>"

lemma exec_replay:
  assumes "log_inv scr l h" "registered l idx"
  shows "exec scr idx d l st =
    (case replay d idx (drop (ltails l ! (idx - 1)) h) st of
       Inl f \<Rightarrow> Inl f
     | Inr st' \<Rightarrow> Inr (caught_up idx l, st'))"
proof -
  note inv = log_invD [OF assms(1)]
  note in1 = replicas_insideD [OF inv(6) assms(2)]
  note ix = log_wf_registered [OF inv(1) assms(2)]
  let ?lt = "ltails l ! (idx - 1)"
  show ?thesis
  proof (cases "?lt = tail l")
    case True
    then have "ctail l = tail l" using in1(2) inv(5) by simp
    moreover have "(lmasks l)[idx - 1 := even (tail l div length (slog l))] = lmasks l"
      using in1(3) True by (intro list_update_nth_eq) simp
    moreover have "(ltails l)[idx - 1 := tail l] = ltails l"
      using True by (rule list_update_nth_eq)
    ultimately have "caught_up idx l = l\<lparr>lmasks := lmasks l, ctail := ctail l, ltails := ltails l\<rparr>"
      by (simp add: caught_up_def)
    then have "caught_up idx l = l" by simp
    with True ix inv(2,8) show ?thesis by (simp add: exec_def)
  next
    case False
    with in1 inv(3,5) have lt: "?lt < tail l" by simp
    have loop: "exec_loop scr idx d [?lt..<tail l] l st =
      (case replay d idx (segment ?lt (tail l) h) st of
         Inl f \<Rightarrow> Inl f
       | Inr st' \<Rightarrow> Inr (l\<lparr>lmasks := (lmasks l)[idx - 1 := even (tail l div length (slog l))]\<rparr>, st'))"
    proof (rule exec_loop_replay)
      fix i assume i: "?lt \<le> i" "i < tail l"
      with in1(1) have hi: "head l \<le> i" by simp
      have "tail l \<le> i + length (slog l)" using hi inv(4) by simp
      then have "\<not> scr \<longrightarrow> alivef (slog l ! index l i) = even (i div length (slog l))"
        using alive_roundsD [OF _ inv(1) i(2)] inv(10) by blast
      then show "operation (slog l ! index l i) = Some (fst (h ! i))
           \<and> replica (slog l ! index l i) = snd (h ! i)
           \<and> (\<not> scr \<longrightarrow> alivef (slog l ! index l i) = even (i div length (slog l)))"
        using inv(7) hi i(2) by (simp add: holds_history_def)
    qed (use lt inv in1 ix in simp_all)
    have "max (ctail l) (tail l) = tail l" using inv(5) by simp
    then show ?thesis using False lt in1(1) ix inv(2,8) loop
      by (simp add: exec_def Let_def caught_up_def split: sum.split)
  qed
qed

lemma log_inv_caught_up:
  assumes "log_inv scr l h" "registered l idx"
  shows "log_inv scr (caught_up idx l) h"
proof -
  note inv = log_invD [OF assms(1)]
  note ix = log_wf_registered [OF inv(1) assms(2)]
  have "replicas_inside (caught_up idx l)"
    unfolding replicas_inside_def
  proof (intro conjI allI impI, goal_cases)
    case (1 j)
    then show ?case using inv(3,5) ix replicas_insideD(1) [OF inv(6), of j]
      by (cases "j - 1 = idx - 1") (auto simp: caught_up_def registered_def)
  next
    case (2 j)
    then show ?case using inv(3,5) ix replicas_insideD(2) [OF inv(6), of j]
      by (cases "j - 1 = idx - 1") (auto simp: caught_up_def registered_def)
  next
    case (3 j)
    then show ?case using ix replicas_insideD(3) [OF inv(6), of j]
      by (cases "j - 1 = idx - 1") (auto simp: caught_up_def registered_def)
  next
    case (4 j)
    then have "j - 1 \<noteq> idx - 1" using assms(2) by (auto simp: caught_up_def registered_def)
    with 4 show ?case using inv(6) by (simp add: caught_up_def replicas_inside_def)
  next
    case (5 j)
    then have "j - 1 \<noteq> idx - 1" using assms(2) by (auto simp: caught_up_def registered_def)
    with 5 show ?case using inv(6) by (simp add: caught_up_def replicas_inside_def)
  qed
  moreover have "index (caught_up idx l) = index l" by (simp add: caught_up_def index_def fun_eq_iff)
  ultimately show ?thesis using assms(1)
    by (auto simp: log_inv_def caught_up_def log_wf_def holds_history_def alive_rounds_def
        split: if_splits)
qed

section \<open>What a run of the log leaves behind\<close>

text \<open>
  \<open>moved\<close>: only replica \<open>idx\<close> moved, and the closure consumed exactly the entries of \<open>h\<close> between
  the old and the new local tail, in the order of the history. \<open>log_advanced\<close>: moreover the log
  holds the history \<open>h\<close> at the end. \<open>log_failed\<close>: the closure itself failed on such a segment.
\<close>

definition moved :: "nat \<Rightarrow> ('op, 's) closure \<Rightarrow> 'op history \<Rightarrow> 'op nr_log \<Rightarrow> 's
    \<Rightarrow> 'op nr_log \<Rightarrow> 's \<Rightarrow> bool" where
  "moved idx d h l st l' st' \<longleftrightarrow>
     next_id l' = next_id l \<and> length (slog l') = length (slog l)
     \<and> head l \<le> head l' \<and> ctail l \<le> ctail l'
     \<and> ltails l ! (idx - 1) \<le> ltails l' ! (idx - 1)
     \<and> (\<forall>j. j \<noteq> idx - 1 \<longrightarrow> ltails l' ! j = ltails l ! j)
     \<and> replay d idx (segment (ltails l ! (idx - 1)) (ltails l' ! (idx - 1)) h) st = Inr st'"

definition log_advanced :: "bool \<Rightarrow> nat \<Rightarrow> ('op, 's) closure \<Rightarrow> 'op history \<Rightarrow> 'op nr_log \<Rightarrow> 's
    \<Rightarrow> 'op nr_log \<Rightarrow> 's \<Rightarrow> bool" where
  "log_advanced scr idx d h l st l' st' \<longleftrightarrow> log_inv scr l' h \<and> moved idx d h l st l' st'"

definition log_failed :: "nat \<Rightarrow> ('op, 's) closure \<Rightarrow> 'op history \<Rightarrow> 'op nr_log \<Rightarrow> 's \<Rightarrow> failure \<Rightarrow> bool" where
  "log_failed idx d h l st f \<longleftrightarrow>
     (\<exists>k\<le>length h. replay d idx (segment (ltails l ! (idx - 1)) k h) st = Inl f)"

lemma log_advanced_refl: "log_inv scr l h \<Longrightarrow> log_advanced scr idx d h l st l st"
  by (simp add: log_advanced_def moved_def)

lemma log_advanced_inv: "log_advanced scr idx d h l st l' st' \<Longrightarrow> log_inv scr l' h"
  by (simp add: log_advanced_def)

lemma log_advanced_registered:
  "log_advanced scr idx d h l st l' st' \<Longrightarrow> registered l' r = registered l r"
  by (simp add: log_advanced_def moved_def registered_def)

lemma moved_trans:
  assumes "moved idx d h l st l1 st1" "moved idx d h l1 st1 l2 st2"
  shows "moved idx d h l st l2 st2"
proof -
  let ?t = "ltails l ! (idx - 1)" and ?t1 = "ltails l1 ! (idx - 1)" and ?t2 = "ltails l2 ! (idx - 1)"
  have le: "?t \<le> ?t1" "?t1 \<le> ?t2" using assms by (auto simp: moved_def)
  have "replay d idx (segment ?t ?t1 h @ segment ?t1 ?t2 h) st = Inr st2"
    using assms by (intro replay_appendI) (auto simp: moved_def)
  then have "replay d idx (segment ?t ?t2 h) st = Inr st2" by (simp add: segment_join le)
  with assms le show ?thesis by (auto simp: moved_def)
qed

lemma log_advanced_trans:
  "log_advanced scr idx d h l st l1 st1 \<Longrightarrow> log_advanced scr idx d h l1 st1 l2 st2
   \<Longrightarrow> log_advanced scr idx d h l st l2 st2"
  by (auto simp: log_advanced_def intro: moved_trans)

lemma moved_failed:
  assumes "moved idx d h l st l1 st1" "log_failed idx d h l1 st1 f"
  shows "log_failed idx d h l st f"
proof -
  let ?t = "ltails l ! (idx - 1)" and ?t1 = "ltails l1 ! (idx - 1)"
  from assms(2) obtain k where k: "k \<le> length h" "replay d idx (segment ?t1 k h) st1 = Inl f"
    by (auto simp: log_failed_def)
  then have "?t1 \<le> k" by (metis Inl_Inr_False linorder_linear replay.simps(1) segment_empty)
  moreover have "?t \<le> ?t1" using assms(1) by (simp add: moved_def)
  moreover have "replay d idx (segment ?t ?t1 h @ segment ?t1 k h) st = Inl f"
    using assms(1) k(2) by (intro replay_appendI) (auto simp: moved_def)
  ultimately show ?thesis using k(1) by (auto simp: log_failed_def segment_join)
qed

lemma log_failed_trans:
  "log_advanced scr idx d h l st l1 st1 \<Longrightarrow> log_failed idx d h l1 st1 f \<Longrightarrow> log_failed idx d h l st f"
  by (auto simp: log_advanced_def intro: moved_failed)

lemma log_failed_append: "log_failed idx d h l st f \<Longrightarrow> log_failed idx d (h @ h') l st f"
  unfolding log_failed_def by (elim exE conjE, rule exI, rule conjI [rotated], subst segment_append_left) auto

text \<open>The run so far is also a run over any longer history, so a later append extends it.\<close>

lemma log_advanced_moved:
  assumes "log_advanced scr idx d h l st l1 st1" "registered l idx"
  shows "moved idx d (h @ h') l st l1 st1"
proof -
  note I = log_invD [OF log_advanced_inv [OF assms(1)]]
  have "registered l1 idx" using assms(2) log_advanced_registered [OF assms(1)] by simp
  then have "ltails l1 ! (idx - 1) \<le> length h" using replicas_insideD(2) [OF I(6)] I(2,5) by fastforce
  then show ?thesis using assms(1) by (simp add: log_advanced_def moved_def)
qed

lemma log_advanced_extend:
  "log_advanced scr idx d h l st l1 st1 \<Longrightarrow> registered l idx
   \<Longrightarrow> log_advanced scr idx d (h @ h') l1 st1 l2 st2 \<Longrightarrow> log_advanced scr idx d (h @ h') l st l2 st2"
  by (auto simp: log_advanced_def [of _ _ _ "h @ h'"] intro: moved_trans log_advanced_moved)

lemma log_failed_extend:
  "log_advanced scr idx d h l st l1 st1 \<Longrightarrow> registered l idx
   \<Longrightarrow> log_failed idx d (h @ h') l1 st1 f \<Longrightarrow> log_failed idx d (h @ h') l st f"
  by (blast intro: moved_failed log_advanced_moved)

lemma exec_advanced:
  assumes "log_inv scr l h" "registered l idx"
  shows "case exec scr idx d l st of
           Inl f \<Rightarrow> log_failed idx d h l st f
         | Inr (l', st') \<Rightarrow> log_advanced scr idx d h l st l' st' \<and> ltails l' ! (idx - 1) = tail l'"
proof (cases "replay d idx (drop (ltails l ! (idx - 1)) h) st")
  case (Inl f)
  then show ?thesis using exec_replay [OF assms, of d st]
    by (auto simp: log_failed_def intro!: exI [of _ "length h"])
next
  case (Inr st')
  note inv = log_invD [OF assms(1)]
  have "idx - 1 < length (ltails l)" using log_wf_registered [OF inv(1) assms(2)] by simp
  then show ?thesis
    using Inr exec_replay [OF assms, of d st] log_inv_caught_up [OF assms] inv
      replicas_insideD(2) [OF inv(6) assms(2)]
    by (auto simp: log_advanced_def moved_def caught_up_def nth_list_update)
qed

section \<open>Advancing the head\<close>

lemma log_inv_head:
  assumes "log_inv scr l h" "head l \<le> t" "t \<le> tail l"
    and "\<And>i. registered l i \<Longrightarrow> t \<le> ltails l ! (i - 1)"
  shows "log_inv scr (l\<lparr>head := t\<rparr>) h"
proof -
  have "index (l\<lparr>head := t\<rparr>) = index l" by (simp add: index_def fun_eq_iff)
  then show ?thesis using assms
    by (auto simp: log_inv_def log_wf_def replicas_inside_def holds_history_def alive_rounds_def
        registered_def split: if_splits)
qed

lemma min_tail_bounds:
  assumes "log_inv scr l h" "registered l idx" "find_min_tail l = Inr (m, t)"
  shows "head l \<le> t" "t \<le> tail l" "t = ltails l ! m" "registered l (Suc m)"
    "\<And>i. registered l i \<Longrightarrow> t \<le> ltails l ! (i - 1)"
proof -
  note inv = log_invD [OF assms(1)]
  note spec = find_min_tail_spec [OF assms(3,2)]
  show "t = ltails l ! m" "registered l (Suc m)" by (rule spec)+
  show "head l \<le> t" using replicas_insideD(1) [OF inv(6) spec(2)] spec(1) by simp
  show "t \<le> tail l" using replicas_insideD(2) [OF inv(6) spec(2)] spec(1) inv(5) by simp
  show "\<And>i. registered l i \<Longrightarrow> t \<le> ltails l ! (i - 1)" by (rule spec(3))
qed

text \<open>
  The result of \<open>advance_head\<close>: room was made, or replica \<open>m\<close> lags behind and is the one to wait
  for, while the calling replica \<open>rid\<close> has caught up.
\<close>

definition lagging :: "nat \<Rightarrow> nat \<Rightarrow> 'op nr_log \<Rightarrow> bool" where
  "lagging rid m l \<longleftrightarrow> registered l (Suc m) \<and> ltails l ! m = head l \<and> head l < tail l
     \<and> ltails l ! (rid - 1) = tail l"

fun head_result :: "nat \<Rightarrow> 'op nr_log \<Rightarrow> nat + unit \<Rightarrow> bool" where
  "head_result rid l (Inr _) = (tail l < head l + length (slog l) - GC_FROM_HEAD)"
| "head_result rid l (Inl m) = lagging rid m l"

definition advance_post :: "bool \<Rightarrow> nat \<Rightarrow> ('op, 's) closure \<Rightarrow> 'op history \<Rightarrow> 'op nr_log \<Rightarrow> 's
    \<Rightarrow> ((nat + unit) \<times> 'op nr_log \<times> 's) run \<Rightarrow> bool" where
  "advance_post scr rid s h l st out =
     (case out of
        Inl f \<Rightarrow> log_failed rid s h l st f
      | Inr (r, l', st') \<Rightarrow> log_advanced scr rid s h l st l' st' \<and> head_result rid l' r)"

lemma advance_post_trans:
  "log_advanced scr rid s h l st l1 st1 \<Longrightarrow> advance_post scr rid s h l1 st1 out \<Longrightarrow> advance_post scr rid s h l st out"
  by (auto simp: advance_post_def split: sum.splits intro: log_advanced_trans log_failed_trans)

text \<open>One \<open>exec\<close> of the loop and the rest of it.\<close>

lemma exec_then_advance:
  assumes "log_inv scr l h" "registered l rid"
    and "\<And>l1 st1. exec scr rid s l st = Inr (l1, st1) \<Longrightarrow> log_advanced scr rid s h l st l1 st1
      \<Longrightarrow> head l1 = head l \<Longrightarrow> tail l1 = tail l \<Longrightarrow> ltails l1 ! (rid - 1) = tail l1
      \<Longrightarrow> advance_post scr rid s h l1 st1 (k l1 st1)"
  shows "advance_post scr rid s h l st
    (case exec scr rid s l st of Inl f \<Rightarrow> Inl f | Inr (l1, st1) \<Rightarrow> k l1 st1)"
proof (cases "exec scr rid s l st")
  case (Inl f)
  then show ?thesis using exec_advanced [OF assms(1,2), of s st] by (simp add: advance_post_def)
next
  case (Inr p)
  obtain l1 st1 where p: "p = (l1, st1)" by fastforce
  have adv: "log_advanced scr rid s h l st l1 st1" and up: "ltails l1 ! (rid - 1) = tail l1"
    using exec_advanced [OF assms(1,2), of s st] Inr p by auto
  from Inr p exec_frame [of scr rid s l st l1 st1] have "head l1 = head l" "tail l1 = tail l" by simp_all
  from advance_post_trans [OF adv assms(3) [OF Inr [unfolded p] adv this up]] show ?thesis
    using Inr p by simp
qed

lemma advance_head_loop_spec:
  assumes "log_inv scr l h" "registered l rid" "head l < tail l"
    and "it mod WARN_THRESHOLD = 0 \<longrightarrow> ltails l ! (rid - 1) = tail l"
  shows "advance_post scr rid s h l st (advance_head_loop scr rid s it l st)"
  using assms
proof (induction scr rid s it l st rule: advance_head_loop.induct)
  case (1 scr rid s it l st)
  note inv = log_invD [OF "1.prems"(1)] and unfold = advance_head_loop.simps [of scr rid s it l st]
  obtain m t where fmt: "find_min_tail l = Inr (m, t)" using find_min_tail_wf [OF inv(1)] by blast
  note mt = min_tail_bounds [OF "1.prems"(1,2) fmt]
  define l0 where "l0 = l\<lparr>head := t\<rparr>"
  have inv0: "log_inv scr l0 h" unfolding l0_def
    using "1.prems"(1) mt by (intro log_inv_head) auto
  have reg0: "registered l0 rid" using "1.prems"(2) by (simp add: l0_def registered_def)
  have adv0: "log_advanced scr rid s h l st l0 st"
    using inv0 mt(1) by (simp add: log_advanced_def moved_def l0_def)
  consider (stuck) "t = head l" "it mod WARN_THRESHOLD = 0"
    | (wait) "t = head l" "it mod WARN_THRESHOLD \<noteq> 0"
    | (room) "t \<noteq> head l" "tail l < t + length (slog l) - GC_FROM_HEAD"
    | (more) "t \<noteq> head l" "\<not> tail l < t + length (slog l) - GC_FROM_HEAD" by blast
  then show ?case
  proof cases
    case stuck
    then show ?thesis using fmt mt "1.prems" log_advanced_refl [OF "1.prems"(1)]
      by (simp add: unfold advance_post_def lagging_def)
  next
    case wait
    have "advance_post scr rid s h l st
      (case exec scr rid s l st of Inl f \<Rightarrow> Inl f | Inr (l1, st1) \<Rightarrow> advance_head_loop scr rid s (it + 1) l1 st1)"
      using "1.IH"(1) [OF refl refl fmt refl wait _ refl] "1.prems"
      by (intro exec_then_advance) (auto simp: log_advanced_inv log_advanced_registered)
    then show ?thesis using fmt wait by (simp add: unfold)
  next
    case room
    then show ?thesis using fmt adv0 by (simp add: unfold advance_post_def l0_def)
  next
    case more
    have "GC_FROM_HEAD < length (slog l)" using log_wf_slots(3) [OF inv(1)] by (simp add: log_constants)
    then have "t < tail l" using more(2) mt(2) by auto
    then have "advance_post scr rid s h l0 st
      (case exec scr rid s l0 st of Inl f \<Rightarrow> Inl f | Inr (l1, st1) \<Rightarrow> advance_head_loop scr rid s it l1 st1)"
      using "1.IH"(2) [OF refl refl fmt refl more(1) refl more(2) _ refl, folded l0_def] inv0 reg0
      by (intro exec_then_advance) (auto simp: log_advanced_inv log_advanced_registered l0_def)
    from advance_post_trans [OF adv0 this] show ?thesis using fmt more by (simp add: unfold l0_def)
  qed
qed

lemma advance_head_spec:
  "log_inv scr l h \<Longrightarrow> registered l rid \<Longrightarrow> head l < tail l
   \<Longrightarrow> advance_post scr rid s h l st (advance_head scr rid s l st)"
  unfolding advance_head_def by (rule advance_head_loop_spec) (simp_all add: WARN_THRESHOLD_def)

section \<open>Appending\<close>

definition entries_of :: "nat \<Rightarrow> 'op list \<Rightarrow> 'op history" where
  "entries_of idx ops = map (\<lambda>oper. (oper, idx)) ops"

lemma length_entries_of [simp]: "length (entries_of idx ops) = length ops"
  by (simp add: entries_of_def)

lemma nth_entries_of [simp]: "k < length ops \<Longrightarrow> entries_of idx ops ! k = (ops ! k, idx)"
  by (simp add: entries_of_def)

text \<open>What writing a batch does to the slots, for a batch no longer than the log.\<close>

lemma write_entries_spec:
  assumes "log_wf l" "length ops \<le> length (slog l)"
  shows "\<exists>es. write_entries scr idx pos ops l = l\<lparr>slog := es\<rparr> \<and> length es = length (slog l)
     \<and> (\<forall>k<length ops. operation (es ! index l (pos + k)) = Some (ops ! k)
          \<and> replica (es ! index l (pos + k)) = idx
          \<and> (\<not> scr \<longrightarrow> alivef (es ! index l (pos + k)) = (\<not> alivef (slog l ! index l (pos + k)))))
     \<and> (\<forall>p<length (slog l). (\<forall>k<length ops. index l (pos + k) \<noteq> p) \<longrightarrow> es ! p = slog l ! p)"
  using assms
proof (induction ops arbitrary: pos l)
  case Nil
  show ?case by (intro exI [of _ "slog l"]) simp
next
  case (Cons oper ops)
  let ?p = "index l pos"
  define e' where "e' = (let e = slog l ! ?p; m0 = lmasks l ! (idx - 1);
      m = (if alivef e = m0 then \<not> m0 else m0)
    in if scr then e\<lparr>operation := Some oper, replica := idx\<rparr>
       else e\<lparr>operation := Some oper, replica := idx, alivef := m\<rparr>)"
  define l1 where "l1 = l\<lparr>slog := (slog l)[?p := e']\<rparr>"
  have e': "operation e' = Some oper" "replica e' = idx"
    "\<not> scr \<Longrightarrow> alivef e' = (\<not> alivef (slog l ! ?p))"
    by (auto simp: e'_def Let_def)
  have wf1: "log_wf l1" using Cons.prems(1) by (simp add: l1_def log_wf_def)
  have len1 [simp]: "length (slog l1) = length (slog l)" by (simp add: l1_def)
  have ind1 [simp]: "index l1 = index l" by (simp add: l1_def index_def fun_eq_iff)
  have p: "?p < length (slog l)" using Cons.prems(1) by (rule index_less)
  have step: "write_entries scr idx pos (oper # ops) l = write_entries scr idx (pos + 1) ops l1"
    by (simp add: l1_def e'_def Let_def)
  have fresh: "index l (pos + 1 + k) \<noteq> ?p" if "k < length ops" for k
  proof
    assume "index l (pos + 1 + k) = ?p"
    then have "(pos + 1 + k) mod length (slog l) = pos mod length (slog l)"
      using Cons.prems(1) by (simp add: index_eq_mod)
    from mod_eq_close [OF this [symmetric]] have "pos = pos + 1 + k" using that Cons.prems(2) by simp
    then show False by simp
  qed
  from Cons.IH [OF wf1, of "pos + 1"] Cons.prems(2) obtain es where
    es: "write_entries scr idx (pos + 1) ops l1 = l1\<lparr>slog := es\<rparr>" "length es = length (slog l)"
    and new: "\<And>k. k < length ops \<Longrightarrow> operation (es ! index l (pos + 1 + k)) = Some (ops ! k)
          \<and> replica (es ! index l (pos + 1 + k)) = idx
          \<and> (\<not> scr \<longrightarrow> alivef (es ! index l (pos + 1 + k)) = (\<not> alivef (slog l1 ! index l (pos + 1 + k))))"
    and old: "\<And>p. p < length (slog l) \<Longrightarrow> \<forall>k<length ops. index l (pos + 1 + k) \<noteq> p \<Longrightarrow> es ! p = slog l1 ! p"
    by auto
  have at_p: "es ! ?p = e'" using old [OF p] fresh p by (simp add: l1_def)
  have "operation (es ! index l (pos + k)) = Some ((oper # ops) ! k)
          \<and> replica (es ! index l (pos + k)) = idx
          \<and> (\<not> scr \<longrightarrow> alivef (es ! index l (pos + k)) = (\<not> alivef (slog l ! index l (pos + k))))"
    if "k < length (oper # ops)" for k
  proof (cases k)
    case 0
    then show ?thesis using at_p e' by simp
  next
    case (Suc j)
    then show ?thesis using new [of j] fresh [of j] that by (simp add: l1_def add.assoc flip: Suc_eq_plus1_left)
  qed
  moreover have "es ! q = slog l ! q"
    if "q < length (slog l)" "\<forall>k<length (oper # ops). index l (pos + k) \<noteq> q" for q
  proof -
    have "?p \<noteq> q" using that(2) [rule_format, of 0] by simp
    moreover have "index l (pos + 1 + k) \<noteq> q" if "k < length ops" for k
      using \<open>\<forall>k<length (oper # ops). index l (pos + k) \<noteq> q\<close> [rule_format, of "Suc k"] that by (simp add: add.assoc flip: Suc_eq_plus1_left)
    ultimately show ?thesis using old [OF that(1)] by (simp add: l1_def)
  qed
  ultimately show ?case using step es by (intro exI [of _ es]) (simp add: l1_def)
qed

text \<open>The log after a batch was reserved, written and (with \<open>scr\<close>) published.\<close>

definition published :: "bool \<Rightarrow> nat \<Rightarrow> 'op list \<Rightarrow> 'op nr_log \<Rightarrow> 'op nr_log" where
  "published scr idx ops l =
     (let l1 = write_entries scr idx (tail l) ops (l\<lparr>tail := tail l + length ops\<rparr>)
      in if scr then l1\<lparr>commit_tail := tail l + length ops\<rparr> else l1)"

lemma published_reserve:
  assumes "log_wf l" "length ops \<le> length (slog l)" "scr \<Longrightarrow> commit_tail l = tail l"
  shows "(let l1 = write_entries scr idx (tail l) ops (l\<lparr>tail := tail l + length ops\<rparr>)
          in if scr then publish (tail l) (length ops) l1 else Inr l1) = Inr (published scr idx ops l)"
proof -
  let ?l = "l\<lparr>tail := tail l + length ops\<rparr>"
  have "log_wf ?l" "length ops \<le> length (slog ?l)" using assms(1,2) by (simp_all add: log_wf_def)
  from write_entries_spec [OF this, of scr idx "tail l"]
  obtain es where "write_entries scr idx (tail l) ops ?l = ?l\<lparr>slog := es\<rparr>" by blast
  then show ?thesis using assms(3) by (auto simp: published_def Let_def publish_def)
qed

lemma log_inv_published:
  assumes inv: "log_inv scr l h" and room: "tail l + length ops \<le> head l + length (slog l)"
  shows "log_inv scr (published scr idx ops l) (h @ entries_of idx ops)"
    and "ltails (published scr idx ops l) = ltails l" "next_id (published scr idx ops l) = next_id l"
    "length (slog (published scr idx ops l)) = length (slog l)" "head (published scr idx ops l) = head l"
    "ctail (published scr idx ops l) = ctail l" "tail (published scr idx ops l) = tail l + length ops"
proof -
  let ?n = "length (slog l)" and ?m = "length ops" and ?l0 = "l\<lparr>tail := tail l + length ops\<rparr>"
  note I = log_invD [OF inv]
  have n: "0 < ?n" using I(1) by (rule log_wf_slots)
  have small: "?m \<le> ?n" using room I(3) by simp
  have wf0: "log_wf ?l0" using I(1) by (simp add: log_wf_def)
  have ind0: "index ?l0 = index l" by (simp add: index_def fun_eq_iff)
  from write_entries_spec [OF wf0, of ops scr idx "tail l"] small obtain es where
    es: "write_entries scr idx (tail l) ops ?l0 = ?l0\<lparr>slog := es\<rparr>" and len: "length es = ?n"
    and new: "\<And>k. k < ?m \<Longrightarrow> operation (es ! index l (tail l + k)) = Some (ops ! k)
          \<and> replica (es ! index l (tail l + k)) = idx
          \<and> (\<not> scr \<longrightarrow> alivef (es ! index l (tail l + k)) = (\<not> alivef (slog l ! index l (tail l + k))))"
    and old: "\<And>p. p < ?n \<Longrightarrow> \<forall>k<?m. index l (tail l + k) \<noteq> p \<Longrightarrow> es ! p = slog l ! p"
    unfolding ind0 by auto
  let ?l = "published scr idx ops l"
  have l: "?l = (if scr then l\<lparr>tail := tail l + ?m, slog := es, commit_tail := tail l + ?m\<rparr>
                 else l\<lparr>tail := tail l + ?m, slog := es\<rparr>)"
    unfolding published_def es by simp
  show facts: "ltails ?l = ltails l" "next_id ?l = next_id l" "length (slog ?l) = ?n" "head ?l = head l"
    "ctail ?l = ctail l" "tail ?l = tail l + ?m"
    by (simp_all add: l len)
  have slog: "slog ?l = es" "lmasks ?l = lmasks l" by (simp_all add: l)
  have ind: "index ?l = index l" by (simp add: index_def fun_eq_iff slog(1) len)
  have reg: "registered ?l = registered l" by (simp add: registered_def fun_eq_iff l)
  have apart: "index l i \<noteq> index l j" if "i < j" "j < i + ?n" for i j
  proof
    assume "index l i = index l j"
    then have "i mod ?n = j mod ?n" using I(1) by (simp add: index_eq_mod)
    from mod_eq_close [OF this] have "i = j" using that by simp
    then show False using that by simp
  qed
  have "holds_history ?l (h @ entries_of idx ops)"
    unfolding holds_history_def
  proof (intro allI impI)
    fix i assume i: "head ?l \<le> i \<and> i < tail ?l"
    show "operation (slog ?l ! index ?l i) = Some (fst ((h @ entries_of idx ops) ! i))
        \<and> replica (slog ?l ! index ?l i) = snd ((h @ entries_of idx ops) ! i)"
    proof (cases "i < tail l")
      case True
      have "index l (tail l + k) \<noteq> index l i" if "k < ?m" for k
        using apart [of i "tail l + k"] that True i room facts by simp
      then have "es ! index l i = slog l ! index l i"
        using index_less [OF I(1), of i] by (intro old) auto
      then show ?thesis using True i I(2,7) facts by (auto simp: holds_history_def slog ind nth_append)
    next
      case False
      then show ?thesis using new [of "i - tail l"] i I(2) facts by (auto simp: slog ind nth_append)
    qed
  qed
  moreover have "alive_rounds ?l" if "\<not> scr"
    unfolding alive_rounds_def facts
  proof (intro allI impI)
    fix i assume i: "tail l + ?m \<le> i \<and> i < tail l + ?m + ?n"
    have alive: "alivef (slog l ! index l j) = odd (j div ?n)" if "tail l \<le> j" "j < tail l + ?n" for j
      using I(10) [OF \<open>\<not> scr\<close>] that by (simp add: alive_rounds_def)
    show "alivef (slog ?l ! index ?l i) = odd (i div ?n)"
    proof (cases "i < tail l + ?n")
      case True
      have "index l (tail l + k) \<noteq> index l i" if "k < ?m" for k
        using apart [of "tail l + k" i] that True i by simp
      then have "es ! index l i = slog l ! index l i"
        using index_less [OF I(1), of i] by (intro old) auto
      then show ?thesis using True i alive by (simp add: slog ind)
    next
      case False
      define j where "j = i - ?n"
      have j: "i = j + ?n" "tail l \<le> j" "j < tail l + ?m" using False i by (auto simp: j_def)
      have "alivef (es ! index l j) = (\<not> alivef (slog l ! index l j))"
        using new [of "j - tail l"] j(2,3) \<open>\<not> scr\<close> by simp
      also have "alivef (slog l ! index l j) = odd (j div ?n)" using j small by (intro alive) auto
      also have "(\<not> odd (j div ?n)) = odd (i div ?n)" using n by (simp add: j(1) div_add_round)
      also have "index l j = index l i" using I(1) by (simp add: j(1) index_eq_mod)
      finally show ?thesis by (simp add: slog ind)
    qed
  qed
  moreover have "log_wf ?l" using I(1) by (simp add: l log_wf_def len)
  moreover have "replicas_inside ?l"
    using I(6) by (simp add: replicas_inside_def facts slog reg len)
  moreover have "scr \<longrightarrow> commit_tail ?l = tail l + ?m" unfolding l by simp
  ultimately show "log_inv scr ?l (h @ entries_of idx ops)"
    using I(2-5) room facts by (cases scr) (simp_all add: log_inv_def)
qed

text \<open>
  \<open>append\<close>: an error leaves the history as it was and names a registered replica \<open>r\<close> with \<open>E r\<close>;
  \<open>Ok\<close> extends the history with the batch, and in \<open>Ok (Some r)\<close> replica \<open>r\<close> lags behind.
\<close>

definition append_post :: "bool \<Rightarrow> (nat \<Rightarrow> 'op nr_log \<Rightarrow> bool) \<Rightarrow> 'op list \<Rightarrow> nat \<Rightarrow> ('op, 's) closure
    \<Rightarrow> 'op history \<Rightarrow> 'op nr_log \<Rightarrow> 's \<Rightarrow> ((nat + nat option) \<times> 'op nr_log \<times> 's) run \<Rightarrow> bool" where
  "append_post scr E ops idx s h l st out =
     (case out of
        Inl f \<Rightarrow> log_failed idx s (h @ entries_of idx ops) l st f
      | Inr (Inl r, l', st') \<Rightarrow> log_advanced scr idx s h l st l' st' \<and> registered l' (Suc r) \<and> E r l'
      | Inr (Inr gc, l', st') \<Rightarrow>
          log_advanced scr idx s (h @ entries_of idx ops) l st l' st'
          \<and> (\<forall>r. gc = Some r \<longrightarrow> lagging idx r l'))"

lemma append_post_trans:
  assumes "log_advanced scr idx s h l st l1 st1" "registered l idx"
    and "append_post scr E ops idx s h l1 st1 out"
  shows "append_post scr E ops idx s h l st out"
  using assms by (auto simp: append_post_def split: sum.splits
      intro: log_advanced_trans log_advanced_extend log_failed_extend)

lemma append_give_up:
  assumes "log_inv scr l h" "registered l idx" "E = (\<lambda>_ _. True)"
  shows "append_post scr E ops idx s h l st
    (case find_min_tail l of Inl x \<Rightarrow> Inl x | Inr (m, _) \<Rightarrow> Inr (Inl m, l, st))"
proof -
  obtain m t where fmt: "find_min_tail l = Inr (m, t)"
    using find_min_tail_wf [OF log_invD(1) [OF assms(1)]] by blast
  with min_tail_bounds [OF assms(1,2) fmt] log_advanced_refl [OF assms(1)] assms(3)
  show ?thesis by (simp add: append_post_def)
qed

text \<open>No room: the replica catches up, the head is advanced, and the loop goes on.\<close>

lemma append_make_room:
  assumes "log_inv scr l h" "registered l idx" "tail l > head l + length (slog l) - GC_FROM_HEAD"
    and E: "\<And>r l'. lagging idx r l' \<Longrightarrow> E r l'"
    and k: "\<And>l0 st0 l1 st1. exec scr idx s l st = Inr (l0, st0)
      \<Longrightarrow> advance_head scr idx s l0 st0 = Inr (Inr (), l1, st1) \<Longrightarrow> log_advanced scr idx s h l st l1 st1
      \<Longrightarrow> tail l1 < head l1 + length (slog l1) - GC_FROM_HEAD
      \<Longrightarrow> append_post scr E ops idx s h l1 st1 (k l1 st1)"
  shows "append_post scr E ops idx s h l st
    (case exec scr idx s l st of
       Inl x \<Rightarrow> Inl x
     | Inr (l1, st1) \<Rightarrow>
         (case advance_head scr idx s l1 st1 of
            Inl x \<Rightarrow> Inl x
          | Inr (Inl r, l2, st2) \<Rightarrow> Inr (Inl r, l2, st2)
          | Inr (Inr _, l2, st2) \<Rightarrow> k l2 st2))"
proof -
  have "GC_FROM_HEAD \<le> length (slog l)" using log_wf_slots(2) log_invD(1) [OF assms(1)] by blast
  with assms(3) have lt: "head l < tail l" by linarith
  let ?out = "case exec scr idx s l st of Inl x \<Rightarrow> Inl x | Inr (l1, st1) \<Rightarrow> advance_head scr idx s l1 st1"
  have post: "advance_post scr idx s h l st ?out"
    using assms(1,2) lt
    by (intro exec_then_advance advance_head_spec) (auto simp: log_advanced_inv log_advanced_registered)
  show ?thesis
  proof (cases ?out)
    case (Inl f)
    with post have "log_failed idx s h l st f" by (simp add: advance_post_def)
    then show ?thesis using Inl by (auto simp: append_post_def log_failed_append split: sum.splits)
  next
    case (Inr q)
    obtain l0 st0 where ex: "exec scr idx s l st = Inr (l0, st0)" using Inr by (auto split: sum.splits)
    obtain r l1 st1 where q: "q = (r, l1, st1)" by (cases q)
    with Inr ex have ah: "advance_head scr idx s l0 st0 = Inr (r, l1, st1)" by simp
    from post Inr q have adv: "log_advanced scr idx s h l st l1 st1" and hr: "head_result idx l1 r"
      by (simp_all add: advance_post_def)
    show ?thesis
    proof (cases r)
      case (Inl m)
      then show ?thesis using ex ah adv hr E by (simp add: append_post_def lagging_def)
    next
      case r: (Inr u)
      from append_post_trans [OF adv assms(2) k [OF ex _ adv]] show ?thesis using ex ah hr r by simp
    qed
  qed
qed

text \<open>Room: the batch is written and published, and the head is advanced when room gets scarce.\<close>

lemma append_write:
  assumes "log_inv scr l h" "registered l idx" "length ops \<le> GC_FROM_HEAD"
    and "\<not> tail l > head l + length (slog l) - GC_FROM_HEAD"
  shows "append_post scr E ops idx s h l st
    (let l1 = write_entries scr idx (tail l) ops (l\<lparr>tail := tail l + length ops\<rparr>)
     in (case (if scr then publish (tail l) (length ops) l1 else Inr l1) of
           Inl x \<Rightarrow> Inl x
         | Inr l2 \<Rightarrow>
             if tail l + length ops > head l + length (slog l) - GC_FROM_HEAD
             then (case advance_head scr idx s l2 st of
                     Inl x \<Rightarrow> Inl x
                   | Inr (Inr _, l3, st3) \<Rightarrow> Inr (Inr None, l3, st3)
                   | Inr (Inl r, l3, st3) \<Rightarrow> Inr (Inr (Some r), l3, st3))
             else Inr (Inr None, l2, st)))"
proof -
  let ?l = "published scr idx ops l" and ?h = "h @ entries_of idx ops"
  note inv = log_invD [OF assms(1)]
  have gc: "2 * GC_FROM_HEAD \<le> length (slog l)" using inv(1) by (rule log_wf_slots(3))
  with assms(3,4) have room: "tail l + length ops \<le> head l + length (slog l)" by linarith
  note pub = log_inv_published [OF assms(1) room]
  have adv: "log_advanced scr idx s ?h l st ?l st" using pub by (simp add: log_advanced_def moved_def)
  have reg: "registered ?l idx" using assms(2) pub by (simp add: registered_def)
  have res: "(if scr then publish (tail l) (length ops)
        (write_entries scr idx (tail l) ops (l\<lparr>tail := tail l + length ops\<rparr>))
      else Inr (write_entries scr idx (tail l) ops (l\<lparr>tail := tail l + length ops\<rparr>))) = Inr ?l"
    using published_reserve [OF inv(1), of ops scr idx] inv(9) room inv(3) by (simp add: Let_def)
  show ?thesis
  proof (cases "tail l + length ops > head l + length (slog l) - GC_FROM_HEAD")
    case True
    then have "head ?l < tail ?l" using pub gc by (simp add: log_constants)
    from advance_post_trans [OF adv advance_head_spec [OF pub(1) reg this]] show ?thesis
      using True res by (auto simp: Let_def append_post_def advance_post_def split: sum.splits)
  next
    case False
    then show ?thesis using adv res by (simp add: Let_def append_post_def)
  qed
qed

lemma append_loop_spec:
  assumes "log_inv scr l h" "registered l idx" "length ops \<le> GC_FROM_HEAD"
  shows "append_post scr (\<lambda>_ _. True) ops idx s h l st (append_loop scr cas ops idx s it w l st)"
  using assms
proof (induction scr cas ops idx s it w l st rule: append_loop.induct)
  case (1 scr cas ops idx s it w l st)
  let ?full = "tail l > head l + length (slog l) - GC_FROM_HEAD"
  note unfold = append_loop.simps [of scr cas ops idx s it w l st]
  consider (slow) "it mod WARN_THRESHOLD = 0 \<or> ?full \<and> w mod WARN_THRESHOLD = 0"
    | (full) "it mod WARN_THRESHOLD \<noteq> 0" ?full "w mod WARN_THRESHOLD \<noteq> 0"
    | (retry) "it mod WARN_THRESHOLD \<noteq> 0" "\<not> ?full" "\<not> cas it"
    | (commit) "it mod WARN_THRESHOLD \<noteq> 0" "\<not> ?full" "cas it" by blast
  then show ?case
  proof cases
    case slow
    then show ?thesis using append_give_up [OF "1.prems"(1,2) refl, of ops s st] by (auto simp: unfold Let_def)
  next
    case full
    note room = append_make_room [OF "1.prems"(1,2) full(2), where E = "\<lambda>_ _. True" and s = s and st = st
        and ops = ops and k = "append_loop scr cas ops idx s (it + 1) (w + 1)"]
    show ?thesis
      using room "1.IH"(1) [OF refl full _ refl _ refl refl refl] full "1.prems"
      by (simp add: unfold Let_def log_advanced_inv log_advanced_registered)
  next
    case retry
    with "1.IH"(2) [OF refl retry(1,2) refl] "1.prems" show ?thesis by (simp add: unfold Let_def)
  next
    case commit
    with append_write [OF "1.prems" commit(2), of "\<lambda>_ _. True" s st] show ?thesis by (simp add: unfold Let_def)
  qed
qed

lemmas append_spec = append_loop_spec [where it = 1 and w = 1, folded append_def]

text \<open>Without contention the only error is a replica that lags behind.\<close>

lemma append_uncontended:
  assumes "log_inv scr l h" "registered l idx" "length ops \<le> GC_FROM_HEAD" "\<And>i. cas i"
  shows "append_post scr (lagging idx) ops idx s h l st (append scr cas ops idx s l st)"
proof -
  have w: "1 mod WARN_THRESHOLD \<noteq> 0" "(1 + 1) mod WARN_THRESHOLD \<noteq> 0" by (simp_all add: WARN_THRESHOLD_def)
  note unfold = append_loop.simps [of scr cas ops idx s]
  have commit: "append_post scr (lagging idx) ops idx s h l' st' (append_loop scr cas ops idx s it wg l' st')"
    if "it mod WARN_THRESHOLD \<noteq> 0" "log_inv scr l' h" "registered l' idx"
      "\<not> tail l' > head l' + length (slog l') - GC_FROM_HEAD" for it wg l' st'
    using append_write [OF that(2,3) assms(3) that(4), of "lagging idx" s st'] assms(4) that(1,4) by (simp add: unfold Let_def)
  show ?thesis
  proof (cases "tail l > head l + length (slog l) - GC_FROM_HEAD")
    case True
    note room = append_make_room [OF assms(1,2) True, where E = "lagging idx" and s = s and st = st
        and ops = ops and k = "append_loop scr cas ops idx s (1 + 1) (1 + 1)"]
    show ?thesis
      using room commit [OF w(2)] True w assms(2)
      by (simp add: append_def unfold [of 1 1] Let_def log_advanced_inv log_advanced_registered)
  next
    case False
    then show ?thesis using commit [OF w(1) assms(1,2)] by (simp add: append_def)
  qed
qed

section \<open>Registration\<close>

lemma log_inv_register:
  assumes "log_inv scr l h" "head l = 0" "next_id l \<le> MAX_REPLICAS_PER_LOG"
  shows "log_inv scr (l\<lparr>next_id := next_id l + 1\<rparr>) h"
proof -
  note I = log_invD [OF assms(1)]
  let ?l = "l\<lparr>next_id := next_id l + 1\<rparr>"
  have "index ?l = index l" by (simp add: index_def fun_eq_iff)
  moreover have "replicas_inside ?l"
    unfolding replicas_inside_def
  proof (intro conjI allI impI)
    fix i
    assume "registered ?l i"
    then have "registered l i \<or> i = next_id l" by (auto simp: registered_def)
    then show "head ?l \<le> ltails ?l ! (i - 1)" "ltails ?l ! (i - 1) \<le> ctail ?l"
      "lmasks ?l ! (i - 1) = even (ltails ?l ! (i - 1) div length (slog ?l))"
      using I(6) assms(2,3) by (auto simp: replicas_inside_def)
  qed (use I(6) in \<open>auto simp: replicas_inside_def\<close>)
  ultimately show ?thesis
    using assms I by (auto simp: log_inv_def log_wf_def holds_history_def alive_rounds_def)
qed

text \<open>A new log with its first replica registered.\<close>

lemma log_inv_first:
  assumes "l = snd (log_register 0 (new_with_entries () n ()))"
  shows "log_inv scr l []" "registered l 1" "registered l idx = (idx = 1)" "head l = 0" "tail l = 0" "ltails l ! 0 = 0"
    "GC_FROM_HEAD + GC_FROM_HEAD \<le> length (slog l)"
  using assms log_inv_register [OF log_inv_new [of scr n]] entries_to_log_entries_min [of n]
  by (auto simp: log_register_eq new_with_entries_def registered_def MAX_REPLICAS_PER_LOG_def)

text \<open>A log in use: one replica has appended a batch and not replayed it.\<close>

lemma log_inv_in_use:
  assumes "l = published scr 1 ops (snd (log_register 0 (new_with_entries () n ())))" "length ops \<le> GC_FROM_HEAD"
  shows "log_inv scr l (entries_of 1 ops)" "registered l 1" "head l = 0" "tail l = length ops" "ltails l ! 0 = 0"
proof -
  let ?l = "snd (log_register 0 (new_with_entries () n ())) :: 'a nr_log"
  note F = log_inv_first [of ?l n, OF refl]
  have "tail ?l + length ops \<le> head ?l + length (slog ?l)" using F(4,5,7) assms(2) by simp
  note P = log_inv_published [OF F(1) [of scr] this, of 1]
  show "log_inv scr l (entries_of 1 ops)" "registered l 1" "head l = 0" "tail l = length ops" "ltails l ! 0 = 0"
    using P F(2,4-6) by (simp_all add: assms(1) registered_def)
qed

lemma replay_total: "(\<And>oper own st. d oper own st \<noteq> Inl f) \<Longrightarrow> replay d idx xs st \<noteq> Inl f"
  by (induction d idx xs st rule: replay.induct) (auto split: sum.splits)

section \<open>Properties\<close>

text \<open>
  C15. \<open>exec\<close> hands every entry appended since the replica's last visit to the closure exactly once,
  in log order, telling it which entries are the replica's own; it fails only when the closure
  fails, and afterwards the log still satisfies its invariant with the replica up to date.
\<close>

theorem exec_correct:
  assumes "log_inv scr l h" "registered l idx"
  shows "exec scr idx d l st =
      (case replay d idx (drop (ltails l ! (idx - 1)) h) st of
         Inl f \<Rightarrow> Inl f
       | Inr st' \<Rightarrow> Inr (caught_up idx l, st'))
    \<and> log_inv scr (caught_up idx l) h \<and> ltails (caught_up idx l) ! (idx - 1) = length h"
  using exec_replay [OF assms] log_inv_caught_up [OF assms] log_invD(1,2) [OF assms(1)] log_wf_registered [OF _ assms(2)]
  by (simp add: caught_up_def)

theorem exec_correct_witness:
  "\<exists>l. log_inv False l (entries_of 1 [''a'', ''b'']) \<and> registered l 1
    \<and> exec False 1 (\<lambda>oper own st. Inr (st @ [(oper, own)])) l [] = Inr (caught_up 1 l, [(''a'', True), (''b'', True)])"
proof -
  let ?p = "published False 1 [''a'', ''b''] (snd (log_register 0 (new_with_entries () 0 ())))"
  have "length [''a'', ''b''] \<le> GC_FROM_HEAD" by (simp add: GC_FROM_HEAD_value)
  note U = log_inv_in_use [OF refl this, of False 0]
  with exec_correct [OF U(1,2), of "\<lambda>oper own st. Inr (st @ [(oper, own)])" "[]"]
  show ?thesis by (intro exI [of _ ?p]) (simp add: entries_of_def)
qed

text \<open>
  C14. \<open>append\<close> of a batch of at most \<open>GC_FROM_HEAD\<close> operations, whatever the outcomes of its
  compare-and-exchanges: it either extends the history by exactly this batch, in order and tagged
  with the replica, or reports a registered replica and leaves the history as it was. On the way
  the closure has seen exactly the entries by which the replica's local tail moved. It fails
  (panics or hangs) only when the closure fails on an entry of the history.
\<close>

theorem append_correct:
  assumes "log_inv scr l h" "registered l idx" "length ops \<le> GC_FROM_HEAD"
  shows "case append scr cas ops idx s l st of
      Inl f \<Rightarrow> \<exists>k. replay s idx (segment (ltails l ! (idx - 1)) k (h @ entries_of idx ops)) st = Inl f
    | Inr (Inl r, l', st') \<Rightarrow> log_inv scr l' h \<and> moved idx s h l st l' st' \<and> registered l' (Suc r)
    | Inr (Inr gc, l', st') \<Rightarrow> log_inv scr l' (h @ entries_of idx ops)
        \<and> moved idx s (h @ entries_of idx ops) l st l' st' \<and> (\<forall>r. gc = Some r \<longrightarrow> lagging idx r l')"
  using append_spec [OF assms, of s st cas]
  by (auto simp: append_post_def log_advanced_def log_failed_def split: sum.splits)

theorem append_correct_witness:
  "\<exists>l l'. log_inv True l [] \<and> registered l 1
    \<and> append True (\<lambda>i. 2 \<le> i) [''a''] 1 (\<lambda>oper own st. Inr st) l () = Inr (Inr None, l', ())
    \<and> log_inv True l' [(''a'', 1)]"
proof -
  let ?l = "snd (log_register 0 (new_with_entries () 0 ())) :: string nr_log"
  note F = log_inv_first [of ?l 0, OF refl]
  let ?p = "published True 1 [''a''] ?l"
  let ?run = "append True (\<lambda>i. 2 \<le> i) [''a''] 1 (\<lambda>oper own st. Inr st) ?l ()"
  have "publish (tail ?l) (length [''a'']) (write_entries True 1 (tail ?l) [''a''] (?l\<lparr>tail := tail ?l + length [''a'']\<rparr>)) = Inr ?p"
    using published_reserve [OF log_invD(1) [OF F(1)], of "[''a'']" True 1] log_invD(9) [OF F(1) [of True]] F(7)
    by (simp add: GC_FROM_HEAD_value Let_def)
  then have run: "?run = Inr (Inr None, ?p, ())"
    using F(4,5,7) by (simp add: append_def append_loop.simps WARN_THRESHOLD_def GC_FROM_HEAD_value Let_def)
  have "length [''a''] \<le> GC_FROM_HEAD" by (simp add: GC_FROM_HEAD_value)
  from append_correct [OF F(1) [of True] F(2) this, where cas = "\<lambda>i. 2 \<le> i" and s = "\<lambda>oper own st. Inr st" and st = "()"]
  have "log_inv True ?p [(''a'', 1)]" unfolding run by (simp add: entries_of_def)
  with F(1,2) run show ?thesis by blast
qed

text \<open>
  C16. Garbage collection: \<open>advance_head\<close> on a log that holds entries terminates, keeps the history,
  moves only the caller's local tail (replaying what it skips), and either frees more than the
  reserved \<open>GC_FROM_HEAD\<close> slots or names a registered replica that is still at the head while the
  caller itself is up to date.
\<close>

theorem advance_head_correct:
  assumes "log_inv scr l h" "registered l rid" "head l < tail l"
  shows "case advance_head scr rid s l st of
      Inl f \<Rightarrow> \<exists>k. replay s rid (segment (ltails l ! (rid - 1)) k h) st = Inl f
    | Inr (r, l', st') \<Rightarrow> log_inv scr l' h \<and> moved rid s h l st l' st'
        \<and> (case r of Inr _ \<Rightarrow> tail l' < head l' + length (slog l') - GC_FROM_HEAD | Inl m \<Rightarrow> lagging rid m l')"
  using advance_head_spec [OF assms, of s st]
  by (auto simp: advance_post_def log_advanced_def log_failed_def split: sum.splits)

theorem advance_head_correct_witness:
  "\<exists>l :: string nr_log. log_inv False l [(''a'', 1)] \<and> registered l 1 \<and> head l < tail l
    \<and> (\<exists>r l'. advance_head False 1 (\<lambda>oper own st. Inr st) l () = Inr (r, l', ()) \<and> log_inv False l' [(''a'', 1)])"
proof -
  let ?l = "published False 1 [''a''] (snd (log_register 0 (new_with_entries () 0 ())))"
  have "length [''a''] \<le> GC_FROM_HEAD" by (simp add: GC_FROM_HEAD_value)
  note U = log_inv_in_use [OF refl this, of False 0]
  have lt: "head ?l < tail ?l" using U(3,4) by simp
  from advance_head_correct [OF U(1,2) lt, where s = "\<lambda>oper own st. Inr st" and st = "()"]
  have "\<exists>r l'. advance_head False 1 (\<lambda>oper own st. Inr st) ?l () = Inr (r, l', ()) \<and> log_inv False l' (entries_of 1 [''a''])"
    by (cases "advance_head False 1 (\<lambda>oper own st. Inr st) ?l ()") (auto simp: replay_total)
  with U(1,2) lt show ?thesis by (auto simp: entries_of_def)
qed

text \<open>
  C33. The benchmark's \<open>reset\<close> leaves the commit tail of the previous run in place, so with the
  \<open>scr\<close> feature the first append after resetting a used log waits forever in \<open>publish\<close>.
\<close>

theorem reset_then_append_hangs:
  assumes "log_inv True l h" "h \<noteq> []" "cas 1"
  shows "append True cas [oper] 1 s (snd (log_register 0 (log_reset l))) st = Inl Hang"
proof -
  note I = log_invD [OF assms(1)]
  have "commit_tail l \<noteq> 0" using I(2) I(9) [OF TrueI] assms(2) by (metis length_0_conv)
  moreover have "GC_FROM_HEAD \<le> length (slog l)" using I(1) by (rule log_wf_slots)
  moreover have "MAX_REPLICAS_PER_LOG \<ge> 1" by (simp add: MAX_REPLICAS_PER_LOG_def)
  ultimately show ?thesis using assms(3)
    by (simp add: append_def append_loop.simps log_reset_def log_register_eq publish_def Let_def WARN_THRESHOLD_def)
qed

theorem reset_then_append_hangs_witness:
  "\<exists>l :: string nr_log. log_inv True l [(''a'', 1)]
    \<and> append True (\<lambda>_. True) [''b''] 1 (\<lambda>oper own st. Inr st) (snd (log_register 0 (log_reset l))) () = Inl Hang"
proof -
  have "length [''a''] \<le> GC_FROM_HEAD" by (simp add: GC_FROM_HEAD_value)
  note U = log_inv_in_use [OF refl this, of True 0]
  from reset_then_append_hangs [OF U(1), of "\<lambda>_. True" "''b''" "\<lambda>oper own st. Inr st" "()"] U(1)
  show ?thesis by (auto simp: entries_of_def)
qed

end
