(* ===== verification/Op_Context.thy ===== *)
theory Op_Context
  imports Shared_Log
begin

text \<open>
  The per-thread buffer of outstanding operations (\<open>context.rs\<close>, and its instance for CNR in
  \<open>cnr/context.rs\<close>). The owning thread enqueues operations at \<open>tail\<close> and takes responses at
  \<open>head\<close>; the combiner answers them at \<open>comb\<close>. The batch is a circular array; the abstract view
  is a pair of queues, the responses still to be picked up and the operations still to be run.
\<close>

section \<open>Data\<close>

record ('op, 'r, 'm) pending_operation =
  pend_op :: "'op option"
  pend_resp :: "'r option"
  pend_meta :: 'm

record ('op, 'r, 'm) op_context =
  batch :: "('op, 'r, 'm) pending_operation list"
  ctx_tail :: usize
  ctx_head :: usize
  ctx_comb :: usize
  ctx_idx :: usize

definition pending_default :: "'m \<Rightarrow> ('op, 'r, 'm) pending_operation" where
  "pending_default m = \<lparr>pend_op = None, pend_resp = None, pend_meta = m\<rparr>"

definition context_default :: "'m \<Rightarrow> ('op, 'r, 'm) op_context" where
  "context_default m =
     \<lparr>batch = replicate MAX_PENDING_OPS (pending_default m), ctx_tail = 0, ctx_head = 0, ctx_comb = 0,
      ctx_idx = 0\<rparr>"

definition context_new :: "'m \<Rightarrow> nat \<Rightarrow> ('op, 'r, 'm) op_context" where
  "context_new m idx = (context_default m)\<lparr>ctx_idx := idx\<rparr>"

section \<open>Operations\<close>

definition context_index :: "nat \<Rightarrow> nat" where
  "context_index logical = logical AND (MAX_PENDING_OPS - 1)"

definition context_batch_size :: nat where
  "context_batch_size = MAX_PENDING_OPS"

definition context_enqueue :: "'op \<Rightarrow> 'm \<Rightarrow> ('op, 'r, 'm) op_context \<Rightarrow> bool \<times> ('op, 'r, 'm) op_context" where
  "context_enqueue oper m c =
     (let t = ctx_tail c; h = ctx_head c
      in if usize_sub t h = MAX_PENDING_OPS then (False, c)
         else (let i = context_index t;
                   b1 = (batch c)[i := (batch c ! i)\<lparr>pend_op := Some oper\<rparr>];
                   b2 = b1[i := (b1 ! i)\<lparr>pend_meta := m\<rparr>]
               in (True, c\<lparr>batch := b2, ctx_tail := t + 1\<rparr>)))"

definition context_enqueue_resp :: "'r \<Rightarrow> ('op, 'r, 'm) op_context \<Rightarrow> ('op, 'r, 'm) op_context" where
  "context_enqueue_resp response c =
     (let h = ctx_comb c; i = context_index h
      in c\<lparr>batch := (batch c)[i := (batch c ! i)\<lparr>pend_resp := Some response\<rparr>], ctx_comb := h + 1\<rparr>)"

definition context_enqueue_resps :: "'r list \<Rightarrow> ('op, 'r, 'm) op_context \<Rightarrow> ('op, 'r, 'm) op_context" where
  "context_enqueue_resps responses c =
     (let n = length responses
      in if n = 0 then c else fold context_enqueue_resp (take n responses) c)"

definition context_res :: "('op, 'r, 'm) op_context \<Rightarrow> ('r option \<times> ('op, 'r, 'm) op_context) run" where
  "context_res c =
     (let s = ctx_head c; f = ctx_comb c
      in if s = f then Inr (None, c)
         else if s > f
         then Inl (Panic ''Head of thread-local batch has advanced beyond combiner of.store!'')
         else (let i = context_index s; e = batch c ! i
               in Inr (pend_resp e,
                       c\<lparr>ctx_head := s + 1, batch := (batch c)[i := e\<lparr>pend_resp := None\<rparr>]\<rparr>)))"

record ('op, 'r, 'm) context_iterator =
  it_ctxt :: "('op, 'r, 'm) op_context"
  it_cur :: usize
  it_h :: usize
  it_t :: usize

definition context_iter :: "('op, 'r, 'm) op_context \<Rightarrow> ('op, 'r, 'm) context_iterator run" where
  "context_iter c =
     (let h = ctx_comb c; t = ctx_tail c
      in if h > t
         then Inl (Panic ''Combiner Head of thread-local batch has advanced beyond tail!'')
         else Inr \<lparr>it_ctxt = c, it_cur = h, it_h = h, it_t = t\<rparr>)"

definition iterator_len :: "('op, 'r, 'm) context_iterator \<Rightarrow> nat" where
  "iterator_len it = usize_sub (it_t it) (it_h it)"

definition iterator_next :: "('op, 'r, 'm) context_iterator
    \<Rightarrow> (('op \<times> 'm) option \<times> ('op, 'r, 'm) context_iterator) run" where
  "iterator_next it =
     (if iterator_len it = 0 then Inr (None, it)
      else if it_cur it = it_t it then Inr (None, it)
      else (let e = batch (it_ctxt it) ! context_index (it_cur it)
            in (case pend_op e of
                  None \<Rightarrow> Inl unwrap_panic
                | Some oper \<Rightarrow> Inr (Some (oper, pend_meta e), it\<lparr>it_cur := it_cur it + 1\<rparr>))))"

text \<open>
  Draining the iterator, as the \<open>for\<close> loops of the replicas do, with a bound on the number of
  turns; \<open>iter_collect_items\<close> below shows that the length of the window is enough.
\<close>

fun iter_collect :: "nat \<Rightarrow> ('op, 'r, 'm) context_iterator \<Rightarrow> ('op \<times> 'm) list run" where
  "iter_collect fuel it =
     (case iterator_next it of
        Inl f \<Rightarrow> Inl f
      | Inr (None, _) \<Rightarrow> Inr []
      | Inr (Some x, it') \<Rightarrow>
          (case fuel of
             0 \<Rightarrow> Inl Hang
           | Suc n \<Rightarrow> (case iter_collect n it' of Inl f \<Rightarrow> Inl f | Inr xs \<Rightarrow> Inr (x # xs))))"

declare iter_collect.simps [simp del]

definition context_items :: "('op, 'r, 'm) op_context \<Rightarrow> ('op \<times> 'm) list run" where
  "context_items c = (case context_iter c of Inl f \<Rightarrow> Inl f | Inr it \<Rightarrow> iter_collect (iterator_len it) it)"

text \<open>\<open>n\<close> calls of \<open>res\<close> in a row, collecting what they return.\<close>

fun context_drain :: "nat \<Rightarrow> ('op, 'r, 'm) op_context \<Rightarrow> ('r list \<times> ('op, 'r, 'm) op_context) run" where
  "context_drain 0 c = Inr ([], c)"
| "context_drain (Suc n) c =
     (case context_res c of
        Inl f \<Rightarrow> Inl f
      | Inr (None, c') \<Rightarrow> Inr ([], c')
      | Inr (Some r, c') \<Rightarrow> (case context_drain n c' of Inl f \<Rightarrow> Inl f | Inr (rs, c'') \<Rightarrow> Inr (r # rs, c'')))"

lemmas context_defs = context_enqueue_def context_enqueue_resp_def context_res_def Let_def

section \<open>Invariant and abstraction\<close>

definition ctx_inv :: "('op, 'r, 'm) op_context \<Rightarrow> bool" where
  "ctx_inv c \<longleftrightarrow>
     length (batch c) = MAX_PENDING_OPS \<and> ctx_head c \<le> ctx_comb c \<and> ctx_comb c \<le> ctx_tail c
     \<and> ctx_tail c \<le> ctx_head c + MAX_PENDING_OPS
     \<and> (\<forall>i\<in>{ctx_comb c..<ctx_tail c}. pend_op (batch c ! context_index i) \<noteq> None)
     \<and> (\<forall>i\<in>{ctx_head c..<ctx_comb c}. pend_resp (batch c ! context_index i) \<noteq> None)"

definition pending_ops :: "('op, 'r, 'm) op_context \<Rightarrow> ('op \<times> 'm) list" where
  "pending_ops c =
     map (\<lambda>i. let e = batch c ! context_index i in (the (pend_op e), pend_meta e)) [ctx_comb c..<ctx_tail c]"

definition answers :: "('op, 'r, 'm) op_context \<Rightarrow> 'r list" where
  "answers c = map (\<lambda>i. the (pend_resp (batch c ! context_index i))) [ctx_head c..<ctx_comb c]"

lemma context_index_mod: "context_index i = i mod MAX_PENDING_OPS"
  using and_exp_minus_1_nat [of i 5] by (simp add: context_index_def MAX_PENDING_OPS_def)

lemma context_index_less [simp]: "context_index i < MAX_PENDING_OPS"
  by (simp add: context_index_mod MAX_PENDING_OPS_def)

lemma context_index_apart: "i < j \<Longrightarrow> j < i + MAX_PENDING_OPS \<Longrightarrow> context_index i \<noteq> context_index j"
  using mod_eq_close [of i MAX_PENDING_OPS j] by (auto simp: context_index_mod)

lemma context_new_inv:
  "ctx_inv (context_new m i)" "pending_ops (context_new m i) = []" "answers (context_new m i) = []"
  by (simp_all add: ctx_inv_def pending_ops_def answers_def context_new_def context_default_def)


lemma ctx_invD:
  assumes "ctx_inv c"
  shows "length (batch c) = MAX_PENDING_OPS" "ctx_head c \<le> ctx_comb c" "ctx_comb c \<le> ctx_tail c"
    "ctx_tail c \<le> ctx_head c + MAX_PENDING_OPS"
    "\<And>i. ctx_comb c \<le> i \<Longrightarrow> i < ctx_tail c \<Longrightarrow> \<exists>x. pend_op (batch c ! context_index i) = Some x"
    "\<And>i. ctx_head c \<le> i \<Longrightarrow> i < ctx_comb c \<Longrightarrow> \<exists>x. pend_resp (batch c ! context_index i) = Some x"
  using assms by (fastforce simp: ctx_inv_def)+

lemma context_enqueue_spec:
  assumes "ctx_inv c"
  shows "case context_enqueue oper m c of
      (False, c') \<Rightarrow> c' = c \<and> length (answers c) + length (pending_ops c) = MAX_PENDING_OPS
    | (True, c') \<Rightarrow> ctx_inv c' \<and> pending_ops c' = pending_ops c @ [(oper, m)] \<and> answers c' = answers c"
proof (cases "ctx_tail c = ctx_head c + MAX_PENDING_OPS")
  case True
  with assms show ?thesis
    by (simp add: context_enqueue_def answers_def pending_ops_def ctx_inv_def)
next
  case False
  let ?i = "context_index (ctx_tail c)"
  define c' where "c' = c\<lparr>batch := (batch c)[?i := (batch c ! ?i)\<lparr>pend_op := Some oper, pend_meta := m\<rparr>],
    ctx_tail := ctx_tail c + 1\<rparr>"
  have len: "length (batch c) = MAX_PENDING_OPS" using assms by (simp add: ctx_inv_def)
  have out: "context_enqueue oper m c = (True, c')"
    using ctx_invD(2-4) [OF assms] False by (auto simp: context_enqueue_def c'_def Let_def len)
  have keep: "batch c' ! context_index i = batch c ! context_index i" if "i \<in> {ctx_head c..<ctx_tail c}" for i
    using that False assms context_index_apart [of i "ctx_tail c"]
    by (simp add: c'_def ctx_inv_def)
  have here: "batch c' ! ?i = (batch c ! ?i)\<lparr>pend_op := Some oper, pend_meta := m\<rparr>"
    by (simp add: c'_def len)
  have ptr: "ctx_tail c' = ctx_tail c + 1" "ctx_head c' = ctx_head c" "ctx_comb c' = ctx_comb c"
    "length (batch c') = MAX_PENDING_OPS" by (simp_all add: c'_def len)
  have "ctx_inv c'"
    using assms False keep here by (auto simp: ctx_inv_def ptr less_Suc_eq simp flip: Suc_eq_plus1)
  moreover have "pending_ops c' = pending_ops c @ [(oper, m)]"
    using assms keep here by (simp add: pending_ops_def ptr ctx_inv_def Let_def flip: Suc_eq_plus1)
  moreover have "answers c' = answers c"
    using assms keep by (simp add: answers_def ptr ctx_inv_def)
  ultimately show ?thesis by (simp add: out)
qed

lemma context_enqueue_resp_spec:
  assumes "ctx_inv c" "pending_ops c = p # ps"
  shows "ctx_inv (context_enqueue_resp r c)" "pending_ops (context_enqueue_resp r c) = ps"
    "answers (context_enqueue_resp r c) = answers c @ [r]"
proof -
  let ?i = "context_index (ctx_comb c)" and ?c = "context_enqueue_resp r c"
  have lt: "ctx_comb c < ctx_tail c"
    using assms(2) by (cases "ctx_comb c < ctx_tail c") (simp_all add: pending_ops_def)
  have len: "length (batch c) = MAX_PENDING_OPS" using assms(1) by (simp add: ctx_inv_def)
  have keep: "batch ?c ! context_index i = batch c ! context_index i"
    if "i \<in> {ctx_head c..<ctx_tail c}" "i \<noteq> ctx_comb c" for i
  proof -
    have "context_index i \<noteq> context_index (ctx_comb c)"
      using that ctx_invD(2-4) [OF assms(1)] lt context_index_apart [of i "ctx_comb c"]
        context_index_apart [of "ctx_comb c" i] by (cases "i < ctx_comb c") auto
    then show ?thesis by (simp add: context_enqueue_resp_def Let_def)
  qed
  have here: "batch ?c ! ?i = (batch c ! ?i)\<lparr>pend_resp := Some r\<rparr>"
    by (simp add: context_enqueue_resp_def Let_def len)
  have ptr: "ctx_tail ?c = ctx_tail c" "ctx_head ?c = ctx_head c" "ctx_comb ?c = ctx_comb c + 1"
    "length (batch ?c) = MAX_PENDING_OPS" by (simp_all add: context_enqueue_resp_def Let_def len)
  show "ctx_inv ?c"
    using assms(1) lt keep here
    by (auto simp: ctx_inv_def ptr less_Suc_eq simp flip: Suc_eq_plus1)
  have "pending_ops c = map (\<lambda>i. let e = batch c ! context_index i in (the (pend_op e), pend_meta e))
      (ctx_comb c # [ctx_comb c + 1..<ctx_tail c])"
    unfolding pending_ops_def using lt by (simp add: upt_conv_Cons flip: Suc_eq_plus1)
  with assms(2) have "ps = map (\<lambda>i. let e = batch c ! context_index i in (the (pend_op e), pend_meta e))
      [ctx_comb c + 1..<ctx_tail c]" by simp
  then show "pending_ops ?c = ps"
    using assms(1) keep by (simp add: pending_ops_def ptr ctx_inv_def)
  show "answers ?c = answers c @ [r]"
    using assms(1) lt keep here by (simp add: answers_def ptr ctx_inv_def flip: Suc_eq_plus1)
qed

lemma context_res_spec:
  assumes "ctx_inv c"
  shows "case answers c of
      [] \<Rightarrow> context_res c = Inr (None, c)
    | a # as \<Rightarrow> \<exists>c'. context_res c = Inr (Some a, c') \<and> ctx_inv c' \<and> answers c' = as
        \<and> pending_ops c' = pending_ops c"
proof (cases "ctx_head c = ctx_comb c")
  case True
  then show ?thesis by (simp add: answers_def context_res_def)
next
  case False
  let ?i = "context_index (ctx_head c)"
  define c' where "c' = c\<lparr>ctx_head := ctx_head c + 1,
    batch := (batch c)[?i := (batch c ! ?i)\<lparr>pend_resp := None\<rparr>]\<rparr>"
  have lt: "ctx_head c < ctx_comb c" using False assms by (simp add: ctx_inv_def)
  have len: "length (batch c) = MAX_PENDING_OPS" using assms by (simp add: ctx_inv_def)
  have keep: "batch c' ! context_index i = batch c ! context_index i"
    if "i \<in> {ctx_head c<..<ctx_tail c}" for i
    using that assms context_index_apart [of "ctx_head c" i] by (simp add: c'_def ctx_inv_def)
  have ptr: "ctx_tail c' = ctx_tail c" "ctx_head c' = ctx_head c + 1" "ctx_comb c' = ctx_comb c"
    "length (batch c') = MAX_PENDING_OPS" by (simp_all add: c'_def len)
  obtain a where a: "pend_resp (batch c ! ?i) = Some a" using ctx_invD(6) [OF assms _ lt] by auto
  have "context_res c = Inr (Some a, c')"
    using lt a by (simp add: context_res_def c'_def Let_def)
  moreover have "ctx_inv c'" using assms lt keep by (auto simp: ctx_inv_def ptr)
  moreover have "answers c = a # answers c'"
    using assms lt keep a by (simp add: answers_def ptr ctx_inv_def upt_conv_Cons flip: Suc_eq_plus1)
  moreover have "pending_ops c' = pending_ops c"
    using assms lt keep by (simp add: pending_ops_def ptr ctx_inv_def)
  ultimately show ?thesis by simp
qed

lemma iter_collect_items:
  assumes "ctx_inv c" "ctx_comb c \<le> i" "i \<le> ctx_tail c" "ctx_tail c - i \<le> n"
  shows "iter_collect n \<lparr>it_ctxt = c, it_cur = i, it_h = ctx_comb c, it_t = ctx_tail c\<rparr>
    = Inr (map (\<lambda>i. let e = batch c ! context_index i in (the (pend_op e), pend_meta e)) [i..<ctx_tail c])"
  using assms
proof (induction n arbitrary: i)
  case 0
  then show ?case by (simp add: iter_collect.simps iterator_next_def iterator_len_def)
next
  case (Suc n)
  show ?case
  proof (cases "i = ctx_tail c")
    case True
    then show ?thesis by (simp add: iter_collect.simps iterator_next_def iterator_len_def)
  next
    case False
    then obtain oper where "pend_op (batch c ! context_index i) = Some oper"
      using ctx_invD(5) [OF Suc.prems(1,2)] Suc.prems(3) by fastforce
    then show ?thesis using Suc.IH [of "i + 1"] Suc.prems False
      by (subst iter_collect.simps)
        (simp add: iterator_next_def iterator_len_def Let_def upt_conv_Cons flip: Suc_eq_plus1)
  qed
qed

lemma context_items_spec: "ctx_inv c \<Longrightarrow> context_items c = Inr (pending_ops c)"
  using iter_collect_items [of c "ctx_comb c" "ctx_tail c - ctx_comb c"]
  by (simp add: context_items_def context_iter_def iterator_len_def pending_ops_def ctx_invD(3) Let_def not_less)

section \<open>The buffer as an interface\<close>

text \<open>
  What the replicas rely on: a bounded pair of queues. \<open>enq\<close> adds an operation, \<open>put\<close> answers the
  oldest unanswered one, \<open>get\<close> hands out the oldest answer, \<open>items\<close> lists the unanswered ones.
\<close>

locale op_buffer =
  fixes inv :: "'c \<Rightarrow> bool" and ans :: "'c \<Rightarrow> 'r list" and pend :: "'c \<Rightarrow> 'p list"
    and enq :: "'p \<Rightarrow> 'c \<Rightarrow> bool \<times> 'c" and put :: "'r \<Rightarrow> 'c \<Rightarrow> 'c"
    and get :: "'c \<Rightarrow> ('r option \<times> 'c) run" and items :: "'c \<Rightarrow> 'p list run" and cap :: nat
  assumes enq_ok: "inv c \<Longrightarrow> enq p c = (True, c') \<Longrightarrow> inv c' \<and> pend c' = pend c @ [p] \<and> ans c' = ans c"
    and enq_full: "inv c \<Longrightarrow> fst (enq p c) \<longleftrightarrow> length (ans c) + length (pend c) \<noteq> cap"
    and put_ok: "inv c \<Longrightarrow> pend c \<noteq> [] \<Longrightarrow>
          inv (put r c) \<and> pend (put r c) = tl (pend c) \<and> ans (put r c) = ans c @ [r]"
    and get_none: "inv c \<Longrightarrow> ans c = [] \<Longrightarrow> get c = Inr (None, c)"
    and get_some: "inv c \<Longrightarrow> ans c = a # as \<Longrightarrow>
          \<exists>c'. get c = Inr (Some a, c') \<and> inv c' \<and> ans c' = as \<and> pend c' = pend c"
    and items_ok: "inv c \<Longrightarrow> items c = Inr (pend c)"
    and bounded: "inv c \<Longrightarrow> length (ans c) + length (pend c) \<le> cap"
begin

lemma put_all:
  assumes "inv c" "length rs \<le> length (pend c)"
  shows "inv (fold put rs c)" "pend (fold put rs c) = drop (length rs) (pend c)"
    "ans (fold put rs c) = ans c @ rs"
proof -
  have "inv (fold put rs c) \<and> pend (fold put rs c) = drop (length rs) (pend c) \<and> ans (fold put rs c) = ans c @ rs"
    using assms
  proof (induction rs arbitrary: c)
    case (Cons r rs)
    then have "pend c \<noteq> []" by auto
    from put_ok [OF Cons.prems(1) this, of r] Cons.IH [of "put r c"] Cons.prems(2)
    show ?case by (simp add: drop_Suc)
  qed simp
  then show "inv (fold put rs c)" "pend (fold put rs c) = drop (length rs) (pend c)"
    "ans (fold put rs c) = ans c @ rs" by blast+
qed

text \<open>An idle buffer is a call slot: the one operation put in comes back with its own answer.\<close>

lemma call_slot:
  assumes "inv c" "ans c = []" "pend c = []" "0 < cap"
  shows "\<exists>c1 c2. enq p c = (True, c1) \<and> items c1 = Inr [p] \<and> get c1 = Inr (None, c1)
    \<and> get (put r c1) = Inr (Some r, c2) \<and> inv c2 \<and> ans c2 = [] \<and> pend c2 = []"
proof -
  obtain c1 where c1: "enq p c = (True, c1)" using enq_full [OF assms(1), of p] assms by (cases "enq p c") auto
  note e = enq_ok [OF assms(1) c1]
  then have "pend c1 = [p]" "ans c1 = []" "inv c1" using assms by simp_all
  moreover from this put_ok [of c1 r] have "inv (put r c1)" "ans (put r c1) = [r]" "pend (put r c1) = []"
    by simp_all
  ultimately show ?thesis using c1 get_some [of "put r c1" r "[]"] get_none [of c1] items_ok [of c1] by auto
qed

end

interpretation cb: op_buffer ctx_inv answers pending_ops "\<lambda>(oper, m). context_enqueue oper m"
  context_enqueue_resp context_res context_items MAX_PENDING_OPS
proof (unfold_locales, goal_cases)
  case (1 c p c')
  then show ?case using context_enqueue_spec [of c "fst p" "snd p"] by (cases p) auto
next
  case (2 c p)
  then show ?case
    using context_enqueue_spec [of c "fst p" "snd p"] ctx_invD(2-4) [of c]
    by (cases p) (auto simp: answers_def pending_ops_def context_enqueue_def Let_def)
next
  case (3 c r)
  then show ?case using context_enqueue_resp_spec [of c "hd (pending_ops c)" "tl (pending_ops c)" r] by simp
next
  case (4 c)
  then show ?case using context_res_spec [of c] by simp
next
  case (5 c a as)
  then show ?case using context_res_spec [of c] by simp
next
  case (6 c)
  then show ?case by (rule context_items_spec)
next
  case (7 c)
  then show ?case using ctx_invD(2-4) [of c] by (simp add: answers_def pending_ops_def)
qed

lemma context_enqueue_resps_fold [simp]: "context_enqueue_resps rs c = fold context_enqueue_resp rs c"
  by (simp add: context_enqueue_resps_def)

lemma context_drain_all:
  "ctx_inv c \<Longrightarrow> \<exists>c'. context_drain (length (answers c)) c = Inr (answers c, c') \<and> ctx_inv c' \<and> answers c' = []
    \<and> pending_ops c' = pending_ops c"
proof (induction "answers c" arbitrary: c)
  case Nil
  then show ?case by (simp flip: Nil.hyps)
next
  case (Cons a as)
  from cb.get_some [OF Cons.prems Cons.hyps(2) [symmetric]] obtain c1 where
    c1: "context_res c = Inr (Some a, c1)" "ctx_inv c1" "as = answers c1" "pending_ops c1 = pending_ops c" by auto
  from Cons.hyps(1) [OF c1(3,2)] obtain c' where "context_drain (length as) c1 = Inr (as, c')"
    "ctx_inv c'" "answers c' = []" "pending_ops c' = pending_ops c" using c1(3,4) by auto
  then show ?case using c1(1) by (simp flip: Cons.hyps(2))
qed

section \<open>Properties\<close>

text \<open>
  C26. The batch of a thread is bounded and loses nothing: \<open>enqueue\<close> is refused exactly when
  \<open>MAX_PENDING_OPS\<close> operations are unanswered or unread, and then changes nothing; otherwise the
  operation joins the unanswered ones at the end and no answer is touched.
\<close>

theorem context_enqueue_bounded:
  assumes "ctx_inv c"
  shows "case context_enqueue oper m c of
      (False, c') \<Rightarrow> length (answers c) + length (pending_ops c) = MAX_PENDING_OPS \<and> c' = c
    | (True, c') \<Rightarrow> length (answers c) + length (pending_ops c) < MAX_PENDING_OPS
        \<and> ctx_inv c' \<and> pending_ops c' = pending_ops c @ [(oper, m)] \<and> answers c' = answers c"
  using context_enqueue_spec [OF assms, of oper m] cb.enq_full [OF assms, of "(oper, m)"] cb.bounded [OF assms]
  by (auto split: prod.splits bool.splits)

theorem context_enqueue_bounded_witness:
  "\<exists>c c' :: (string, nat, unit) op_context. ctx_inv c \<and> context_enqueue ''put'' () c = (True, c')
    \<and> pending_ops c' = [(''put'', ())] \<and> answers c' = []"
proof -
  let ?e = "context_new () 0 :: (string, nat, unit) op_context"
  have new: "ctx_inv ?e" "pending_ops ?e = []" "answers ?e = []" by (rule context_new_inv)+
  show ?thesis
    using new context_enqueue_bounded [OF new(1), of "''put''" "()"]
    by (cases "context_enqueue ''put'' () ?e"; cases "fst (context_enqueue ''put'' () ?e)")
      (auto simp: MAX_PENDING_OPS_def)
qed

text \<open>
  C25. Responses come back in the order of the operations: after the combiner listed the unanswered
  operations and stored one response for each of them, successive calls of \<open>res\<close> return the older
  answers first and then exactly these responses, and afterwards \<open>None\<close>.
\<close>

theorem context_fifo:
  assumes "ctx_inv c" "context_items c = Inr ps" "length rs = length ps"
  shows "\<exists>c'. context_drain (length (answers c @ rs)) (context_enqueue_resps rs c) = Inr (answers c @ rs, c')
    \<and> ctx_inv c' \<and> pending_ops c' = [] \<and> context_res c' = Inr (None, c')"
proof -
  have "length rs \<le> length (pending_ops c)" using assms by (simp add: context_items_spec)
  note put = cb.put_all [OF assms(1) this]
  from context_drain_all [OF put(1)] obtain c' where
    c': "context_drain (length (answers c @ rs)) (fold context_enqueue_resp rs c) = Inr (answers c @ rs, c')"
    "ctx_inv c'" "answers c' = []" "pending_ops c' = pending_ops (fold context_enqueue_resp rs c)"
    by (auto simp: put(3))
  moreover have "context_res c' = Inr (None, c')" using c'(2,3) by (rule cb.get_none)
  ultimately show ?thesis using put(2) assms by (simp add: context_items_spec)
qed

theorem context_fifo_witness:
  "\<exists>c c' :: (string, nat, unit) op_context. context_items c = Inr [(''put'', ())]
    \<and> context_drain 1 (context_enqueue_resps [7] c) = Inr ([7], c')"
proof -
  let ?e = "context_new () 0 :: (string, nat, unit) op_context"
  obtain c1 where c1: "context_enqueue ''put'' () ?e = (True, c1)" "context_items c1 = Inr [(''put'', ())]"
    "ctx_inv c1" "answers c1 = []"
    using cb.call_slot [OF context_new_inv(1,3,2), of "(''put'', ())" "()" 0 7] cb.enq_ok [OF context_new_inv(1), of "(''put'', ())" "()" 0]
    by (auto simp: MAX_PENDING_OPS_def context_new_inv)
  from context_fifo [OF c1(3,2), of "[7]"] c1(2,4) show ?thesis by (auto simp flip: One_nat_def simp del: context_drain.simps)
qed

end
