(* ===== verification/Transition_System.thy ===== *)
theory Transition_System
  imports Nr_Prelude
begin

text \<open>
  Interleaving semantics: a component whose code runs on several threads is a step relation on
  the shared state and the program counters. An inductive invariant is an instance of the locale
  \<open>inductive_invariant\<close>, which gives it for every reachable state and every run.
\<close>

inductive reachable :: "('s \<Rightarrow> bool) \<Rightarrow> ('s \<Rightarrow> 's \<Rightarrow> bool) \<Rightarrow> 's \<Rightarrow> bool" for init step where
  reach_init: "init s \<Longrightarrow> reachable init step s"
| reach_step: "reachable init step s \<Longrightarrow> step s s' \<Longrightarrow> reachable init step s'"

lemma reachable_steps: "step\<^sup>*\<^sup>* s s' \<Longrightarrow> reachable init step s \<Longrightarrow> reachable init step s'"
  by (induction rule: rtranclp_induct) (auto intro: reach_step)

locale inductive_invariant =
  fixes init :: "'s \<Rightarrow> bool" and step :: "'s \<Rightarrow> 's \<Rightarrow> bool" and inv :: "'s \<Rightarrow> bool"
  assumes init_inv: "init s \<Longrightarrow> inv s"
    and step_inv: "inv s \<Longrightarrow> step s s' \<Longrightarrow> inv s'"
begin

lemma reachable_inv: "reachable init step s \<Longrightarrow> inv s"
  by (induction rule: reachable.induct) (auto intro: init_inv step_inv)

lemma steps_inv: "step\<^sup>*\<^sup>* s s' \<Longrightarrow> inv s \<Longrightarrow> inv s'"
  by (induction rule: rtranclp_induct) (auto intro: step_inv)

end

text \<open>Counting the threads of a list that satisfy a predicate.\<close>

definition count_if :: "('a \<Rightarrow> bool) \<Rightarrow> 'a list \<Rightarrow> nat" where
  "count_if P xs = length (filter P xs)"

lemma count_if_update:
  "i < length xs \<Longrightarrow> count_if P (xs[i := x]) =
     (if P x then count_if P xs + 1 else count_if P xs) - (if P (xs ! i) then 1 else 0)"
proof (induction xs arbitrary: i)
  case (Cons y ys)
  have pos: "0 < count_if P ys" if "P (ys ! j)" "j < length ys" for j
    using that nth_mem [of j ys] by (auto simp: count_if_def filter_empty_conv)
  show ?case
  proof (cases i)
    case 0
    then show ?thesis by (simp add: count_if_def)
  next
    case (Suc j)
    then show ?thesis using Cons.IH [of j] Cons.prems pos [of j] by (auto simp: count_if_def)
  qed
qed simp

lemma count_if_0: "count_if P xs = 0 \<longleftrightarrow> (\<forall>i<length xs. \<not> P (xs ! i))"
  by (auto simp: count_if_def filter_empty_conv all_set_conv_all_nth)

lemma count_if_pos: "i < length xs \<Longrightarrow> P (xs ! i) \<Longrightarrow> 0 < count_if P xs"
  using count_if_0 [of P xs] by auto

lemma count_if_unique:
  assumes "i < length xs" "P (xs ! i)" "count_if P xs = 1" "j < length xs" "P (xs ! j)"
  shows "i = j"
proof (rule ccontr)
  assume "i \<noteq> j"
  then have "{i, j} \<subseteq> {k. k < length xs \<and> P (xs ! k)}" "card {i, j} = 2" using assms by auto
  then have "2 \<le> card {k. k < length xs \<and> P (xs ! k)}" using card_mono [of "{k. k < length xs \<and> P (xs ! k)}" "{i, j}"] by simp
  then show False using assms(3) by (simp add: count_if_def length_filter_conv_card)
qed

end
