(* ===== verification/Rw_Lock.thy ===== *)
theory Rw_Lock
  imports Shared_Log Transition_System
begin

text \<open>
  The locks of node replication: the distributed reader-writer lock and the simple reader-writer
  lock of \<open>nr/rwlock.rs\<close>. Each lock has two models. The run of one thread (\<open>rw_write\<close>, \<open>rw_read\<close>,
  ...) is what the sequential model of the replica calls. The step relation interleaves the
  individual atomic accesses of any number of threads; it shows what the lock excludes.
\<close>

section \<open>The distributed reader-writer lock\<close>

record 'd rwlock =
  wlock :: bool
  rlock :: "nat list"
  rw_data :: 'd

definition MAX_READER_THREADS :: nat where
  "MAX_READER_THREADS = MAX_THREADS_PER_REPLICA"

definition rwlock_new :: "'d \<Rightarrow> 'd rwlock" where
  "rwlock_new t = \<lparr>wlock = False, rlock = replicate MAX_READER_THREADS 0, rw_data = t\<rparr>"

subsection \<open>The run of one thread\<close>

text \<open>
  A spurious failure of the weak compare-and-exchange in \<open>write\<close> only repeats the loop. The one in
  \<open>write_unlock\<close> is the argument \<open>spurious\<close>: the code panics on it.
\<close>

definition rw_write :: "nat \<Rightarrow> 'd rwlock \<Rightarrow> 'd rwlock run" where
  "rw_write n lk =
     (if wlock lk then Inl Hang
      else let lk' = lk\<lparr>wlock := True\<rparr>
           in if list_all (\<lambda>item. item = 0) (take n (rlock lk')) then Inr lk' else Inl Hang)"

definition rw_read :: "nat \<Rightarrow> 'd rwlock \<Rightarrow> 'd rwlock run" where
  "rw_read tid lk =
     (if wlock lk then Inl Hang
      else if tid < length (rlock lk) then Inr (lk\<lparr>rlock := (rlock lk)[tid := rlock lk ! tid + 1]\<rparr>)
      else Inl index_panic)"

definition rw_write_unlock :: "bool \<Rightarrow> 'd rwlock \<Rightarrow> 'd rwlock run" where
  "rw_write_unlock spurious lk =
     (if wlock lk \<and> \<not> spurious then Inr (lk\<lparr>wlock := False\<rparr>)
      else Inl (Panic ''write_unlock() called without acquiring the write lock''))"

definition rw_read_unlock :: "nat \<Rightarrow> 'd rwlock \<Rightarrow> 'd rwlock run" where
  "rw_read_unlock tid lk =
     (if tid < length (rlock lk)
      then (if rlock lk ! tid = 0
            then Inl (Panic ''read_unlock() called without acquiring the read lock'')
            else Inr (lk\<lparr>rlock := (rlock lk)[tid := rlock lk ! tid - 1]\<rparr>))
      else Inl index_panic)"

text \<open>No guard is alive: the state between two calls of a thread.\<close>

definition rw_free :: "'d rwlock \<Rightarrow> bool" where
  "rw_free lk \<longleftrightarrow> \<not> wlock lk \<and> rlock lk = replicate MAX_READER_THREADS 0"

lemma rw_free_new [simp]: "rw_free (rwlock_new t)"
  by (simp add: rw_free_def rwlock_new_def)

lemma rw_write_free [simp]: "rw_free lk \<Longrightarrow> rw_write n lk = Inr (lk\<lparr>wlock := True\<rparr>)"
  by (auto simp: rw_free_def rw_write_def list_all_iff dest!: in_set_takeD)

lemma rw_write_unlock_free [simp]:
  "rw_free lk \<Longrightarrow> rw_write_unlock False (lk\<lparr>wlock := True, rw_data := d\<rparr>) = Inr (lk\<lparr>rw_data := d\<rparr>)"
  by (cases lk) (simp add: rw_free_def rw_write_unlock_def)

lemma rw_free_data [simp]: "rw_free (lk\<lparr>rw_data := d\<rparr>) = rw_free lk"
  by (simp add: rw_free_def)

lemma rw_read_unlock_read:
  "rw_read tid lk = Inr lk' \<Longrightarrow> rw_read_unlock tid lk' = Inr lk"
  by (cases lk) (auto simp: rw_read_def rw_read_unlock_def split: if_splits)

lemma rw_read_free:
  "rw_free lk \<Longrightarrow> tid < MAX_READER_THREADS \<Longrightarrow> \<exists>lk'. rw_read tid lk = Inr lk' \<and> rw_data lk' = rw_data lk"
  by (simp add: rw_free_def rw_read_def)

subsection \<open>Interleaving\<close>

text \<open>
  The program counter of a thread: \<open>Scan n k\<close> is the loop over the reader slots after the first \<open>k\<close>
  of the first \<open>n\<close> were seen free in this pass; \<open>Check\<close> is the read of the writer lock after the
  increment, \<open>Undo\<close> the decrement that follows when the writer lock was taken.
\<close>

datatype rw_pc =
    Idle | Claim nat | Scan nat nat | Writing nat
  | Spin nat | Incr nat | Check nat | Undo nat | Reading nat | Panicked failure

type_synonym 'd rw_state = "'d rwlock \<times> rw_pc list"

inductive rw_step :: "'d rw_state \<Rightarrow> 'd rw_state \<Rightarrow> bool" where
  start_write: "t < length pcs \<Longrightarrow> pcs ! t = Idle \<Longrightarrow> rw_step (lk, pcs) (lk, pcs[t := Claim n])"
| claim: "t < length pcs \<Longrightarrow> pcs ! t = Claim n \<Longrightarrow> \<not> wlock lk
    \<Longrightarrow> rw_step (lk, pcs) (lk\<lparr>wlock := True\<rparr>, pcs[t := Scan n 0])"
| scan_free: "t < length pcs \<Longrightarrow> pcs ! t = Scan n k \<Longrightarrow> k < min n (length (rlock lk)) \<Longrightarrow> rlock lk ! k = 0
    \<Longrightarrow> rw_step (lk, pcs) (lk, pcs[t := Scan n (k + 1)])"
| scan_again: "t < length pcs \<Longrightarrow> pcs ! t = Scan n k \<Longrightarrow> k < min n (length (rlock lk)) \<Longrightarrow> rlock lk ! k \<noteq> 0
    \<Longrightarrow> rw_step (lk, pcs) (lk, pcs[t := Scan n 0])"
| scan_done: "t < length pcs \<Longrightarrow> pcs ! t = Scan n k \<Longrightarrow> min n (length (rlock lk)) \<le> k
    \<Longrightarrow> rw_step (lk, pcs) (lk, pcs[t := Writing n])"
| update: "t < length pcs \<Longrightarrow> pcs ! t = Writing n \<Longrightarrow> rw_step (lk, pcs) (lk\<lparr>rw_data := d\<rparr>, pcs)"
| write_unlock: "t < length pcs \<Longrightarrow> pcs ! t = Writing n \<Longrightarrow> rw_write_unlock False lk = Inr lk'
    \<Longrightarrow> rw_step (lk, pcs) (lk', pcs[t := Idle])"
| write_unlock_panic: "t < length pcs \<Longrightarrow> pcs ! t = Writing n \<Longrightarrow> rw_write_unlock False lk = Inl f
    \<Longrightarrow> rw_step (lk, pcs) (lk, pcs[t := Panicked f])"
| start_read: "t < length pcs \<Longrightarrow> pcs ! t = Idle
    \<Longrightarrow> rw_step (lk, pcs) (lk, pcs[t := Spin tid])"
| spin: "t < length pcs \<Longrightarrow> pcs ! t = Spin tid \<Longrightarrow> \<not> wlock lk \<Longrightarrow> rw_step (lk, pcs) (lk, pcs[t := Incr tid])"
| incr_panic: "t < length pcs \<Longrightarrow> pcs ! t = Incr tid \<Longrightarrow> length (rlock lk) \<le> tid
    \<Longrightarrow> rw_step (lk, pcs) (lk, pcs[t := Panicked index_panic])"
| incr: "t < length pcs \<Longrightarrow> pcs ! t = Incr tid \<Longrightarrow> tid < length (rlock lk)
    \<Longrightarrow> rw_step (lk, pcs) (lk\<lparr>rlock := (rlock lk)[tid := rlock lk ! tid + 1]\<rparr>, pcs[t := Check tid])"
| check: "t < length pcs \<Longrightarrow> pcs ! t = Check tid
    \<Longrightarrow> rw_step (lk, pcs) (lk, pcs[t := if wlock lk then Undo tid else Reading tid])"
| undo: "t < length pcs \<Longrightarrow> pcs ! t = Undo tid
    \<Longrightarrow> rw_step (lk, pcs) (lk\<lparr>rlock := (rlock lk)[tid := rlock lk ! tid - 1]\<rparr>, pcs[t := Spin tid])"
| read_unlock: "t < length pcs \<Longrightarrow> pcs ! t = Reading tid \<Longrightarrow> rw_read_unlock tid lk = Inr lk'
    \<Longrightarrow> rw_step (lk, pcs) (lk', pcs[t := Idle])"
| read_unlock_panic: "t < length pcs \<Longrightarrow> pcs ! t = Reading tid \<Longrightarrow> rw_read_unlock tid lk = Inl f
    \<Longrightarrow> rw_step (lk, pcs) (lk, pcs[t := Panicked f])"

definition rw_init :: "'d rw_state \<Rightarrow> bool" where
  "rw_init s \<longleftrightarrow> (\<exists>d. fst s = rwlock_new d) \<and> (\<forall>t<length (snd s). snd s ! t = Idle)"

fun holds_slot :: "nat \<Rightarrow> rw_pc \<Rightarrow> bool" where
  "holds_slot s (Check tid) = (s = tid)"
| "holds_slot s (Undo tid) = (s = tid)"
| "holds_slot s (Reading tid) = (s = tid)"
| "holds_slot s _ = False"

fun has_writer_lock :: "rw_pc \<Rightarrow> bool" where
  "has_writer_lock (Scan _ _) = True"
| "has_writer_lock (Writing _) = True"
| "has_writer_lock _ = False"

text \<open>The slots a writer knows to be free of readers.\<close>

fun cleared :: "rw_pc \<Rightarrow> nat set" where
  "cleared (Scan n k) = {..<k}"
| "cleared (Writing n) = {..<min n MAX_READER_THREADS}"
| "cleared _ = {}"

definition rw_inv :: "'d rw_state \<Rightarrow> bool" where
  "rw_inv s \<longleftrightarrow> (case s of (lk, pcs) \<Rightarrow>
     length (rlock lk) = MAX_READER_THREADS
     \<and> count_if has_writer_lock pcs = (if wlock lk then 1 else 0)
     \<and> (\<forall>i<MAX_READER_THREADS. rlock lk ! i = count_if (holds_slot i) pcs)
     \<and> (\<forall>t<length pcs. \<forall>tid. holds_slot tid (pcs ! t) \<longrightarrow> tid < MAX_READER_THREADS)
     \<and> (\<forall>t<length pcs. \<forall>u<length pcs. \<forall>tid\<in>cleared (pcs ! t). pcs ! u \<noteq> Reading tid)
     \<and> (\<forall>t<length pcs. \<forall>f. pcs ! t = Panicked f \<longrightarrow> f = index_panic))"

lemma cleared_writer: "tid \<in> cleared pc \<Longrightarrow> has_writer_lock pc"
  by (cases pc) auto

lemma rw_invD:
  assumes "rw_inv (lk, pcs)"
  shows "length (rlock lk) = MAX_READER_THREADS"
    "count_if has_writer_lock pcs = (if wlock lk then 1 else 0)"
    "\<And>i. i < MAX_READER_THREADS \<Longrightarrow> rlock lk ! i = count_if (holds_slot i) pcs"
    "\<And>t tid. t < length pcs \<Longrightarrow> holds_slot tid (pcs ! t) \<Longrightarrow> tid < MAX_READER_THREADS"
    "\<And>t u tid. t < length pcs \<Longrightarrow> u < length pcs \<Longrightarrow> tid \<in> cleared (pcs ! t) \<Longrightarrow> pcs ! u \<noteq> Reading tid"
    "\<And>t f. t < length pcs \<Longrightarrow> pcs ! t = Panicked f \<Longrightarrow> f = index_panic"
  using assms by (auto simp: rw_inv_def)

lemma writer_locked: "rw_inv (lk, pcs) \<Longrightarrow> t < length pcs \<Longrightarrow> has_writer_lock (pcs ! t) \<Longrightarrow> wlock lk"
  using count_if_pos [of t pcs has_writer_lock] rw_invD(2) [of lk pcs] by (auto split: if_splits)

lemma slot_held:
  "rw_inv (lk, pcs) \<Longrightarrow> t < length pcs \<Longrightarrow> holds_slot tid (pcs ! t) \<Longrightarrow> 0 < rlock lk ! tid"
  using count_if_pos [of t pcs "holds_slot tid"] rw_invD(3,4) [of lk pcs] by auto

text \<open>Moving one thread keeps the invariant under four local conditions.\<close>

lemma rw_inv_move:
  assumes inv: "rw_inv (lk, pcs)" and t: "t < length pcs" and len: "length (rlock lk') = length (rlock lk)"
    and w: "(if wlock lk' then 1 else 0) =
      (if has_writer_lock pc then (if wlock lk then 1 else 0) + 1 else (if wlock lk then 1 else 0))
        - (if has_writer_lock (pcs ! t) then 1 else (0 :: nat))"
    and r: "\<And>i. i < MAX_READER_THREADS \<Longrightarrow> rlock lk' ! i =
      (if holds_slot i pc then rlock lk ! i + 1 else rlock lk ! i) - (if holds_slot i (pcs ! t) then 1 else 0)"
    and slot: "\<And>tid. holds_slot tid pc \<Longrightarrow> tid < MAX_READER_THREADS"
    and clear: "\<And>tid u. tid \<in> cleared pc \<Longrightarrow> u < length pcs \<Longrightarrow> pcs ! u \<noteq> Reading tid"
    and read: "\<And>tid u. pc = Reading tid \<Longrightarrow> u < length pcs \<Longrightarrow> u \<noteq> t \<Longrightarrow> tid \<notin> cleared (pcs ! u)"
    and ok: "\<And>f. pc = Panicked f \<Longrightarrow> f = index_panic"
  shows "rw_inv (lk', pcs[t := pc])"
proof -
  note I = rw_invD [OF inv]
  have "\<forall>ta<length pcs. \<forall>u<length pcs. \<forall>tid\<in>cleared (pcs[t := pc] ! ta). pcs[t := pc] ! u \<noteq> Reading tid"
  proof (intro allI impI ballI)
    fix a u tid
    assume "a < length pcs" "u < length pcs" "tid \<in> cleared (pcs[t := pc] ! a)"
    then show "pcs[t := pc] ! u \<noteq> Reading tid"
      using t I(5) [of a u tid] clear [of tid u] read [of tid a]
      by (cases "a = t"; cases "u = t"; cases pc) auto
  qed
  moreover have "\<forall>u<length pcs. \<forall>tid. holds_slot tid (pcs[t := pc] ! u) \<longrightarrow> tid < MAX_READER_THREADS"
    using I(4) slot t by (auto simp: nth_list_update)
  moreover have "\<forall>u<length pcs. \<forall>f. pcs[t := pc] ! u = Panicked f \<longrightarrow> f = index_panic"
    using I(6) ok t by (auto simp: nth_list_update)
  ultimately show ?thesis
    using I(1-3) t len w r by (simp add: rw_inv_def count_if_update)
qed

lemma rw_inv_init: "rw_init s \<Longrightarrow> rw_inv s"
proof -
  assume "rw_init s"
  then obtain d pcs where s: "s = (rwlock_new d, pcs)" and idle: "\<forall>t<length pcs. pcs ! t = Idle"
    by (cases s) (auto simp: rw_init_def)
  have "count_if P pcs = 0" if "\<not> P Idle" for P using idle that by (simp add: count_if_0)
  then show ?thesis using idle by (simp add: rw_inv_def s rwlock_new_def)
qed

lemma rw_inv_step: "rw_step s s' \<Longrightarrow> rw_inv s \<Longrightarrow> rw_inv s'"
proof (induction rule: rw_step.induct)
  case (claim t pcs n lk)
  then show ?case by (intro rw_inv_move [where lk = lk]) auto
next
  case (scan_free t pcs n k lk)
  have "pcs ! u \<noteq> Reading tid" if "tid \<in> cleared (Scan n (k + 1))" "u < length pcs" for tid u
    using that rw_invD(5) [OF scan_free(5,1), of u tid] slot_held [OF scan_free(5), of u tid] scan_free(2,4)
    by (auto simp: less_Suc_eq simp flip: Suc_eq_plus1)
  then show ?case using scan_free by (intro rw_inv_move [where lk = lk]) auto
next
  case (scan_done t pcs n k lk)
  then show ?case
    using rw_invD(1) [OF scan_done(4)] rw_invD(5) [OF scan_done(4,1)] by (intro rw_inv_move [where lk = lk]) auto
next
  case (update t pcs n lk d)
  then show ?case by (simp add: rw_inv_def)
next
  case (write_unlock t pcs n lk lk')
  then show ?case by (intro rw_inv_move [where lk = lk]) (auto simp: rw_write_unlock_def split: if_splits)
next
  case (write_unlock_panic t pcs n lk f)
  then show ?case using writer_locked [of lk pcs t] by (simp add: rw_write_unlock_def)
next
  case (incr t pcs tid lk)
  then show ?case
    using rw_invD(1) [OF incr(4)] by (intro rw_inv_move [where lk = lk]) (auto simp: nth_list_update)
next
  case (check t pcs tid lk)
  have "tid' \<notin> cleared (pcs ! u)" if "\<not> wlock lk" "u < length pcs" for tid' u
    using writer_locked [OF check(3) that(2)] that(1) cleared_writer by blast
  then show ?case
    using check rw_invD(4) [OF check(3,1)] by (intro rw_inv_move [where lk = lk]) (auto split: if_splits)
next
  case (undo t pcs tid lk)
  then show ?case
    using rw_invD(1) [OF undo(3)] rw_invD(4) [OF undo(3,1)]
    by (intro rw_inv_move [where lk = lk]) (auto simp: nth_list_update)
next
  case (read_unlock t pcs tid lk lk')
  then show ?case
    by (intro rw_inv_move [where lk = lk]) (auto simp: rw_read_unlock_def nth_list_update split: if_splits)
next
  case (read_unlock_panic t pcs tid lk f)
  then show ?case
    using slot_held [of lk pcs t tid] rw_invD(1) [of lk pcs] rw_invD(4) [of lk pcs t tid]
    by (simp add: rw_read_unlock_def)
qed (rule rw_inv_move; auto)+

interpretation rw: inductive_invariant rw_init rw_step rw_inv
  by unfold_locales (auto intro: rw_inv_init rw_inv_step)

subsection \<open>Runs of one thread are interleavings\<close>

lemma rw_scan_steps:
  assumes "t < length pcs" "\<forall>i<m. rlock lk ! i = 0" "k \<le> m" "m = min n (length (rlock lk))"
  shows "rw_step\<^sup>*\<^sup>* (lk, pcs[t := Scan n k]) (lk, pcs[t := Writing n])"
  using assms(3)
proof (induction "m - k" arbitrary: k)
  case 0
  then show ?case
    using scan_done [of t "pcs[t := Scan n k]" n k lk] assms by (simp add: r_into_rtranclp)
next
  case (Suc j)
  then have "k < m" by simp
  then have "rw_step (lk, pcs[t := Scan n k]) (lk, pcs[t := Scan n (k + 1)])"
    using scan_free [of t "pcs[t := Scan n k]" n k lk] assms by simp
  moreover have "rw_step\<^sup>*\<^sup>* (lk, pcs[t := Scan n (k + 1)]) (lk, pcs[t := Writing n])"
    using Suc by simp
  ultimately show ?case by (rule converse_rtranclp_into_rtranclp)
qed

lemma rw_write_steps:
  assumes "t < length pcs" "pcs ! t = Idle" "rw_write n lk = Inr lk'"
  shows "rw_step\<^sup>*\<^sup>* (lk, pcs) (lk', pcs[t := Writing n])"
proof -
  have lk': "\<not> wlock lk" "lk' = lk\<lparr>wlock := True\<rparr>" "list_all (\<lambda>item. item = 0) (take n (rlock lk'))"
    using assms(3) by (auto simp: rw_write_def Let_def split: if_splits)
  then have free: "\<forall>i<min n (length (rlock lk')). rlock lk' ! i = 0" by (auto simp: list_all_length)
  have "rw_step (lk, pcs) (lk, pcs[t := Claim n])" using assms by (intro start_write)
  moreover have "rw_step (lk, pcs[t := Claim n]) (lk', pcs[t := Scan n 0])"
    using claim [of t "pcs[t := Claim n]" n lk] assms lk' by simp
  moreover have "rw_step\<^sup>*\<^sup>* (lk', pcs[t := Scan n 0]) (lk', pcs[t := Writing n])"
    using assms(1) free by (intro rw_scan_steps) auto
  ultimately show ?thesis by (meson converse_rtranclp_into_rtranclp)
qed

lemma rw_read_steps:
  assumes "t < length pcs" "pcs ! t = Idle" "rw_read tid lk = Inr lk'"
  shows "rw_step\<^sup>*\<^sup>* (lk, pcs) (lk', pcs[t := Reading tid])"
proof -
  have lk': "\<not> wlock lk" "tid < length (rlock lk)"
    "lk' = lk\<lparr>rlock := (rlock lk)[tid := rlock lk ! tid + 1]\<rparr>" "\<not> wlock lk'"
    using assms(3) by (auto simp: rw_read_def split: if_splits)
  have "rw_step (lk, pcs) (lk, pcs[t := Spin tid])" using assms by (intro start_read)
  moreover have "rw_step (lk, pcs[t := Spin tid]) (lk, pcs[t := Incr tid])"
    using rw_step.spin [of t "pcs[t := Spin tid]" tid lk] assms lk' by simp
  moreover have "rw_step (lk, pcs[t := Incr tid]) (lk', pcs[t := Check tid])"
    using incr [of t "pcs[t := Incr tid]" tid lk] assms lk' by simp
  moreover have "rw_step (lk', pcs[t := Check tid]) (lk', pcs[t := Reading tid])"
    using check [of t "pcs[t := Check tid]" tid lk'] assms lk'(4) by simp
  ultimately show ?thesis by (meson converse_rtranclp_into_rtranclp rtranclp.rtrancl_refl)
qed

section \<open>The simple reader-writer lock\<close>

text \<open>\<open>state\<close> is -1 for a writer, 0 when free, and the number of readers otherwise.\<close>

record 'd simple_rwlock =
  srw_state :: isize
  srw_data :: 'd

definition simple_new :: "'d \<Rightarrow> 'd simple_rwlock" where
  "simple_new d = \<lparr>srw_state = 0, srw_data = d\<rparr>"

definition simple_read :: "'d simple_rwlock \<Rightarrow> 'd simple_rwlock run" where
  "simple_read lk = (let val = srw_state lk in if val \<ge> 0 then Inr (lk\<lparr>srw_state := val + 1\<rparr>) else Inl Hang)"

definition simple_write :: "'d simple_rwlock \<Rightarrow> 'd simple_rwlock run" where
  "simple_write lk = (if srw_state lk = 0 then Inr (lk\<lparr>srw_state := -1\<rparr>) else Inl Hang)"

definition simple_read_unlock :: "'d simple_rwlock \<Rightarrow> 'd simple_rwlock" where
  "simple_read_unlock lk = lk\<lparr>srw_state := srw_state lk - 1\<rparr>"

definition simple_write_unlock :: "'d simple_rwlock \<Rightarrow> 'd simple_rwlock" where
  "simple_write_unlock lk = lk\<lparr>srw_state := 0\<rparr>"

datatype simple_pc = SIdle | SLoaded isize | SReading | SWriting

type_synonym 'd simple_state = "'d simple_rwlock \<times> simple_pc list"

text \<open>The load of \<open>read\<close> and its compare-and-exchange are two steps; a failed exchange reloads.\<close>

inductive simple_step :: "'d simple_state \<Rightarrow> 'd simple_state \<Rightarrow> bool" where
  sload: "t < length pcs \<Longrightarrow> pcs ! t = SIdle \<Longrightarrow> 0 \<le> srw_state lk
    \<Longrightarrow> simple_step (lk, pcs) (lk, pcs[t := SLoaded (srw_state lk)])"
| sread: "t < length pcs \<Longrightarrow> pcs ! t = SLoaded val \<Longrightarrow> srw_state lk = val \<Longrightarrow> simple_read lk = Inr lk'
    \<Longrightarrow> simple_step (lk, pcs) (lk', pcs[t := SReading])"
| sretry: "t < length pcs \<Longrightarrow> pcs ! t = SLoaded val \<Longrightarrow> simple_step (lk, pcs) (lk, pcs[t := SIdle])"
| swrite: "t < length pcs \<Longrightarrow> pcs ! t = SIdle \<Longrightarrow> simple_write lk = Inr lk'
    \<Longrightarrow> simple_step (lk, pcs) (lk', pcs[t := SWriting])"
| supdate: "t < length pcs \<Longrightarrow> pcs ! t = SWriting \<Longrightarrow> simple_step (lk, pcs) (lk\<lparr>srw_data := d\<rparr>, pcs)"
| sread_unlock: "t < length pcs \<Longrightarrow> pcs ! t = SReading
    \<Longrightarrow> simple_step (lk, pcs) (simple_read_unlock lk, pcs[t := SIdle])"
| swrite_unlock: "t < length pcs \<Longrightarrow> pcs ! t = SWriting
    \<Longrightarrow> simple_step (lk, pcs) (simple_write_unlock lk, pcs[t := SIdle])"

definition simple_init :: "'d simple_state \<Rightarrow> bool" where
  "simple_init s \<longleftrightarrow> (\<exists>d. fst s = simple_new d) \<and> (\<forall>t<length (snd s). snd s ! t = SIdle)"

definition simple_inv :: "'d simple_state \<Rightarrow> bool" where
  "simple_inv s \<longleftrightarrow> (case s of (lk, pcs) \<Rightarrow>
     (if count_if (\<lambda>pc. pc = SWriting) pcs = 0 then srw_state lk = int (count_if (\<lambda>pc. pc = SReading) pcs)
      else srw_state lk = -1 \<and> count_if (\<lambda>pc. pc = SWriting) pcs = 1 \<and> count_if (\<lambda>pc. pc = SReading) pcs = 0))"

lemma simple_inv_step: "simple_step s s' \<Longrightarrow> simple_inv s \<Longrightarrow> simple_inv s'"
proof (induction rule: simple_step.induct)
  case (sread_unlock t pcs lk)
  then have "0 < count_if (\<lambda>pc. pc = SReading) pcs" by (intro count_if_pos [of t]) auto
  then show ?case using sread_unlock
    by (auto simp: simple_inv_def count_if_update simple_read_unlock_def split: if_splits)
next
  case (swrite_unlock t pcs lk)
  then have "0 < count_if (\<lambda>pc. pc = SWriting) pcs" by (intro count_if_pos [of t]) auto
  then show ?case using swrite_unlock
    by (auto simp: simple_inv_def count_if_update simple_write_unlock_def split: if_splits)
qed (auto simp: simple_inv_def count_if_update simple_read_def simple_write_def Let_def split: if_splits)

interpretation srw: inductive_invariant simple_init simple_step simple_inv
proof (unfold_locales, goal_cases)
  case (1 s)
  then obtain d pcs where "s = (simple_new d, pcs)" "\<forall>t<length pcs. pcs ! t = SIdle"
    by (cases s) (auto simp: simple_init_def)
  moreover from this(2) have "count_if P pcs = 0" if "\<not> P SIdle" for P using that by (simp add: count_if_0)
  ultimately show ?case by (simp add: simple_inv_def simple_new_def)
qed (auto intro: simple_inv_step)

section \<open>The spin lock\<close>

record spinlock =
  spin_lock :: usize

definition spinlock_new :: spinlock where
  "spinlock_new = \<lparr>spin_lock = 0\<rparr>"

definition spinlock_lock :: "spinlock \<Rightarrow> spinlock run" where
  "spinlock_lock lk = (if spin_lock lk = 0 then Inr (lk\<lparr>spin_lock := 1\<rparr>) else Inl Hang)"

definition spinlock_unlock :: "spinlock \<Rightarrow> spinlock" where
  "spinlock_unlock lk = lk\<lparr>spin_lock := 0\<rparr>"

section \<open>Properties\<close>

text \<open>
  C24. Mutual exclusion of the distributed lock under every interleaving of its atomic accesses:
  while a thread holds the write guard it asked for with \<open>n\<close> reader slots, no other thread holds a
  write guard and no thread holds a read guard of a slot below \<open>n\<close>.
\<close>

theorem rwlock_exclusion:
  assumes "reachable rw_init rw_step (lk, pcs)" "t < length pcs" "pcs ! t = Writing n" "u < length pcs" "u \<noteq> t"
  shows "(\<forall>m. pcs ! u \<noteq> Writing m) \<and> (\<forall>tid<n. pcs ! u \<noteq> Reading tid)"
proof -
  have inv: "rw_inv (lk, pcs)" using assms(1) by (rule rw.reachable_inv)
  note I = rw_invD [OF inv]
  have "count_if has_writer_lock pcs = 1" using I(2) writer_locked [OF inv assms(2)] assms(3) by simp
  from count_if_unique [OF assms(2) _ this assms(4)] assms(3,5) have "\<not> has_writer_lock (pcs ! u)" by auto
  moreover have "pcs ! u \<noteq> Reading tid" if "tid < n" for tid
    using I(4) [OF assms(4), of tid] I(5) [OF assms(2,4), of tid] that assms(3) by auto
  ultimately show ?thesis by auto
qed

theorem rwlock_exclusion_witness:
  "reachable rw_init rw_step (rwlock_new (0 :: nat)\<lparr>wlock := True\<rparr>, [Writing 2, Idle])
    \<and> [Writing 2, Idle] ! 1 \<noteq> Writing 2 \<and> [Writing 2, Idle] ! 1 \<noteq> Reading 1"
proof -
  have "reachable rw_init rw_step (rwlock_new (0 :: nat), [Idle, Idle])"
    by (rule reach_init) (auto simp: rw_init_def less_Suc_eq)
  moreover have "rw_step\<^sup>*\<^sup>* (rwlock_new (0 :: nat), [Idle, Idle]) (rwlock_new 0\<lparr>wlock := True\<rparr>, [Idle, Idle][0 := Writing 2])"
    by (rule rw_write_steps) simp_all
  ultimately have r: "reachable rw_init rw_step (rwlock_new (0 :: nat)\<lparr>wlock := True\<rparr>, [Writing 2, Idle])"
    using reachable_steps by fastforce
  from rwlock_exclusion [OF r, of 0 2 1] r show ?thesis by simp
qed

text \<open>
  Every run of one thread that \<open>write\<close> or \<open>read\<close> of the sequential model describes is a run of
  the interleaving model, and it ends in a state in which the thread holds the guard.
\<close>

lemma rwlock_runs_interleave:
  assumes "t < length pcs" "pcs ! t = Idle"
  shows "(\<forall>lk'. rw_write n lk = Inr lk' \<longrightarrow> rw_step\<^sup>*\<^sup>* (lk, pcs) (lk', pcs[t := Writing n]))
    \<and> (\<forall>lk'. rw_read tid lk = Inr lk' \<longrightarrow> rw_step\<^sup>*\<^sup>* (lk, pcs) (lk', pcs[t := Reading tid]))"
  using rw_write_steps [OF assms] rw_read_steps [OF assms] by blast

text \<open>
  C29. Without a spurious failure of the weak compare-and-exchange, the lock never panics in an
  unlock: the only panic a thread can reach is the index out of bounds of a reader id of at least
  \<open>MAX_READER_THREADS\<close>.
\<close>

theorem rwlock_unlock_no_panic:
  assumes "reachable rw_init rw_step (lk, pcs)" "t < length pcs" "pcs ! t = Panicked f"
  shows "f = index_panic"
  using rw_invD(6) [OF rw.reachable_inv [OF assms(1)] assms(2,3)] .

theorem rwlock_unlock_no_panic_witness:
  "reachable rw_init rw_step (rwlock_new (0 :: nat), [Panicked index_panic])
    \<and> (\<exists>f. [Panicked index_panic] ! 0 = Panicked f \<and> f = index_panic)"
proof -
  let ?lk = "rwlock_new (0 :: nat)"
  have "reachable rw_init rw_step (?lk, [Idle])" by (rule reach_init) (auto simp: rw_init_def)
  moreover have "rw_step (?lk, [Idle]) (?lk, [Spin 32])" using start_read [of 0 "[Idle]" ?lk 32] by simp
  moreover have "rw_step (?lk, [Spin 32]) (?lk, [Incr 32])"
    using rw_step.spin [of 0 "[Spin 32]" 32 ?lk] by (simp add: rwlock_new_def)
  moreover have "rw_step (?lk, [Incr 32]) (?lk, [Panicked index_panic])"
    using incr_panic [of 0 "[Incr 32]" 32 ?lk] by (simp add: rwlock_new_def MAX_READER_THREADS_def MAX_THREADS_PER_REPLICA_def)
  ultimately have r: "reachable rw_init rw_step (?lk, [Panicked index_panic])" by (meson reach_step)
  from rwlock_unlock_no_panic [OF r, of 0] r show ?thesis by simp
qed

text \<open>
  C30. The bound in the exclusion is needed: a writer that scans only \<open>n\<close> slots, because it read the
  number of registered threads before another thread registered, holds the write guard together
  with a reader of slot \<open>n\<close>.
\<close>

theorem rwlock_short_scan_overlaps:
  assumes "n < MAX_READER_THREADS"
  shows "\<exists>lk pcs. reachable rw_init rw_step (lk :: nat rwlock, pcs) \<and> pcs ! 0 = Writing n \<and> pcs ! 1 = Reading n
    \<and> length pcs = 2"
proof -
  let ?l0 = "rwlock_new (0 :: nat)"
  let ?l1 = "?l0\<lparr>rlock := (rlock ?l0)[n := 1]\<rparr>"
  have start: "reachable rw_init rw_step (?l0, [Idle, Idle])"
    by (rule reach_init) (auto simp: rw_init_def less_Suc_eq)
  have r: "rw_step\<^sup>*\<^sup>* (?l0, [Idle, Idle]) (?l1, [Idle, Idle][1 := Reading n])"
    using assms by (intro rw_read_steps) (simp_all add: rw_read_def rwlock_new_def)
  have w: "rw_step\<^sup>*\<^sup>* (?l1, [Idle, Reading n]) (?l1\<lparr>wlock := True\<rparr>, [Idle, Reading n][0 := Writing n])"
    by (intro rw_write_steps) (auto simp: rw_write_def rwlock_new_def list_all_length Let_def)
  have eq: "[Idle, Idle][1 := Reading n] = [Idle, Reading n]" "[Idle, Reading n][0 := Writing n] = [Writing n, Reading n]"
    by (simp_all add: list_update.simps(2) split: nat.split)
  have "rw_step\<^sup>*\<^sup>* (?l0, [Idle, Idle]) (?l1\<lparr>wlock := True\<rparr>, [Writing n, Reading n])"
    by (rule rtranclp_trans [OF r [unfolded eq] w [unfolded eq]])
  from reachable_steps [OF this start] show ?thesis
    by (intro exI [of _ "?l1\<lparr>wlock := True\<rparr>"] exI [of _ "[Writing n, Reading n]"]) simp
qed

theorem rwlock_short_scan_overlaps_witness:
  "\<exists>lk pcs. reachable rw_init rw_step (lk :: nat rwlock, pcs) \<and> pcs ! 0 = Writing 1 \<and> pcs ! 1 = Reading 1 \<and> length pcs = 2"
  using rwlock_short_scan_overlaps [of 1] by (simp add: MAX_READER_THREADS_def MAX_THREADS_PER_REPLICA_def)

text \<open>
  C28. Mutual exclusion of the simple lock under every interleaving: a writer excludes every other
  writer and every reader, and otherwise the counter is the number of readers.
\<close>

theorem simple_rwlock_exclusion:
  assumes "reachable simple_init simple_step (lk, pcs)" "t < length pcs" "pcs ! t = SWriting" "u < length pcs" "u \<noteq> t"
  shows "pcs ! u \<noteq> SWriting \<and> pcs ! u \<noteq> SReading \<and> srw_state lk = -1"
proof -
  have inv: "simple_inv (lk, pcs)" using assms(1) by (rule srw.reachable_inv)
  have "0 < count_if (\<lambda>pc. pc = SWriting) pcs" using assms(2,3) by (intro count_if_pos) auto
  with inv have c: "count_if (\<lambda>pc. pc = SWriting) pcs = 1" "count_if (\<lambda>pc. pc = SReading) pcs = 0" "srw_state lk = -1"
    by (auto simp: simple_inv_def split: if_splits)
  have "pcs ! u \<noteq> SWriting" using count_if_unique [OF assms(2) _ c(1) assms(4)] assms(3,5) by auto
  moreover have "pcs ! u \<noteq> SReading" using c(2) assms(4) by (simp add: count_if_0)
  ultimately show ?thesis using c(3) by simp
qed

theorem simple_rwlock_exclusion_witness:
  "reachable simple_init simple_step (simple_new (0 :: nat)\<lparr>srw_state := -1\<rparr>, [SWriting, SIdle])
    \<and> [SWriting, SIdle] ! 1 \<noteq> SReading"
proof -
  have "reachable simple_init simple_step (simple_new (0 :: nat), [SIdle, SIdle])"
    by (rule reach_init) (auto simp: simple_init_def less_Suc_eq)
  then have r: "reachable simple_init simple_step (simple_new (0 :: nat)\<lparr>srw_state := -1\<rparr>, [SWriting, SIdle])"
    using swrite [of 0 "[SIdle, SIdle]" "simple_new (0 :: nat)"] by (auto simp: simple_write_def simple_new_def intro: reach_step)
  from simple_rwlock_exclusion [OF r, of 0 1] r show ?thesis by simp
qed

end
