(* ===== verification/Cache_Flush.thy ===== *)
theory Cache_Flush
  imports Nr_Prelude
begin

text \<open>
  The cache-line flushes of the \<open>scr\<close> and \<open>no-coherence\<close> builds: \<open>flush_object\<close> of \<open>log.rs\<close> and
  \<open>flush_mem_region\<close> of \<open>nr/replica.rs\<close>. A flush is modelled by the list of the addresses it hands
  to \<open>clflushopt\<close>, in order; the instruction writes back and drops the line that holds the address.
\<close>

definition CACHE_LINE_SIZE :: nat where
  "CACHE_LINE_SIZE = 64"

text \<open>The loop \<open>while off < size \{ flush(base + off); off += 64 \}\<close>.\<close>

function flush_object :: "nat \<Rightarrow> nat \<Rightarrow> nat \<Rightarrow> nat list" where
  "flush_object base off sz =
     (if off < sz then (base + off) # flush_object base (off + 64) sz else [])"
  by pat_completeness auto
termination by (relation "measure (\<lambda>(base, off, sz). sz - off)") auto

text \<open>The loop \<open>while p < end \{ flush(p); p += CACHE_LINE_SIZE \}\<close>.\<close>

function flush_lines :: "nat \<Rightarrow> nat \<Rightarrow> nat list" where
  "flush_lines p e = (if p < e then p # flush_lines (p + CACHE_LINE_SIZE) e else [])"
  by pat_completeness auto
termination by (relation "measure (\<lambda>(p, e). e - p)") (auto simp: CACHE_LINE_SIZE_def)

declare flush_object.simps [simp del] flush_lines.simps [simp del]

definition flush_mem_region :: "nat \<Rightarrow> nat \<Rightarrow> nat list" where
  "flush_mem_region ptr sz = flush_lines ptr (ptr + sz)"

definition line_of :: "nat \<Rightarrow> nat" where
  "line_of a = a div CACHE_LINE_SIZE"

lemma line_of_next: "CACHE_LINE_SIZE dvd p \<Longrightarrow> a < p + CACHE_LINE_SIZE \<Longrightarrow> p \<le> a \<Longrightarrow> line_of p = line_of a"
  by (auto simp: line_of_def CACHE_LINE_SIZE_def elim!: dvdE)

lemma flush_lines_cover:
  "CACHE_LINE_SIZE dvd p \<Longrightarrow> p \<le> a \<Longrightarrow> a < e \<Longrightarrow> line_of a \<in> line_of ` set (flush_lines p e)"
proof (induction p e rule: flush_lines.induct)
  case (1 p e)
  then have unfold: "flush_lines p e = p # flush_lines (p + CACHE_LINE_SIZE) e"
    by (simp add: flush_lines.simps [of p e])
  show ?case
  proof (cases "a < p + CACHE_LINE_SIZE")
    case True
    then show ?thesis using 1 line_of_next [of p a] by (simp add: unfold)
  next
    case False
    then show ?thesis using 1 by (simp add: unfold)
  qed
qed

lemma flush_lines_inside: "q \<in> set (flush_lines p e) \<Longrightarrow> p \<le> q \<and> q < e"
proof (induction p e rule: flush_lines.induct)
  case (1 p e)
  then show ?case by (subst (asm) (2) flush_lines.simps) (fastforce split: if_splits)
qed

lemma flush_object_lines: "flush_object base off sz = flush_lines (base + off) (base + sz)"
proof (induction base off sz rule: flush_object.induct)
  case (1 base off sz)
  then show ?case
    by (subst flush_object.simps, subst flush_lines.simps) (simp add: CACHE_LINE_SIZE_def add.assoc)
qed

section \<open>Properties\<close>

text \<open>
  C31. Flushing a slot whose address is a multiple of the cache line size writes back exactly the
  lines the slot occupies: every byte of the region lies in a flushed line, and every flushed
  address lies in the region.
\<close>

theorem flush_mem_region_exact:
  assumes "CACHE_LINE_SIZE dvd ptr"
  shows "line_of ` set (flush_mem_region ptr sz) = line_of ` {ptr..<ptr + sz}
    \<and> set (flush_mem_region ptr sz) \<subseteq> {ptr..<ptr + sz}"
  using assms flush_lines_cover [of ptr _ "ptr + sz"] flush_lines_inside [of _ ptr "ptr + sz"]
  by (fastforce simp: flush_mem_region_def)

theorem flush_mem_region_exact_witness:
  "line_of ` set (flush_mem_region 128 100) = line_of ` {128..<228} \<and> flush_mem_region 128 100 = [128, 192]"
  using flush_mem_region_exact [of 128 100]
  by (simp add: CACHE_LINE_SIZE_def) (simp add: flush_mem_region_def flush_lines.simps CACHE_LINE_SIZE_def)

text \<open>
  C32. Alignment is needed: for an address that is not a multiple of the cache line size the loop,
  which starts at the address itself, misses the line of the last byte whenever the region
  straddles one line boundary more than it has steps.
\<close>

theorem flush_mem_region_unaligned:
  assumes "0 < k" "k < CACHE_LINE_SIZE" "CACHE_LINE_SIZE dvd base"
  shows "line_of (base + k + CACHE_LINE_SIZE - 1) \<notin> line_of ` set (flush_mem_region (base + k) CACHE_LINE_SIZE)"
proof -
  have "flush_mem_region (base + k) CACHE_LINE_SIZE = [base + k]"
    by (simp add: flush_mem_region_def flush_lines.simps CACHE_LINE_SIZE_def)
  then show ?thesis using assms by (auto simp: line_of_def CACHE_LINE_SIZE_def elim!: dvdE)
qed

theorem flush_mem_region_unaligned_witness:
  "line_of (0 + 8 + CACHE_LINE_SIZE - 1) \<notin> line_of ` set (flush_mem_region (0 + 8) CACHE_LINE_SIZE)"
  using flush_mem_region_unaligned [of 8 0] by (simp add: CACHE_LINE_SIZE_def)

end
