(* ===== verification/Dispatch.thy ===== *)
theory Dispatch
  imports Nr_Prelude
begin

text \<open>
  The interface of a replicated data structure (\<open>Dispatch\<close> and \<open>IdxGetter\<close> of \<open>nr/mod.rs\<close>). The
  trait is a record of functions: a read, a write, the slot index a response refers to, and the
  equality of responses that the hash set of responses uses.
\<close>

record ('d, 'ro, 'op, 'r) dispatcher =
  dispatch :: "'d \<Rightarrow> 'ro \<Rightarrow> 'r run"
  dispatch_mut :: "'op \<Rightarrow> 'd \<Rightarrow> ('r \<times> 'd) run"
  cn_idx :: "'r \<Rightarrow> isize"
  resp_eq :: "'r \<Rightarrow> 'r \<Rightarrow> bool"

text \<open>The sequential reference: the responses and the final state of a sequence of writes.\<close>

fun run_ops :: "('d, 'ro, 'op, 'r) dispatcher \<Rightarrow> 'op list \<Rightarrow> 'd \<Rightarrow> ('r list \<times> 'd) run" where
  "run_ops D [] d = Inr ([], d)"
| "run_ops D (oper # ops) d =
     bind_run (dispatch_mut D oper d) (\<lambda>(r, d1).
     bind_run (run_ops D ops d1) (\<lambda>(rs, d2). Inr (r # rs, d2)))"

lemma run_ops_append:
  "run_ops D (xs @ ys) d =
     bind_run (run_ops D xs d) (\<lambda>(rs, d1). bind_run (run_ops D ys d1) (\<lambda>(qs, d2). Inr (rs @ qs, d2)))"
proof (induction xs arbitrary: d)
  case Nil
  show ?case by (cases "run_ops D ys d") auto
next
  case (Cons x xs)
  then show ?case
    by (cases "dispatch_mut D x d") (auto simp: bind_run_assoc split_def intro!: bind_run_cong)
qed

lemma run_ops_length: "run_ops D ops d = Inr (rs, d') \<Longrightarrow> length rs = length ops"
  by (induction ops arbitrary: d rs) (auto simp: bind_run_Inr)

lemma run_ops_join:
  "run_ops D xs d = Inr (rs, d1) \<Longrightarrow> run_ops D ys d1 = Inr (qs, d2) \<Longrightarrow> run_ops D (xs @ ys) d = Inr (rs @ qs, d2)"
  by (simp add: run_ops_append)

end
