(* ===== verification/Nr_Replica.thy ===== *)
theory Nr_Replica
  imports Nr_Log_Inv Op_Context Rw_Lock Cache_Flush Dispatch
begin

text \<open>
  The replica of node replication (\<open>nr/replica.rs\<close>): the per-thread contexts, flat combining, the
  replicated copy of the data behind its reader-writer lock, the change notifications and the
  response set. Every method is the run of one thread that is not interrupted: a spin loop whose
  condition only another thread could change is \<open>Hang\<close>, and a loop that makes progress takes fuel.
\<close>

section \<open>State\<close>

record ('d, 'op, 'r) nr_replica =
  log_tkn :: usize
  combiner :: usize
  rep_next :: usize
  change_notif :: "isize list"
  contexts :: "('op, 'r, unit) op_context list"
  buffer :: "'op list"
  inflight :: "usize list"
  results :: "'r list"
  response_set :: "'r list rwlock"
  rep_data :: "'d rwlock"
  base_addr :: usize
  slot_size :: usize
  flushed :: "nat list"

text \<open>
  \<open>flushed\<close> records the addresses handed to the flush instruction; the code has no such field. The
  hash set of responses is the list of its elements, compared with the equality of the response
  type. The combiner lock inside \<open>NoLogSpace\<close> is the \<open>combiner\<close> field that stays taken.
\<close>

datatype replica_error = NoLogSpace nat | GcFailed nat

definition replica_with_data_base_addr :: "nat \<Rightarrow> 'd \<Rightarrow> nat \<Rightarrow> nat \<Rightarrow> ('d, 'op, 'r) nr_replica" where
  "replica_with_data_base_addr tkn d addr s_size =
     \<lparr>log_tkn = tkn, combiner = 0, rep_next = 1,
      change_notif = replicate MAX_THREADS_PER_REPLICA (-1),
      contexts = replicate MAX_THREADS_PER_REPLICA (context_default ()),
      buffer = [], inflight = replicate MAX_THREADS_PER_REPLICA 0, results = [],
      response_set = rwlock_new [], rep_data = rwlock_new d,
      base_addr = addr, slot_size = s_size, flushed = []\<rparr>"

definition replica_with_data :: "nat \<Rightarrow> 'd \<Rightarrow> ('d, 'op, 'r) nr_replica" where
  "replica_with_data tkn d =
     \<lparr>log_tkn = tkn, combiner = 0, rep_next = 1,
      change_notif = replicate MAX_THREADS_PER_REPLICA (-1),
      contexts = replicate MAX_THREADS_PER_REPLICA (context_default ()),
      buffer = [], inflight = replicate MAX_THREADS_PER_REPLICA 0, results = [],
      response_set = rwlock_new [], rep_data = rwlock_new d,
      base_addr = 0, slot_size = 0, flushed = []\<rparr>"

fun replica_register :: "nat \<Rightarrow> ('d, 'op, 'r) nr_replica \<Rightarrow> nat option \<times> ('d, 'op, 'r) nr_replica" where
  "replica_register fails r =
     (let idx = rep_next r
      in if idx > MAX_THREADS_PER_REPLICA then (None, r)
         else (case fails of
                 Suc fails' \<Rightarrow> replica_register fails' r
               | 0 \<Rightarrow> (Some idx, r\<lparr>rep_next := idx + 1\<rparr>)))"

section \<open>Flat combining\<close>

definition make_pending :: "'op \<Rightarrow> nat \<Rightarrow> ('d, 'op, 'r) nr_replica \<Rightarrow> (bool \<times> ('d, 'op, 'r) nr_replica) run" where
  "make_pending oper tid r =
     (if 0 < tid \<and> tid - 1 < length (contexts r)
      then (case context_enqueue oper () (contexts r ! (tid - 1)) of
              (b, c) \<Rightarrow> Inr (b, r\<lparr>contexts := (contexts r)[tid - 1 := c]\<rparr>))
      else Inl index_panic)"

text \<open>\<open>won\<close>: the weak compare-and-exchange on the free combiner lock succeeds.\<close>

definition acquire_combiner_lock :: "bool \<Rightarrow> ('d, 'op, 'r) nr_replica \<Rightarrow> bool \<times> ('d, 'op, 'r) nr_replica" where
  "acquire_combiner_lock won r =
     (if combiner r \<noteq> 0 then (False, r)
      else if won then (True, r\<lparr>combiner := 1\<rparr>)
      else (False, r))"

definition combiner_drop :: "('d, 'op, 'r) nr_replica \<Rightarrow> ('d, 'op, 'r) nr_replica" where
  "combiner_drop r = r\<lparr>combiner := 0\<rparr>"

fun collect_thread_ops :: "nat list \<Rightarrow> ('op, 'r, unit) op_context list \<Rightarrow> 'op list \<Rightarrow> nat list
    \<Rightarrow> ('op list \<times> nat list) run" where
  "collect_thread_ops [] cs buf operations = Inr (buf, operations)"
| "collect_thread_ops (i # is) cs buf operations =
     bind_run (array_get cs (i - 1)) (\<lambda>c.
     bind_run (context_iter c) (\<lambda>it.
       if i - 1 < length operations
       then bind_run (iter_collect (iterator_len it) it) (\<lambda>ops.
              collect_thread_ops is cs (buf @ map fst ops) (operations[i - 1 := iterator_len it]))
       else Inl index_panic))"

text \<open>The closure that \<open>combine\<close> hands to the log, on data, results, notifications and flushes.\<close>

type_synonym ('d, 'r) combine_state = "'d \<times> 'r list \<times> isize list \<times> nat list"

definition notify :: "nat \<Rightarrow> isize \<Rightarrow> isize list \<Rightarrow> isize list" where
  "notify n idx notifs =
     map (\<lambda>entry. if entry = idx \<and> idx \<noteq> -1 then -1 else entry) (take n notifs) @ drop n notifs"

definition flush_slot :: "nat \<Rightarrow> nat \<Rightarrow> isize \<Rightarrow> nat list" where
  "flush_slot base ssize idx =
     (if idx \<noteq> -1 then flush_mem_region (base + isize_as_usize idx * ssize mod 2 ^ 64) ssize else [])"

definition combine_op :: "bool \<Rightarrow> ('d, 'ro, 'op, 'r) dispatcher \<Rightarrow> nat \<Rightarrow> nat \<Rightarrow> nat
    \<Rightarrow> 'op \<Rightarrow> bool \<Rightarrow> ('d, 'r) combine_state \<Rightarrow> ('d, 'r) combine_state run" where
  "combine_op scr D n base ssize oper mine st =
     (case st of (d, rs, cn, fl) \<Rightarrow>
        bind_run (dispatch_mut D oper d) (\<lambda>(resp, d').
          let idx = cn_idx D resp; cn' = notify n idx cn
          in if mine then Inr (d', rs @ [resp], cn', fl)
             else Inr (d', rs, cn', if scr then fl @ flush_slot base ssize idx else fl)))"

fun distribute :: "nat list \<Rightarrow> 'r list \<Rightarrow> nat \<Rightarrow> nat \<Rightarrow> nat list \<Rightarrow> ('op, 'r, unit) op_context list
    \<Rightarrow> (nat list \<times> ('op, 'r, unit) op_context list) run" where
  "distribute [] rs s f operations cs = Inr (operations, cs)"
| "distribute (i # is) rs s f operations cs =
     bind_run (array_get operations (i - 1)) (\<lambda>n.
       if n = 0 then distribute is rs s f operations cs
       else let f' = f + n
            in if s \<le> f' \<and> f' \<le> length rs
               then bind_run (array_get cs (i - 1)) (\<lambda>c.
                      distribute is rs (s + n) f' (operations[i - 1 := 0])
                        (cs[i - 1 := context_enqueue_resps (segment s f' rs) c]))
               else Inl index_panic)"

text \<open>One use of the log under the write lock of the data.\<close>

definition with_write_lock :: "nat \<Rightarrow> (('d, 'r) combine_state \<Rightarrow> ('a \<times> 'l \<times> ('d, 'r) combine_state) run)
    \<Rightarrow> ('d, 'op, 'r) nr_replica \<Rightarrow> ('a \<times> 'l \<times> ('d, 'op, 'r) nr_replica) run" where
  "with_write_lock n f r =
     bind_run (rw_write n (rep_data r)) (\<lambda>lk.
     bind_run (f (rw_data lk, results r, change_notif r, flushed r)) (\<lambda>(out, l', d', rs', cn', fl').
     bind_run (rw_write_unlock False (lk\<lparr>rw_data := d'\<rparr>)) (\<lambda>lk'.
       Inr (out, l', r\<lparr>rep_data := lk', results := rs', change_notif := cn', flushed := fl'\<rparr>))))"

definition combine :: "bool \<Rightarrow> (nat \<Rightarrow> bool) \<Rightarrow> ('d, 'ro, 'op, 'r) dispatcher \<Rightarrow> 'op nr_log
    \<Rightarrow> ('d, 'op, 'r) nr_replica \<Rightarrow> ((replica_error + unit) \<times> 'op nr_log \<times> ('d, 'op, 'r) nr_replica) run" where
  "combine scr cas D l r =
     (let n = rep_next r; f = combine_op scr D n (base_addr r) (slot_size r)
      in bind_run (collect_thread_ops [1..<n] (contexts r) [] (inflight r)) (\<lambda>(buf, operations).
         let r0 = r\<lparr>results := [], buffer := buf, inflight := operations\<rparr>
         in bind_run (with_write_lock n (append scr cas buf (log_tkn r) f l) r0) (\<lambda>(out, l1, r1).
            case out of
              Inl e \<Rightarrow> Inr (Inl (NoLogSpace e), l1, r1)
            | Inr gc \<Rightarrow>
                bind_run (with_write_lock n
                    (\<lambda>st. bind_run (exec scr (log_tkn r) f l1 st) (\<lambda>(l2, st'). Inr ((), l2, st'))) r1)
                  (\<lambda>(_, l2, r2).
                bind_run (distribute [1..<n] (results r2) 0 0 (inflight r2) (contexts r2)) (\<lambda>(operations', cs).
                  Inr (case gc of None \<Rightarrow> Inr () | Some e \<Rightarrow> Inl (GcFailed e), l2,
                       combiner_drop (r2\<lparr>inflight := operations', contexts := cs\<rparr>)))))))"

definition try_combine :: "bool \<Rightarrow> (nat \<Rightarrow> bool) \<Rightarrow> bool \<Rightarrow> ('d, 'ro, 'op, 'r) dispatcher \<Rightarrow> 'op nr_log
    \<Rightarrow> ('d, 'op, 'r) nr_replica \<Rightarrow> ((replica_error + unit) \<times> 'op nr_log \<times> ('d, 'op, 'r) nr_replica) run" where
  "try_combine scr cas won D l r =
     (case acquire_combiner_lock won r of
        (True, r1) \<Rightarrow> combine scr cas D l r1
      | (False, r1) \<Rightarrow> Inr (Inr (), l, r1))"

section \<open>Catching up without own operations\<close>

definition sync_op :: "('d, 'ro, 'op, 'r) dispatcher \<Rightarrow> 'op \<Rightarrow> bool \<Rightarrow> 'd \<Rightarrow> 'd run" where
  "sync_op D oper mine d =
     bind_run (dispatch_mut D oper d) (\<lambda>(resp, d').
       if mine then Inl (Panic ''Ups -- we just lost a result?'') else Inr d')"

definition replica_exec :: "bool \<Rightarrow> ('d, 'ro, 'op, 'r) dispatcher \<Rightarrow> 'op nr_log \<Rightarrow> ('d, 'op, 'r) nr_replica
    \<Rightarrow> ('op nr_log \<times> ('d, 'op, 'r) nr_replica) run" where
  "replica_exec scr D l r =
     bind_run (rw_write (rep_next r) (rep_data r)) (\<lambda>lk.
     bind_run (exec scr (log_tkn r) (sync_op D) l (rw_data lk)) (\<lambda>(l', d').
     bind_run (rw_write_unlock False (lk\<lparr>rw_data := d'\<rparr>)) (\<lambda>lk'. Inr (l', r\<lparr>rep_data := lk'\<rparr>))))"

definition try_sync :: "bool \<Rightarrow> bool \<Rightarrow> ('d, 'ro, 'op, 'r) dispatcher \<Rightarrow> 'op nr_log \<Rightarrow> ('d, 'op, 'r) nr_replica
    \<Rightarrow> ('op nr_log \<times> ('d, 'op, 'r) nr_replica) run" where
  "try_sync scr won D l r =
     (case acquire_combiner_lock won r of
        (True, r1) \<Rightarrow> bind_run (replica_exec scr D l r1) (\<lambda>(l', r2). Inr (l', combiner_drop r2))
      | (False, r1) \<Rightarrow> Inr (l, r1))"

text \<open>
  The loops below take fuel and an oracle: \<open>env n\<close> holds the outcomes of the weak
  compare-and-exchange instructions of the turn that has \<open>n\<close> turns of fuel left. A loop that runs
  out of fuel is a \<open>Hang\<close>; how much fuel is enough is proved with the loops.
\<close>

type_synonym env = "nat \<Rightarrow> (nat \<Rightarrow> bool) \<times> bool"

fun sync_loop :: "bool \<Rightarrow> env \<Rightarrow> ('d, 'ro, 'op, 'r) dispatcher \<Rightarrow> nat \<Rightarrow> nat \<Rightarrow> 'op nr_log
    \<Rightarrow> ('d, 'op, 'r) nr_replica \<Rightarrow> ('op nr_log \<times> ('d, 'op, 'r) nr_replica) run" where
  "sync_loop scr env D fuel ct l r =
     (if is_replica_synced_for_reads l (log_tkn r) ct then Inr (l, r)
      else (case fuel of
              0 \<Rightarrow> Inl Hang
            | Suc n \<Rightarrow> bind_run (try_sync scr (snd (env fuel)) D l r) (\<lambda>(l', r'). sync_loop scr env D n ct l' r')))"

definition replica_sync :: "bool \<Rightarrow> env \<Rightarrow> ('d, 'ro, 'op, 'r) dispatcher \<Rightarrow> nat \<Rightarrow> 'op nr_log
    \<Rightarrow> ('d, 'op, 'r) nr_replica \<Rightarrow> ('op nr_log \<times> ('d, 'op, 'r) nr_replica) run" where
  "replica_sync scr env D fuel l r = sync_loop scr env D fuel (get_ctail l) l r"

definition replica_verify :: "bool \<Rightarrow> ('d, 'ro, 'op, 'r) dispatcher \<Rightarrow> 'op nr_log \<Rightarrow> ('d, 'op, 'r) nr_replica
    \<Rightarrow> ('d \<times> 'op nr_log \<times> ('d, 'op, 'r) nr_replica) run" where
  "replica_verify scr D l r =
     (if combiner r \<noteq> 0 then Inl Hang
      else let r0 = r\<lparr>combiner := MAX_THREADS_PER_REPLICA + 2\<rparr>
           in bind_run (rw_write (rep_next r0) (rep_data r0)) (\<lambda>lk.
              bind_run (exec scr (log_tkn r0)
                  (\<lambda>oper mine d. bind_run (dispatch_mut D oper d) (\<lambda>(_, d'). Inr d')) l (rw_data lk)) (\<lambda>(l', d').
              let r1 = r0\<lparr>combiner := 0\<rparr>
              in bind_run (rw_write_unlock False (lk\<lparr>rw_data := d'\<rparr>)) (\<lambda>lk'.
                 Inr (d', l', r1\<lparr>rep_data := lk'\<rparr>)))))"

section \<open>Writes\<close>

text \<open>
  \<open>get_response\<close> polls the context \<open>2 ^ 29\<close> times before it tries to combine. Polling an empty
  context changes nothing, so one turn of the model is one round of polls and one \<open>try_combine\<close>.
\<close>

fun get_response :: "bool \<Rightarrow> env \<Rightarrow> ('d, 'ro, 'op, 'r) dispatcher \<Rightarrow> nat \<Rightarrow> nat \<Rightarrow> 'op nr_log
    \<Rightarrow> ('d, 'op, 'r) nr_replica \<Rightarrow> ((replica_error + 'r) \<times> 'op nr_log \<times> ('d, 'op, 'r) nr_replica) run" where
  "get_response scr env D fuel tid l r =
     (if tid = 0 then Inl index_panic
      else bind_run (array_get (contexts r) (tid - 1)) (\<lambda>c.
           bind_run (context_res c) (\<lambda>(resp, c').
             let r1 = r\<lparr>contexts := (contexts r)[tid - 1 := c']\<rparr>
             in case resp of
                  Some x \<Rightarrow> Inr (Inr x, l, r1)
                | None \<Rightarrow>
                    (case fuel of
                       0 \<Rightarrow> Inl Hang
                     | Suc n \<Rightarrow>
                         bind_run (try_combine scr (fst (env fuel)) (snd (env fuel)) D l r1) (\<lambda>(out, l2, r2).
                           case out of
                             Inl e \<Rightarrow> Inr (Inl e, l2, r2)
                           | Inr _ \<Rightarrow> get_response scr env D n tid l2 r2)))))"

definition replica_execute_mut :: "bool \<Rightarrow> env \<Rightarrow> ('d, 'ro, 'op, 'r) dispatcher \<Rightarrow> nat \<Rightarrow> 'op \<Rightarrow> nat \<Rightarrow> 'op nr_log
    \<Rightarrow> ('d, 'op, 'r) nr_replica \<Rightarrow> ((replica_error + 'r) \<times> 'op nr_log \<times> ('d, 'op, 'r) nr_replica) run" where
  "replica_execute_mut scr env D fuel oper tid l r =
     bind_run (make_pending oper tid r) (\<lambda>(b, r1).
       if \<not> b then Inl Hang
       else bind_run (try_combine scr (fst (env (fuel + 1))) (snd (env (fuel + 1))) D l r1) (\<lambda>(out, l2, r2).
              case out of
                Inl e \<Rightarrow> Inr (Inl e, l2, r2)
              | Inr _ \<Rightarrow> get_response scr env D fuel tid l2 r2))"

definition replica_execute_mut_locked :: "bool \<Rightarrow> env \<Rightarrow> ('d, 'ro, 'op, 'r) dispatcher \<Rightarrow> nat \<Rightarrow> nat \<Rightarrow> 'op nr_log
    \<Rightarrow> ('d, 'op, 'r) nr_replica \<Rightarrow> ((replica_error + 'r) \<times> 'op nr_log \<times> ('d, 'op, 'r) nr_replica) run" where
  "replica_execute_mut_locked scr env D fuel tid l r =
     bind_run (combine scr (fst (env (fuel + 1))) D l r) (\<lambda>(out, l2, r2).
       case out of
         Inl e \<Rightarrow> Inr (Inl e, l2, r2)
       | Inr _ \<Rightarrow> get_response scr env D fuel tid l2 r2)"

section \<open>Reads\<close>

definition read_data :: "('d, 'ro, 'op, 'r) dispatcher \<Rightarrow> 'ro \<Rightarrow> nat \<Rightarrow> ('d, 'op, 'r) nr_replica
    \<Rightarrow> ('r \<times> ('d, 'op, 'r) nr_replica) run" where
  "read_data D ro tid r =
     (if tid = 0 then Inl index_panic
      else bind_run (rw_read (tid - 1) (rep_data r)) (\<lambda>lk.
           bind_run (dispatch D (rw_data lk) ro) (\<lambda>resp.
           bind_run (rw_read_unlock (tid - 1) lk) (\<lambda>lk'. Inr (resp, r\<lparr>rep_data := lk'\<rparr>)))))"

text \<open>Dropping an error releases the combiner lock that a \<open>NoLogSpace\<close> carries.\<close>

fun drop_error :: "replica_error + 'a \<Rightarrow> ('d, 'op, 'r) nr_replica \<Rightarrow> ('d, 'op, 'r) nr_replica" where
  "drop_error (Inl (NoLogSpace _)) r = combiner_drop r"
| "drop_error _ r = r"

text \<open>The loop that combines until the replica has seen the completed tail \<open>ct\<close>.\<close>

fun read_sync :: "bool \<Rightarrow> env \<Rightarrow> ('d, 'ro, 'op, 'r) dispatcher \<Rightarrow> nat \<Rightarrow> nat \<Rightarrow> 'op nr_log
    \<Rightarrow> ('d, 'op, 'r) nr_replica \<Rightarrow> ((replica_error + unit) \<times> 'op nr_log \<times> ('d, 'op, 'r) nr_replica) run" where
  "read_sync scr env D fuel ct l r =
     (if is_replica_synced_for_reads l (log_tkn r) ct then Inr (Inr (), l, r)
      else (case fuel of
              0 \<Rightarrow> Inl Hang
            | Suc n \<Rightarrow>
                bind_run (try_combine scr (fst (env fuel)) (snd (env fuel)) D l r) (\<lambda>(out, l', r').
                  case out of
                    Inl e \<Rightarrow> Inr (Inl e, l', r')
                  | Inr _ \<Rightarrow> read_sync scr env D n ct l' r')))"

declare sync_loop.simps [simp del] get_response.simps [simp del] read_sync.simps [simp del]

definition replica_execute :: "bool \<Rightarrow> env \<Rightarrow> ('d, 'ro, 'op, 'r) dispatcher \<Rightarrow> nat \<Rightarrow> 'ro \<Rightarrow> nat \<Rightarrow> 'op nr_log
    \<Rightarrow> ('d, 'op, 'r) nr_replica \<Rightarrow> ((replica_error + 'r) \<times> 'op nr_log \<times> ('d, 'op, 'r) nr_replica) run" where
  "replica_execute scr env D fuel ro tid l r =
     bind_run (read_sync scr env D fuel (get_ctail l) l r) (\<lambda>(out, l1, r1).
       case out of
         Inl e \<Rightarrow> Inr (Inl e, l1, r1)
       | Inr _ \<Rightarrow> bind_run (read_data D ro tid r1) (\<lambda>(resp, r2). Inr (Inr resp, l1, r2)))"

definition store_notif :: "nat \<Rightarrow> isize \<Rightarrow> ('d, 'op, 'r) nr_replica \<Rightarrow> ('d, 'op, 'r) nr_replica run" where
  "store_notif tid v r =
     (if 0 < tid \<and> tid - 1 < length (change_notif r)
      then Inr (r\<lparr>change_notif := (change_notif r)[tid - 1 := v]\<rparr>)
      else Inl index_panic)"

definition replica_execute_anchor :: "bool \<Rightarrow> env \<Rightarrow> ('d, 'ro, 'op, 'r) dispatcher \<Rightarrow> nat \<Rightarrow> 'ro \<Rightarrow> nat \<Rightarrow> 'op nr_log
    \<Rightarrow> ('d, 'op, 'r) nr_replica \<Rightarrow> ((replica_error + 'r) \<times> 'op nr_log \<times> ('d, 'op, 'r) nr_replica) run" where
  "replica_execute_anchor scr env D fuel ro tid l r =
     bind_run (read_sync scr env D fuel (get_ctail l) l r) (\<lambda>(out, l1, r1).
       case out of
         Inl e \<Rightarrow> Inr (Inl e, l1, r1)
       | Inr _ \<Rightarrow>
           bind_run (read_data D ro tid r1) (\<lambda>(resp, r2).
           bind_run (store_notif tid (cn_idx D resp) r2) (\<lambda>r3. Inr (Inr resp, l1, r3))))"

definition replica_execute_loose :: "('d, 'ro, 'op, 'r) dispatcher \<Rightarrow> 'ro \<Rightarrow> nat \<Rightarrow> ('d, 'op, 'r) nr_replica
    \<Rightarrow> ('r \<times> ('d, 'op, 'r) nr_replica) run" where
  "replica_execute_loose D ro tid r = read_data D ro tid r"

definition sync_for_read :: "bool \<Rightarrow> env \<Rightarrow> ('d, 'ro, 'op, 'r) dispatcher \<Rightarrow> nat \<Rightarrow> 'op nr_log
    \<Rightarrow> ('d, 'op, 'r) nr_replica \<Rightarrow> ('op nr_log \<times> ('d, 'op, 'r) nr_replica) run" where
  "sync_for_read scr env D fuel l r =
     bind_run (read_sync scr env D fuel (get_ctail l) l r) (\<lambda>(out, l1, r1). Inr (l1, drop_error out r1))"

text \<open>
  The continuation with a combiner lock in hand. When the replica is synced already the lock is
  dropped at the end; otherwise \<open>combine\<close> takes it over. The loop after the assertion never runs.
\<close>

definition locked_sync :: "bool \<Rightarrow> (nat \<Rightarrow> bool) \<Rightarrow> ('d, 'ro, 'op, 'r) dispatcher \<Rightarrow> 'op nr_log
    \<Rightarrow> ('d, 'op, 'r) nr_replica \<Rightarrow> ((replica_error + unit) \<times> 'op nr_log \<times> ('d, 'op, 'r) nr_replica) run" where
  "locked_sync scr cas D l r =
     (let ct = get_ctail l
      in bind_run (if \<not> is_replica_synced_for_reads l (log_tkn r) ct then combine scr cas D l r
                   else Inr (Inr (), l, combiner_drop r)) (\<lambda>(out, l1, r1).
         case out of
           Inl e \<Rightarrow> Inr (Inl e, l1, r1)
         | Inr _ \<Rightarrow>
             if is_replica_synced_for_reads l1 (log_tkn r1) ct then Inr (Inr (), l1, r1)
             else Inl (Panic ''assertion failed: slog.is_replica_synced_for_reads'')))"

definition replica_execute_locked :: "bool \<Rightarrow> (nat \<Rightarrow> bool) \<Rightarrow> ('d, 'ro, 'op, 'r) dispatcher \<Rightarrow> 'ro \<Rightarrow> nat \<Rightarrow> 'op nr_log
    \<Rightarrow> ('d, 'op, 'r) nr_replica \<Rightarrow> ((replica_error + 'r) \<times> 'op nr_log \<times> ('d, 'op, 'r) nr_replica) run" where
  "replica_execute_locked scr cas D ro tid l r =
     bind_run (locked_sync scr cas D l r) (\<lambda>(out, l1, r1).
       case out of
         Inl e \<Rightarrow> Inr (Inl e, l1, r1)
       | Inr _ \<Rightarrow> bind_run (read_data D ro tid r1) (\<lambda>(resp, r2). Inr (Inr resp, l1, r2)))"

definition replica_execute_locked_anchor :: "bool \<Rightarrow> (nat \<Rightarrow> bool) \<Rightarrow> ('d, 'ro, 'op, 'r) dispatcher \<Rightarrow> 'ro \<Rightarrow> nat
    \<Rightarrow> 'op nr_log \<Rightarrow> ('d, 'op, 'r) nr_replica \<Rightarrow> ((replica_error + 'r) \<times> 'op nr_log \<times> ('d, 'op, 'r) nr_replica) run" where
  "replica_execute_locked_anchor scr cas D ro tid l r =
     bind_run (locked_sync scr cas D l r) (\<lambda>(out, l1, r1).
       case out of
         Inl e \<Rightarrow> Inr (Inl e, l1, r1)
       | Inr _ \<Rightarrow>
           bind_run (read_data D ro tid r1) (\<lambda>(resp, r2).
           bind_run (store_notif tid (cn_idx D resp) r2) (\<lambda>r3. Inr (Inr resp, l1, r3))))"

section \<open>Coherence checks and notifications\<close>

definition check_coherence :: "('d, 'ro, 'op, 'r) dispatcher \<Rightarrow> 'r \<Rightarrow> nat \<Rightarrow> ('d, 'op, 'r) nr_replica
    \<Rightarrow> (bool \<times> ('d, 'op, 'r) nr_replica) run" where
  "check_coherence D resp tid r =
     (if tid = 0 then Inl index_panic
      else bind_run (rw_read (tid - 1) (response_set r)) (\<lambda>lk.
           let found = list_ex (resp_eq D resp) (rw_data lk)
           in bind_run (rw_read_unlock (tid - 1) lk) (\<lambda>lk'. Inr (\<not> found, r\<lparr>response_set := lk'\<rparr>))))"

definition check_coherence_reset :: "('d, 'ro, 'op, 'r) dispatcher \<Rightarrow> 'r \<Rightarrow> ('d, 'op, 'r) nr_replica
    \<Rightarrow> (bool \<times> ('d, 'op, 'r) nr_replica) run" where
  "check_coherence_reset D resp r =
     bind_run (rw_write (rep_next r) (response_set r)) (\<lambda>lk.
       let found = list_ex (resp_eq D resp) (rw_data lk);
           rest = filter (\<lambda>x. \<not> resp_eq D resp x) (rw_data lk)
       in bind_run (rw_write_unlock False (lk\<lparr>rw_data := rest\<rparr>)) (\<lambda>lk'.
          Inr (\<not> found, r\<lparr>response_set := lk'\<rparr>)))"

definition reset_coherence :: "('d, 'ro, 'op, 'r) dispatcher \<Rightarrow> 'r \<Rightarrow> ('d, 'op, 'r) nr_replica
    \<Rightarrow> ('d, 'op, 'r) nr_replica run" where
  "reset_coherence D resp r =
     bind_run (rw_write (rep_next r) (response_set r)) (\<lambda>lk.
       let rest = filter (\<lambda>x. \<not> resp_eq D resp x) (rw_data lk)
       in bind_run (rw_write_unlock False (lk\<lparr>rw_data := rest\<rparr>)) (\<lambda>lk'. Inr (r\<lparr>response_set := lk'\<rparr>)))"

definition check_notification_reset :: "nat \<Rightarrow> ('d, 'op, 'r) nr_replica \<Rightarrow> (bool \<times> ('d, 'op, 'r) nr_replica) run" where
  "check_notification_reset tid r =
     (if tid = 0 then Inl index_panic
      else bind_run (array_get (change_notif r) (tid - 1)) (\<lambda>current.
           bind_run (store_notif tid (-1) r) (\<lambda>r'. Inr (current \<noteq> -1, r'))))"

end
