(* ===== verification/Nr_Replica_Inv.thy ===== *)
theory Nr_Replica_Inv
  imports Nr_Replica
begin

text \<open>
  Correctness of a replica. Its data is always the state that the sequential execution of a prefix
  of the history reaches, flat combining appends the operations of all its threads to the history
  in one batch, and every thread gets the responses of its own operations in order.
\<close>

section \<open>The closures, as sequential executions\<close>

text \<open>The responses to the entries of replica \<open>idx\<close>, and to those of the other replicas.\<close>

definition own_responses :: "nat \<Rightarrow> 'op history \<Rightarrow> 'r list \<Rightarrow> 'r list" where
  "own_responses idx xs rs = map snd (filter (\<lambda>(e, _). snd e = idx) (zip xs rs))"

definition foreign_responses :: "nat \<Rightarrow> 'op history \<Rightarrow> 'r list \<Rightarrow> 'r list" where
  "foreign_responses idx xs rs = map snd (filter (\<lambda>(e, _). snd e \<noteq> idx) (zip xs rs))"

lemma own_responses_append:
  "length rs = length xs \<Longrightarrow> own_responses idx (xs @ ys) (rs @ qs) = own_responses idx xs rs @ own_responses idx ys qs"
  by (simp add: own_responses_def)

lemma own_responses_none: "\<forall>e\<in>set xs. snd e \<noteq> idx \<Longrightarrow> own_responses idx xs rs = []"
  by (auto simp: own_responses_def filter_empty_conv dest: set_zip_leftD)

lemma own_responses_all: "length rs = length ops \<Longrightarrow> own_responses idx (entries_of idx ops) rs = rs"
proof (induction ops arbitrary: rs)
  case (Cons oper ops)
  then show ?case by (cases rs) (auto simp: own_responses_def entries_of_def)
qed (simp add: own_responses_def entries_of_def)

lemma map_fst_entries_of [simp]: "map fst (entries_of idx ops) = ops"
  by (simp add: entries_of_def comp_def)

definition flushes :: "bool \<Rightarrow> nat \<Rightarrow> nat \<Rightarrow> isize list \<Rightarrow> nat list" where
  "flushes scr base ssize idxs = (if scr then concat (map (flush_slot base ssize) idxs) else [])"

lemma replay_combine_op:
  "replay (combine_op scr D n base ssize) idx xs (d, rs, cn, fl) =
     bind_run (run_ops D (map fst xs) d) (\<lambda>(qs, d').
       Inr (d', rs @ own_responses idx xs qs, fold (notify n) (map (cn_idx D) qs) cn,
            fl @ flushes scr base ssize (map (cn_idx D) (foreign_responses idx xs qs))))"
proof (induction xs arbitrary: d rs cn fl)
  case Nil
  show ?case by (simp add: own_responses_def foreign_responses_def flushes_def)
next
  case (Cons x xs)
  obtain oper src where x: "x = (oper, src)" by fastforce
  show ?case
  proof (cases "dispatch_mut D oper d")
    case (Inl f)
    then show ?thesis by (simp add: x combine_op_def)
  next
    case (Inr p)
    obtain resp d1 where p: "p = (resp, d1)" by fastforce
    have "own_responses idx (x # xs) (resp # qs) = (if src = idx then [resp] else []) @ own_responses idx xs qs"
      "foreign_responses idx (x # xs) (resp # qs) = (if src = idx then [] else [resp]) @ foreign_responses idx xs qs"
      for qs by (simp_all add: own_responses_def foreign_responses_def x)
    then show ?thesis using Inr p Cons.IH
      by (cases "run_ops D (map fst xs) d1")
        (auto simp: x combine_op_def Let_def flushes_def bind_run_assoc split_def)
  qed
qed

lemma replay_sync_op:
  "\<forall>e\<in>set xs. snd e \<noteq> idx \<Longrightarrow>
     replay (sync_op D) idx xs d = bind_run (run_ops D (map fst xs) d) (\<lambda>(_, d'). Inr d')"
proof (induction xs arbitrary: d)
  case (Cons x xs)
  then show ?case
    by (cases x; cases "dispatch_mut D (fst x) d")
      (auto simp: sync_op_def bind_run_assoc split_def)
qed simp

section \<open>Collecting and distributing\<close>

definition batch_of :: "('d, 'op, 'r) nr_replica \<Rightarrow> 'op list" where
  "batch_of r = concat (map (\<lambda>c. map fst (pending_ops c)) (take (rep_next r - 1) (contexts r)))"

lemma collect_loop:
  assumes "list_all ctx_inv cs" "1 \<le> a" "a \<le> n" "n - 1 \<le> length cs" "length operations = length cs"
  shows "collect_thread_ops [a..<n] cs buf operations =
    Inr (buf @ concat (map (\<lambda>c. map fst (pending_ops c)) (segment (a - 1) (n - 1) cs)),
         map (\<lambda>j. if a - 1 \<le> j \<and> j < n - 1 then length (pending_ops (cs ! j)) else operations ! j) [0..<length cs])"
  using assms(2-5)
proof (induction "n - a" arbitrary: a buf operations)
  case 0
  then have "a = n" by simp
  moreover have "map (\<lambda>j. operations ! j) [0..<length cs] = operations" using 0 by (metis map_nth)
  moreover have "(\<lambda>j. if n - 1 \<le> j \<and> j < n - 1 then length (pending_ops (cs ! j)) else operations ! j)
      = (\<lambda>j. operations ! j)" by auto
  ultimately show ?case by simp
next
  case (Suc k)
  let ?c = "cs ! (a - 1)"
  have a: "a < n" "a - 1 < length cs" using Suc by simp_all
  have inv: "ctx_inv ?c" using assms(1) a by (simp add: list_all_length)
  obtain it where it: "context_iter ?c = Inr it" "iterator_len it = length (pending_ops ?c)"
    using ctx_invD(3) [OF inv] by (simp add: context_iter_def iterator_len_def pending_ops_def Let_def not_less)
  then have items: "iter_collect (iterator_len it) it = Inr (pending_ops ?c)"
    using context_items_spec [OF inv] by (simp add: context_items_def)
  have "collect_thread_ops [a..<n] cs buf operations =
      collect_thread_ops [a + 1..<n] cs (buf @ map fst (pending_ops ?c)) (operations[a - 1 := length (pending_ops ?c)])"
    using a it items Suc.prems by (simp add: upt_conv_Cons flip: Suc_eq_plus1)
  also have "\<dots> = Inr ((buf @ map fst (pending_ops ?c)) @
        concat (map (\<lambda>c. map fst (pending_ops c)) (segment (a + 1 - 1) (n - 1) cs)),
      map (\<lambda>j. if a + 1 - 1 \<le> j \<and> j < n - 1 then length (pending_ops (cs ! j))
               else operations[a - 1 := length (pending_ops ?c)] ! j) [0..<length cs])"
    using Suc by (intro Suc.hyps(1)) auto
  also have "segment (a - 1) (n - 1) cs = ?c # segment (a + 1 - 1) (n - 1) cs"
    using a Suc.prems by (subst segment_Cons) auto
  moreover have "map (\<lambda>j. if a + 1 - 1 \<le> j \<and> j < n - 1 then length (pending_ops (cs ! j))
               else operations[a - 1 := length (pending_ops ?c)] ! j) [0..<length cs] =
      map (\<lambda>j. if a - 1 \<le> j \<and> j < n - 1 then length (pending_ops (cs ! j)) else operations ! j) [0..<length cs]"
    using a Suc.prems by (auto simp: nth_list_update)
  ultimately show ?case by simp
qed

text \<open>The results of a batch, cut into one part per thread.\<close>

fun chunks :: "nat list \<Rightarrow> 'a list \<Rightarrow> 'a list list" where
  "chunks [] xs = []"
| "chunks (n # ns) xs = take n xs # chunks ns (drop n xs)"

lemma length_chunks [simp]: "length (chunks ns xs) = length ns"
  by (induction ns xs rule: chunks.induct) simp_all

lemma concat_chunks: "length xs = sum_list ns \<Longrightarrow> concat (chunks ns xs) = xs"
  by (induction ns xs rule: chunks.induct) simp_all

lemma length_nth_chunks: "length xs = sum_list ns \<Longrightarrow> i < length ns \<Longrightarrow> length (chunks ns xs ! i) = ns ! i"
proof (induction ns xs arbitrary: i rule: chunks.induct)
  case (2 n ns xs)
  then show ?case by (cases i) auto
qed simp

lemma segment_concat:
  assumes "k < length xss"
  shows "segment (length (concat (take k xss))) (length (concat (take k xss)) + length (xss ! k)) (concat xss) = xss ! k"
proof -
  have "concat xss = concat (take k xss) @ xss ! k @ concat (drop (Suc k) xss)"
    using assms by (metis append_take_drop_id concat.simps(2) concat_append Cons_nth_drop_Suc)
  then show ?thesis by (simp add: segment_def)
qed

lemma length_concat_take_Suc:
  "k < length xss \<Longrightarrow> length (concat (take (Suc k) xss)) = length (concat (take k xss)) + length (xss ! k)"
  by (simp add: take_Suc_conv_app_nth)

lemma length_concat_le: "k \<le> length xss \<Longrightarrow> length (concat (take k xss)) \<le> length (concat xss)"
  by (metis append_take_drop_id concat_append length_append le_add1)

definition answered :: "nat \<Rightarrow> nat \<Rightarrow> 'r list list \<Rightarrow> ('op, 'r, 'm) op_context list \<Rightarrow> ('op, 'r, 'm) op_context list" where
  "answered a n rss cs = map (\<lambda>j. if a \<le> j \<and> j < n then fold context_enqueue_resp (rss ! j) (cs ! j) else cs ! j)
     [0..<length cs]"

lemma distribute_loop:
  assumes "1 \<le> a" "a \<le> n" "n - 1 \<le> length cs" "length rss = n - 1" "length operations = length cs"
    and "\<And>j. a - 1 \<le> j \<Longrightarrow> j < n - 1 \<Longrightarrow> operations ! j = length (rss ! j)"
    and "s = length (concat (take (a - 1) rss))"
  shows "\<exists>operations'. distribute [a..<n] (concat rss) s s operations cs = Inr (operations', answered (a - 1) (n - 1) rss cs)
    \<and> length operations' = length cs"
  using assms
proof (induction "n - a" arbitrary: a s operations cs)
  case 0
  then have "a = n" by simp
  moreover have "answered (n - 1) (n - 1) rss cs = cs"
    by (rule nth_equalityI) (auto simp: answered_def)
  ultimately show ?case using 0 by simp
next
  case (Suc k)
  let ?j = "a - 1"
  have a: "a < n" "?j < length cs" "?j < length rss" "?j < n - 1" using Suc by auto
  let ?f = "s + length (rss ! ?j)" and ?cs = "cs[?j := fold context_enqueue_resp (rss ! ?j) (cs ! ?j)]"
  have len: "operations ! ?j = length (rss ! ?j)" using Suc.prems a by simp
  have Suc_j: "a + 1 - 1 = Suc ?j" using Suc.prems(1) by simp
  have f: "?f = length (concat (take (a + 1 - 1) rss))"
    unfolding Suc_j using Suc.prems(7) a(3) by (simp only: length_concat_take_Suc)
  have fits: "?f \<le> length (concat rss)" unfolding f using Suc by (intro length_concat_le) simp
  have seg: "segment s ?f (concat rss) = rss ! ?j" using Suc.prems(7) a segment_concat [of ?j rss] by simp
  have same: "answered (a + 1 - 1) (n - 1) rss ?cs = answered ?j (n - 1) rss cs"
    unfolding answered_def Suc_j length_list_update
  proof (rule map_cong [OF refl])
    fix x assume "x \<in> set [0..<length cs]"
    then show "(if Suc ?j \<le> x \<and> x < n - 1 then fold context_enqueue_resp (rss ! x) (?cs ! x) else ?cs ! x) =
      (if ?j \<le> x \<and> x < n - 1 then fold context_enqueue_resp (rss ! x) (cs ! x) else cs ! x)"
      using a by (cases "x = ?j") auto
  qed
  have step: "distribute [a..<n] (concat rss) s s operations cs =
      distribute [a + 1..<n] (concat rss) ?f ?f (operations[?j := 0]) ?cs"
  proof (cases "rss ! ?j = []")
    case True
    then have "operations[?j := 0] = operations" "?cs = cs"
      using len Suc.prems(5) a by (simp_all add: list_update_nth_eq)
    then show ?thesis using True a len Suc.prems by (simp add: upt_conv_Cons flip: Suc_eq_plus1)
  next
    case False
    then show ?thesis using a len Suc.prems fits seg by (simp add: upt_conv_Cons Let_def flip: Suc_eq_plus1)
  qed
  have "\<exists>operations'. distribute [a + 1..<n] (concat rss) ?f ?f (operations[?j := 0]) ?cs =
      Inr (operations', answered (a + 1 - 1) (n - 1) rss ?cs) \<and> length operations' = length ?cs"
    using Suc.prems Suc.hyps(2) f by (intro Suc.hyps(1)) (auto simp: nth_list_update)
  then show ?case unfolding step same length_list_update .
qed

section \<open>The invariant of a replica\<close>

definition rep_wf :: "('d, 'op, 'r) nr_replica \<Rightarrow> bool" where
  "rep_wf r \<longleftrightarrow>
     length (contexts r) = MAX_THREADS_PER_REPLICA \<and> list_all ctx_inv (contexts r)
     \<and> length (inflight r) = MAX_THREADS_PER_REPLICA \<and> length (change_notif r) = MAX_THREADS_PER_REPLICA
     \<and> rw_free (rep_data r) \<and> rw_free (response_set r)
     \<and> 1 \<le> rep_next r \<and> rep_next r \<le> MAX_THREADS_PER_REPLICA + 1"

text \<open>
  The data of the replica is the state after the part of the history it has executed, and none of
  its own entries is left to execute.
\<close>

definition rep_at :: "('d, 'ro, 'op, 'r) dispatcher \<Rightarrow> 'd \<Rightarrow> 'op history \<Rightarrow> 'op nr_log
    \<Rightarrow> ('d, 'op, 'r) nr_replica \<Rightarrow> bool" where
  "rep_at D d0 h l r \<longleftrightarrow>
     registered l (log_tkn r)
     \<and> (\<exists>rs. run_ops D (map fst (take (ltails l ! (log_tkn r - 1)) h)) d0 = Inr (rs, rw_data (rep_data r)))
     \<and> (\<forall>e\<in>set (drop (ltails l ! (log_tkn r - 1)) h). snd e \<noteq> log_tkn r)"

definition rep_inv :: "('d, 'ro, 'op, 'r) dispatcher \<Rightarrow> 'd \<Rightarrow> 'op history \<Rightarrow> 'op nr_log
    \<Rightarrow> ('d, 'op, 'r) nr_replica \<Rightarrow> bool" where
  "rep_inv D d0 h l r \<longleftrightarrow> rep_wf r \<and> rep_at D d0 h l r"

lemma rep_wfD:
  assumes "rep_wf r"
  shows "length (contexts r) = MAX_THREADS_PER_REPLICA" "list_all ctx_inv (contexts r)"
    "length (inflight r) = MAX_THREADS_PER_REPLICA" "length (change_notif r) = MAX_THREADS_PER_REPLICA"
    "rw_free (rep_data r)" "rw_free (response_set r)" "1 \<le> rep_next r" "rep_next r - 1 \<le> MAX_THREADS_PER_REPLICA"
  using assms by (auto simp: rep_wf_def)

lemma length_batch_of: "rep_wf r \<Longrightarrow> length (batch_of r) \<le> GC_FROM_HEAD"
proof -
  assume wf: "rep_wf r"
  let ?cs = "take (rep_next r - 1) (contexts r)"
  have "length (pending_ops c) \<le> MAX_PENDING_OPS" if "c \<in> set ?cs" for c
    using cb.bounded [of c] rep_wfD(2) [OF wf] that in_set_takeD [OF that] by (auto simp: list_all_iff)
  then have "sum_list (map (\<lambda>c. length (pending_ops c)) ?cs) \<le> sum_list (map (\<lambda>_. MAX_PENDING_OPS) ?cs)"
    by (intro sum_list_mono) auto
  also have "\<dots> \<le> MAX_THREADS_PER_REPLICA * MAX_PENDING_OPS"
    using rep_wfD(1,8) [OF wf] by (simp add: sum_list_triv)
  finally show ?thesis
    by (simp add: batch_of_def length_concat comp_def GC_FROM_HEAD_def mult.commute)
qed

section \<open>Flat combining\<close>

lemma with_write_lock_free:
  assumes "rw_free (rep_data r)"
  shows "with_write_lock n f r =
    bind_run (f (rw_data (rep_data r), results r, change_notif r, flushed r)) (\<lambda>(out, l', d', rs', cn', fl').
      Inr (out, l', r\<lparr>rep_data := (rep_data r)\<lparr>rw_data := d'\<rparr>, results := rs', change_notif := cn', flushed := fl'\<rparr>))"
  using assms by (simp add: with_write_lock_def)

lemma length_notify [simp]: "length (notify n idx cn) = length cn"
  by (simp add: notify_def)

lemma length_fold_notify [simp]: "length (fold (notify n) idxs cn) = length cn"
  by (induction idxs arbitrary: cn) simp_all

text \<open>
  What a run over the log does to the data and the results, from a state where none of the own
  entries is left: \<open>xs\<close> are entries of other replicas and \<open>own\<close> the batch just appended.
\<close>

lemma combine_replay:
  assumes "\<forall>e\<in>set xs. snd e \<noteq> idx"
  shows "replay (combine_op scr D n base ssize) idx (xs @ entries_of idx own) (d, rs, cn, fl) =
    bind_run (run_ops D (map fst xs) d) (\<lambda>(qs, d1). bind_run (run_ops D own d1) (\<lambda>(ps, d2).
      Inr (d2, rs @ ps, fold (notify n) (map (cn_idx D) (qs @ ps)) cn,
           fl @ flushes scr base ssize (map (cn_idx D) (foreign_responses idx (xs @ entries_of idx own) (qs @ ps))))))"
proof (cases "run_ops D (map fst xs) d")
  case (Inl f)
  then show ?thesis by (simp add: replay_combine_op run_ops_append)
next
  case (Inr p)
  obtain qs d1 where p: "p = (qs, d1)" by fastforce
  show ?thesis
  proof (cases "run_ops D own d1")
    case (Inl f)
    then show ?thesis using Inr p by (simp add: replay_combine_op run_ops_append)
  next
    case own: (Inr q)
    obtain ps d2 where q: "q = (ps, d2)" by fastforce
    have "own_responses idx (xs @ entries_of idx own) (qs @ ps) = ps"
      using own q Inr p assms run_ops_length [of D] by (simp add: own_responses_append own_responses_none own_responses_all)
    then show ?thesis using own q Inr p by (simp add: replay_combine_op run_ops_append)
  qed
qed

lemma take_drop_map: "t \<le> length h \<Longrightarrow> map fst (take t h) @ map fst (drop t h) = map fst h"
  by (metis append_take_drop_id map_append)

definition others_kept :: "nat \<Rightarrow> 'op nr_log \<Rightarrow> 'op nr_log \<Rightarrow> bool" where
  "others_kept idx l l' \<longleftrightarrow> next_id l' = next_id l \<and> (\<forall>j. j \<noteq> idx - 1 \<longrightarrow> ltails l' ! j = ltails l ! j)"

lemma log_advanced_others: "log_advanced scr idx d h l st l' st' \<Longrightarrow> others_kept idx l l'"
  by (simp add: log_advanced_def moved_def others_kept_def)

lemma others_kept_trans: "others_kept idx l l1 \<Longrightarrow> others_kept idx l1 l2 \<Longrightarrow> others_kept idx l l2"
  by (simp add: others_kept_def)

text \<open>Every other replica of the log is where it was, over the longer history.\<close>

lemma rep_inv_others:
  assumes "rep_inv D d0 h l q" "others_kept idx l l'" "log_tkn q \<noteq> idx" "0 < idx" "ltails l ! (log_tkn q - 1) \<le> length h"
    and "\<forall>e\<in>set h'. snd e \<noteq> log_tkn q"
  shows "rep_inv D d0 (h @ h') l' q"
proof -
  have "0 < log_tkn q" using assms(1) by (simp add: rep_inv_def rep_at_def registered_def)
  then have "log_tkn q - 1 \<noteq> idx - 1" using assms(3,4) by linarith
  then have "ltails l' ! (log_tkn q - 1) = ltails l ! (log_tkn q - 1)" "next_id l' = next_id l"
    using assms(2) by (simp_all add: others_kept_def)
  then show ?thesis using assms(1,5,6) by (auto simp: rep_inv_def rep_at_def registered_def)
qed

text \<open>Appending and then executing, over any closure.\<close>

lemma append_then_exec:
  assumes "log_inv scr l h" "registered l idx" "append_post scr E ops idx s h l st (Inr (Inr gc, l1, st1))"
  shows "case exec scr idx s l1 st1 of
      Inl f \<Rightarrow> log_failed idx s (h @ entries_of idx ops) l st f
    | Inr (l2, st2) \<Rightarrow> log_advanced scr idx s (h @ entries_of idx ops) l st l2 st2
        \<and> ltails l2 ! (idx - 1) = tail l2 \<and> (\<forall>r. gc = Some r \<longrightarrow> lagging idx r l2)"
proof -
  let ?h = "h @ entries_of idx ops"
  have adv: "log_advanced scr idx s ?h l st l1 st1" and lag: "\<forall>r. gc = Some r \<longrightarrow> lagging idx r l1"
    using assms(3) by (simp_all add: append_post_def)
  then have inv1: "log_inv scr l1 ?h" and reg1: "registered l1 idx"
    using assms(2) by (simp_all add: log_advanced_inv log_advanced_registered)
  note ex = exec_advanced [OF inv1 reg1, of s st1]
  show ?thesis
  proof (cases "exec scr idx s l1 st1")
    case (Inl f)
    then show ?thesis using ex adv by (auto intro: log_failed_trans)
  next
    case (Inr p)
    obtain l2 st2 where p: "p = (l2, st2)" by fastforce
    have adv2: "log_advanced scr idx s ?h l1 st1 l2 st2" and up: "ltails l2 ! (idx - 1) = tail l2"
      using ex Inr p by auto
    have "head l2 = head l1" "tail l2 = tail l1" using exec_frame(1,3) [OF Inr [unfolded p]] by simp_all
    moreover have "ltails l2 ! r = ltails l1 ! r" if "lagging idx r l1" for r
      using that adv2 by (cases "r = idx - 1") (auto simp: lagging_def log_advanced_def moved_def)
    ultimately have "lagging idx r l2" if "lagging idx r l1" for r
      using that up adv2 by (simp add: lagging_def log_advanced_registered)
    then show ?thesis using Inr p adv adv2 up lag by (auto intro: log_advanced_trans)
  qed
qed

text \<open>The data after a run over the log is the state of the longer prefix.\<close>

lemma advanced_prefix:
  assumes "log_advanced scr idx (combine_op scr' D n b ss) h l (d, rs, cn, fl) l' (d', rs', cn', fl')"
    and "run_ops D (map fst (take (ltails l ! (idx - 1)) h)) d0 = Inr (qs, d)"
  shows "\<exists>qs'. run_ops D (map fst (take (ltails l' ! (idx - 1)) h)) d0 = Inr (qs', d')" "length cn' = length cn"
proof -
  let ?t = "ltails l ! (idx - 1)" and ?t' = "ltails l' ! (idx - 1)"
  have le: "?t \<le> ?t'" and rep: "replay (combine_op scr' D n b ss) idx (segment ?t ?t' h) (d, rs, cn, fl) = Inr (d', rs', cn', fl')"
    using assms(1) by (simp_all add: log_advanced_def moved_def)
  then obtain ps where ps: "run_ops D (map fst (segment ?t ?t' h)) d = Inr (ps, d')"
    by (auto simp: replay_combine_op bind_run_Inr)
  from run_ops_join [OF assms(2) ps]
  show "\<exists>qs'. run_ops D (map fst (take ?t' h)) d0 = Inr (qs', d')"
    using take_segment_join [OF le, of h] by (metis map_append)
  show "length cn' = length cn" using rep by (auto simp: replay_combine_op bind_run_Inr)
qed

lemma failed_prefix:
  assumes "log_failed idx (combine_op scr D n b ss) h l (d, rs, cn, fl) f"
    and "run_ops D (map fst (take (ltails l ! (idx - 1)) h)) d0 = Inr (qs, d)"
  shows "\<exists>k. run_ops D (map fst (take k h)) d0 = Inl f"
proof -
  let ?t = "ltails l ! (idx - 1)"
  obtain k where k: "replay (combine_op scr D n b ss) idx (segment ?t k h) (d, rs, cn, fl) = Inl f"
    using assms(1) by (auto simp: log_failed_def)
  have le: "?t \<le> k" using k by (cases "?t \<le> k") simp_all
  from k have "run_ops D (map fst (segment ?t k h)) d = Inl f"
    by (auto simp: replay_combine_op bind_run_Inl)
  with assms(2) have "run_ops D (map fst (take ?t h) @ map fst (segment ?t k h)) d0 = Inl f"
    by (simp add: run_ops_append)
  then show ?thesis using take_segment_join [OF le, of h] by (metis map_append)
qed

section \<open>The specification of combine\<close>

definition pending_counts :: "('d, 'op, 'r) nr_replica \<Rightarrow> nat list" where
  "pending_counts r = map (\<lambda>c. length (pending_ops c)) (take (rep_next r - 1) (contexts r))"

definition same_threads :: "('d, 'op, 'r) nr_replica \<Rightarrow> ('d, 'op, 'r) nr_replica \<Rightarrow> bool" where
  "same_threads r r' \<longleftrightarrow> log_tkn r' = log_tkn r \<and> rep_next r' = rep_next r
     \<and> base_addr r' = base_addr r \<and> slot_size r' = slot_size r"

text \<open>\<open>served\<close>: the batch ran after the whole history and every thread has its own responses.\<close>

definition served :: "('d, 'ro, 'op, 'r) dispatcher \<Rightarrow> 'd \<Rightarrow> 'op history \<Rightarrow> ('d, 'op, 'r) nr_replica
    \<Rightarrow> ('d, 'op, 'r) nr_replica \<Rightarrow> bool" where
  "served D d0 h r r' \<longleftrightarrow>
     (\<exists>qs d1 rs d2. run_ops D (map fst h) d0 = Inr (qs, d1) \<and> run_ops D (batch_of r) d1 = Inr (rs, d2)
        \<and> rw_data (rep_data r') = d2
        \<and> contexts r' = answered 0 (rep_next r - 1) (chunks (pending_counts r) rs) (contexts r))"

definition combine_post :: "bool \<Rightarrow> (nat \<Rightarrow> 'op nr_log \<Rightarrow> bool) \<Rightarrow> ('d, 'ro, 'op, 'r) dispatcher \<Rightarrow> 'd \<Rightarrow> 'op history
    \<Rightarrow> 'op nr_log \<Rightarrow> ('d, 'op, 'r) nr_replica
    \<Rightarrow> ((replica_error + unit) \<times> 'op nr_log \<times> ('d, 'op, 'r) nr_replica) run \<Rightarrow> bool" where
  "combine_post scr E D d0 h l r out =
     (let h' = h @ entries_of (log_tkn r) (batch_of r)
      in case out of
           Inl f \<Rightarrow> \<exists>k. run_ops D (map fst (take k h')) d0 = Inl f
         | Inr (res, l', r') \<Rightarrow>
             others_kept (log_tkn r) l l' \<and> same_threads r r'
             \<and> (case res of
                  Inl (NoLogSpace e) \<Rightarrow> log_inv scr l' h \<and> rep_inv D d0 h l' r' \<and> contexts r' = contexts r
                    \<and> combiner r' = combiner r \<and> registered l' (Suc e) \<and> E e l'
                | _ \<Rightarrow> log_inv scr l' h' \<and> rep_inv D d0 h' l' r' \<and> ltails l' ! (log_tkn r - 1) = length h'
                    \<and> combiner r' = 0 \<and> served D d0 h r r'
                    \<and> (\<forall>e. res = Inl (GcFailed e) \<longrightarrow> lagging (log_tkn r) e l')))"

lemma length_batch_counts: "length (batch_of r) = sum_list (pending_counts r)"
  by (simp add: batch_of_def pending_counts_def length_concat comp_def)

lemma combine_collect:
  assumes "rep_wf r"
  obtains operations where
    "collect_thread_ops [1..<rep_next r] (contexts r) [] (inflight r) = Inr (batch_of r, operations)"
    "length operations = MAX_THREADS_PER_REPLICA"
    "\<And>j. j < rep_next r - 1 \<Longrightarrow> operations ! j = pending_counts r ! j"
proof -
  note wf = rep_wfD [OF assms]
  let ?ops = "map (\<lambda>j. if 1 - 1 \<le> j \<and> j < rep_next r - 1 then length (pending_ops (contexts r ! j)) else inflight r ! j)
    [0..<length (contexts r)]"
  have "segment 0 (rep_next r - 1) (contexts r) = take (rep_next r - 1) (contexts r)" by (simp add: segment_def)
  then have "collect_thread_ops [1..<rep_next r] (contexts r) [] (inflight r) = Inr (batch_of r, ?ops)"
    using collect_loop [of "contexts r" 1 "rep_next r" "inflight r" "[]"] wf by (simp add: batch_of_def)
  moreover have "?ops ! j = pending_counts r ! j" if "j < rep_next r - 1" for j
    using that wf by (simp add: pending_counts_def)
  ultimately show thesis using that [of ?ops] wf by simp
qed

lemma answered_served:
  assumes "rep_wf r" "length rs = length (batch_of r)" "length operations = MAX_THREADS_PER_REPLICA"
    and "\<And>j. j < rep_next r - 1 \<Longrightarrow> operations ! j = pending_counts r ! j"
  obtains operations' where "distribute [1..<rep_next r] rs 0 0 operations (contexts r) =
      Inr (operations', answered 0 (rep_next r - 1) (chunks (pending_counts r) rs) (contexts r))"
    "length operations' = MAX_THREADS_PER_REPLICA"
proof -
  note wf = rep_wfD [OF assms(1)]
  have sum: "length rs = sum_list (pending_counts r)"
    using assms(2) by (simp add: length_batch_counts)
  have len: "length (pending_counts r) = rep_next r - 1" using wf by (simp add: pending_counts_def)
  show thesis
    using distribute_loop [of 1 "rep_next r" "contexts r" "chunks (pending_counts r) rs" operations 0]
      that wf assms(3,4) sum len by (auto simp: concat_chunks length_nth_chunks)
qed

text \<open>The contexts after a batch: registered threads have no pending operation left.\<close>

lemma answered_context:
  assumes "rep_wf r" "length rs = length (batch_of r)" "j < MAX_THREADS_PER_REPLICA"
    and "cs = answered 0 (rep_next r - 1) (chunks (pending_counts r) rs) (contexts r)"
  shows "ctx_inv (cs ! j)"
    and "j < rep_next r - 1 \<Longrightarrow> pending_ops (cs ! j) = []
      \<and> answers (cs ! j) = answers (contexts r ! j) @ chunks (pending_counts r) rs ! j"
    and "rep_next r - 1 \<le> j \<Longrightarrow> cs ! j = contexts r ! j"
proof -
  note wf = rep_wfD [OF assms(1)]
  let ?c = "contexts r ! j" and ?rs = "chunks (pending_counts r) rs ! j"
  have inv: "ctx_inv ?c" using wf assms(3) by (simp add: list_all_length)
  have sum: "length rs = sum_list (pending_counts r)"
    using assms(2) by (simp add: length_batch_counts)
  have len: "length ?rs = length (pending_ops ?c)" if "j < rep_next r - 1"
    using that sum wf assms(3) by (simp add: length_nth_chunks pending_counts_def)
  have cs: "cs ! j = (if j < rep_next r - 1 then fold context_enqueue_resp ?rs ?c else ?c)"
    using assms(3,4) wf by (simp add: answered_def)
  show "ctx_inv (cs ! j)" using cs inv len cb.put_all(1) [OF inv, of ?rs] by simp
  show "pending_ops (cs ! j) = [] \<and> answers (cs ! j) = answers ?c @ ?rs" if "j < rep_next r - 1"
    using cs that len cb.put_all [OF inv, of ?rs] by simp
  show "cs ! j = contexts r ! j" if "rep_next r - 1 \<le> j" using cs that by simp
qed

lemma rep_wf_update:
  assumes "rep_wf r" "length cs = MAX_THREADS_PER_REPLICA" "\<And>j. j < MAX_THREADS_PER_REPLICA \<Longrightarrow> ctx_inv (cs ! j)"
    and "length ops = MAX_THREADS_PER_REPLICA" "length cn = MAX_THREADS_PER_REPLICA"
  shows "rep_wf (r\<lparr>combiner := cb, contexts := cs, inflight := ops, change_notif := cn, buffer := buf, results := rs,
    rep_data := (rep_data r)\<lparr>rw_data := d\<rparr>, flushed := fl\<rparr>)"
  using assms by (auto simp: rep_wf_def list_all_length)

text \<open>The fields of the replica that a run over the log changes.\<close>

definition after_log :: "'op list \<Rightarrow> nat list \<Rightarrow> ('d, 'r) combine_state \<Rightarrow> ('d, 'op, 'r) nr_replica
    \<Rightarrow> ('d, 'op, 'r) nr_replica" where
  "after_log buf operations st r =
     (case st of (d, rs, cn, fl) \<Rightarrow>
        r\<lparr>buffer := buf, inflight := operations, rep_data := (rep_data r)\<lparr>rw_data := d\<rparr>, results := rs,
          change_notif := cn, flushed := fl\<rparr>)"

lemma combine_unfold:
  assumes "rep_wf r" "collect_thread_ops [1..<rep_next r] (contexts r) [] (inflight r) = Inr (buf, operations)"
    and f: "f = combine_op scr D (rep_next r) (base_addr r) (slot_size r)"
  shows "combine scr cas D l r =
    (case append scr cas buf (log_tkn r) f l (rw_data (rep_data r), [], change_notif r, flushed r) of
       Inl x \<Rightarrow> Inl x
     | Inr (Inl e, l1, st1) \<Rightarrow> Inr (Inl (NoLogSpace e), l1, after_log buf operations st1 r)
     | Inr (Inr gc, l1, st1) \<Rightarrow>
         (case exec scr (log_tkn r) f l1 st1 of
            Inl x \<Rightarrow> Inl x
          | Inr (l2, st2) \<Rightarrow>
              bind_run (distribute [1..<rep_next r] (fst (snd st2)) 0 0 operations (contexts r)) (\<lambda>(operations', cs).
                Inr (case gc of None \<Rightarrow> Inr () | Some e \<Rightarrow> Inl (GcFailed e), l2,
                     combiner_drop ((after_log buf operations st2 r)\<lparr>inflight := operations', contexts := cs\<rparr>)))))"
proof -
  have free: "rw_free (rep_data r)" using assms(1) by (rule rep_wfD)
  show ?thesis
  proof (cases "append scr cas buf (log_tkn r) f l (rw_data (rep_data r), [], change_notif r, flushed r)")
    case (Inl x)
    then show ?thesis by (simp add: combine_def Let_def assms(2) with_write_lock_free free f)
  next
    case (Inr p)
    obtain out l1 d1 rs1 cn1 fl1 where p: "p = (out, l1, d1, rs1, cn1, fl1)" by (cases p)
    show ?thesis
    proof (cases out)
      case (Inl e)
      then show ?thesis using Inr p
        by (simp add: combine_def Let_def assms(2) with_write_lock_free free f after_log_def)
    next
      case gc: (Inr gc)
      show ?thesis
      proof (cases "exec scr (log_tkn r) f l1 (d1, rs1, cn1, fl1)")
        case (Inl x)
        then show ?thesis using Inr p gc
          by (simp add: combine_def Let_def assms(2) with_write_lock_free free f)
      next
        case ex: (Inr q)
        obtain l2 d2 rs2 cn2 fl2 where q: "q = (l2, d2, rs2, cn2, fl2)" by (cases q)
        show ?thesis using Inr p gc ex q
          by (simp add: combine_def Let_def assms(2) with_write_lock_free free f after_log_def)
      qed
    qed
  qed
qed

lemma rep_inv_after_log:
  assumes "rep_inv D d0 h l r" "length operations = MAX_THREADS_PER_REPLICA"
    and "log_advanced scr (log_tkn r) (combine_op scr D n b ss) h l (rw_data (rep_data r), rs, change_notif r, fl) l' st'"
  shows "rep_inv D d0 h l' (after_log buf operations st' r)"
proof -
  obtain d' rs' cn' fl' where st': "st' = (d', rs', cn', fl')" by (cases st')
  have "ltails l ! (log_tkn r - 1) \<le> ltails l' ! (log_tkn r - 1)"
    using assms(3) by (simp add: log_advanced_def moved_def)
  then have "set (drop (ltails l' ! (log_tkn r - 1)) h) \<subseteq> set (drop (ltails l ! (log_tkn r - 1)) h)"
    by (rule set_drop_subset_set_drop)
  then show ?thesis
    using assms advanced_prefix [OF assms(3) [unfolded st']]
    by (fastforce simp: rep_inv_def rep_at_def rep_wf_def after_log_def st' log_advanced_registered)
qed

lemma combine_no_space:
  assumes rep: "rep_inv D d0 h l r" and len: "length operations = MAX_THREADS_PER_REPLICA"
    and post: "append_post scr E (batch_of r) (log_tkn r) (combine_op scr D n b ss) h l
      (rw_data (rep_data r), rs, change_notif r, fl) (Inr (Inl e, l1, st1))"
  shows "combine_post scr E D d0 h l r (Inr (Inl (NoLogSpace e), l1, after_log (batch_of r) operations st1 r))"
proof -
  from post have adv: "log_advanced scr (log_tkn r) (combine_op scr D n b ss) h l
      (rw_data (rep_data r), rs, change_notif r, fl) l1 st1" "registered l1 (Suc e)" "E e l1"
    by (simp_all add: append_post_def)
  have "contexts (after_log (batch_of r) operations st1 r) = contexts r"
    "combiner (after_log (batch_of r) operations st1 r) = combiner r"
    "same_threads r (after_log (batch_of r) operations st1 r)"
    by (simp_all add: after_log_def same_threads_def split: prod.splits)
  then show ?thesis
    using rep_inv_after_log [OF rep len adv(1)] adv log_advanced_inv [OF adv(1)] log_advanced_others [OF adv(1)]
    by (simp add: combine_post_def)
qed

lemma combine_finish:
  assumes rep: "rep_inv D d0 h l r" and t: "ltails l ! (log_tkn r - 1) \<le> length h"
    and len: "length operations = MAX_THREADS_PER_REPLICA"
    and ops: "\<And>j. j < rep_next r - 1 \<Longrightarrow> operations ! j = pending_counts r ! j"
    and adv: "log_advanced scr (log_tkn r) (combine_op scr D n b ss) (h @ entries_of (log_tkn r) (batch_of r)) l
      (rw_data (rep_data r), [], change_notif r, fl) l2 st2"
    and up: "ltails l2 ! (log_tkn r - 1) = tail l2"
    and lag: "\<forall>e. gc = Some e \<longrightarrow> lagging (log_tkn r) e l2"
  shows "combine_post scr E D d0 h l r
    (bind_run (distribute [1..<rep_next r] (fst (snd st2)) 0 0 operations (contexts r)) (\<lambda>(operations', cs).
       Inr (case gc of None \<Rightarrow> Inr () | Some e \<Rightarrow> Inl (GcFailed e), l2,
            combiner_drop ((after_log (batch_of r) operations st2 r)\<lparr>inflight := operations', contexts := cs\<rparr>))))"
proof -
  let ?i = "log_tkn r" and ?B = "batch_of r" and ?d = "rw_data (rep_data r)"
  let ?h = "h @ entries_of ?i ?B" and ?t = "ltails l ! (log_tkn r - 1)"
  have wf: "rep_wf r" using rep by (simp add: rep_inv_def)
  obtain qs where pre: "run_ops D (map fst (take ?t h)) d0 = Inr (qs, ?d)"
    and foreign: "\<forall>e\<in>set (drop ?t h). snd e \<noteq> ?i" and reg: "registered l ?i"
    using rep by (auto simp: rep_inv_def rep_at_def)
  have inv2: "log_inv scr l2 ?h" using adv by (rule log_advanced_inv)
  have up': "ltails l2 ! (?i - 1) = length ?h" using up log_invD(2) [OF inv2] by simp
  have "replay (combine_op scr D n b ss) ?i (drop ?t h @ entries_of ?i ?B) (?d, [], change_notif r, fl) = Inr st2"
    using adv up' t by (simp add: log_advanced_def moved_def segment_def)
  then obtain qs2 d1 ps d2 cn2 fl2 where
    q: "run_ops D (map fst (drop ?t h)) ?d = Inr (qs2, d1)" and p: "run_ops D ?B d1 = Inr (ps, d2)"
    and st2: "st2 = (d2, ps, cn2, fl2)" and cn2: "length cn2 = length (change_notif r)"
    unfolding combine_replay [OF foreign] by (auto simp: bind_run_Inr)
  have whole: "run_ops D (map fst h) d0 = Inr (qs @ qs2, d1)"
    using run_ops_join [OF pre q] take_drop_map [OF t] by simp
  have whole': "run_ops D (map fst ?h) d0 = Inr ((qs @ qs2) @ ps, d2)" using run_ops_join [OF whole p] by simp
  have lenp: "length ps = length ?B" using p by (rule run_ops_length)
  obtain operations' where dist: "distribute [1..<rep_next r] ps 0 0 operations (contexts r) =
      Inr (operations', answered 0 (rep_next r - 1) (chunks (pending_counts r) ps) (contexts r))"
    and len': "length operations' = MAX_THREADS_PER_REPLICA"
    using answered_served [OF wf lenp len ops] by blast
  define r' where "r' = combiner_drop ((after_log ?B operations st2 r)\<lparr>inflight := operations',
      contexts := answered 0 (rep_next r - 1) (chunks (pending_counts r) ps) (contexts r)\<rparr>)"
  have fields: "log_tkn r' = ?i" "rw_data (rep_data r') = d2" "combiner r' = 0" "same_threads r r'"
    "contexts r' = answered 0 (rep_next r - 1) (chunks (pending_counts r) ps) (contexts r)"
    by (simp_all add: r'_def combiner_drop_def after_log_def st2 same_threads_def)
  have "rep_wf r'"
    using wf len' cn2 answered_context(1) [OF wf lenp _ refl] rep_wfD(1) [OF wf]
    by (simp add: r'_def combiner_drop_def after_log_def st2 rep_wf_def answered_def list_all_length)
  then have "rep_inv D d0 ?h l2 r'"
    using whole' up' reg log_advanced_registered [OF adv] by (auto simp: rep_inv_def rep_at_def fields)
  moreover have "served D d0 h r r'" using whole p fields by (auto simp: served_def)
  ultimately show ?thesis
    using inv2 up' lag fields log_advanced_others [OF adv]
    by (cases gc) (simp_all add: combine_post_def dist st2 flip: r'_def [unfolded st2])
qed

lemma combine_spec:
  assumes inv: "log_inv scr l h" and rep: "rep_inv D d0 h l r"
    and app: "\<And>s st :: ('d, 'r) combine_state. append_post scr E (batch_of r) (log_tkn r) s h l st
      (append scr cas (batch_of r) (log_tkn r) s l st)"
  shows "combine_post scr E D d0 h l (r :: ('d, 'op, 'r) nr_replica) (combine scr cas D l r)"
proof -
  let ?f = "combine_op scr D (rep_next r) (base_addr r) (slot_size r)"
  let ?st = "(rw_data (rep_data r), [], change_notif r, flushed r)"
  have wf: "rep_wf r" and reg: "registered l (log_tkn r)" using rep by (simp_all add: rep_inv_def rep_at_def)
  have t: "ltails l ! (log_tkn r - 1) \<le> length h"
    using replicas_insideD(2) [OF log_invD(6) [OF inv] reg] log_invD(2,5) [OF inv] by simp
  obtain qs where "run_ops D (map fst (take (ltails l ! (log_tkn r - 1)) (h @ entries_of (log_tkn r) (batch_of r)))) d0
      = Inr (qs, rw_data (rep_data r))"
    using rep t by (auto simp: rep_inv_def rep_at_def)
  note failed = failed_prefix [OF _ this]
  obtain operations where coll: "collect_thread_ops [1..<rep_next r] (contexts r) [] (inflight r) = Inr (batch_of r, operations)"
    and len: "length operations = MAX_THREADS_PER_REPLICA"
    and ops: "\<And>j. j < rep_next r - 1 \<Longrightarrow> operations ! j = pending_counts r ! j"
    using combine_collect [OF wf] by blast
  note unfold = combine_unfold [OF wf coll refl] and post = app [of ?f ?st]
  show ?thesis
  proof (cases "append scr cas (batch_of r) (log_tkn r) ?f l ?st")
    case (Inl x)
    then show ?thesis using post failed by (simp add: unfold append_post_def combine_post_def)
  next
    case (Inr p)
    obtain out l1 st1 where p: "p = (out, l1, st1)" by (cases p)
    show ?thesis
    proof (cases out)
      case (Inl e)
      then show ?thesis using combine_no_space [OF rep len] post Inr p by (simp add: unfold)
    next
      case gc: (Inr gc)
      have ate: "case exec scr (log_tkn r) ?f l1 st1 of
          Inl f \<Rightarrow> log_failed (log_tkn r) ?f (h @ entries_of (log_tkn r) (batch_of r)) l ?st f
        | Inr (l2, st2) \<Rightarrow> log_advanced scr (log_tkn r) ?f (h @ entries_of (log_tkn r) (batch_of r)) l ?st l2 st2
            \<and> ltails l2 ! (log_tkn r - 1) = tail l2 \<and> (\<forall>e. gc = Some e \<longrightarrow> lagging (log_tkn r) e l2)"
        using append_then_exec [OF inv reg] post Inr p gc by simp
      show ?thesis
      proof (cases "exec scr (log_tkn r) ?f l1 st1")
        case (Inl x)
        then show ?thesis using ate failed Inr p gc by (simp add: unfold combine_post_def)
      next
        case ex: (Inr q)
        obtain l2 st2 where q: "q = (l2, st2)" by (cases q)
        with ate ex have fin: "log_advanced scr (log_tkn r) ?f (h @ entries_of (log_tkn r) (batch_of r)) l ?st l2 st2"
          "ltails l2 ! (log_tkn r - 1) = tail l2" "\<forall>e. gc = Some e \<longrightarrow> lagging (log_tkn r) e l2"
          by auto
        from combine_finish [OF rep t len ops fin, of E] show ?thesis using ex q Inr p gc by (simp add: unfold)
      qed
    qed
  qed
qed

lemma combine_any:
  assumes "log_inv scr l h" "rep_inv D d0 h l r"
  shows "combine_post scr (\<lambda>_ _. True) D d0 h l r (combine scr cas D l r)"
proof -
  have "rep_wf r" "registered l (log_tkn r)" using assms(2) by (simp_all add: rep_inv_def rep_at_def)
  then show ?thesis using assms by (intro combine_spec append_spec) (auto intro: length_batch_of)
qed

lemma combine_uncontended:
  assumes "log_inv scr l h" "rep_inv D d0 h l r" "\<And>i. cas i"
  shows "combine_post scr (lagging (log_tkn r)) D d0 h l r (combine scr cas D l r)"
proof -
  have "rep_wf r" "registered l (log_tkn r)" using assms(2) by (simp_all add: rep_inv_def rep_at_def)
  then show ?thesis using assms by (intro combine_spec append_uncontended) (auto intro: length_batch_of)
qed

section \<open>Catching up\<close>

lemma rw_write_unlock_data:
  "rw_free lk \<Longrightarrow> bind_run (rw_write n lk) (\<lambda>lk1. bind_run (g (rw_data lk1)) (\<lambda>(x, d).
     bind_run (rw_write_unlock False (lk1\<lparr>rw_data := d\<rparr>)) (k x))) =
   bind_run (g (rw_data lk)) (\<lambda>(x, d). k x (lk\<lparr>rw_data := d\<rparr>))"
  by (simp add: split_def)

lemma replica_exec_spec:
  assumes inv: "log_inv scr l h" and rep: "rep_inv D d0 h l r"
  shows "case replica_exec scr D l r of
      Inl f \<Rightarrow> \<exists>k. run_ops D (map fst (take k h)) d0 = Inl f
    | Inr (l', r') \<Rightarrow> log_inv scr l' h \<and> rep_inv D d0 h l' r' \<and> others_kept (log_tkn r) l l'
        \<and> ltails l' ! (log_tkn r - 1) = length h \<and> (\<exists>d. r' = r\<lparr>rep_data := (rep_data r)\<lparr>rw_data := d\<rparr>\<rparr>)"
proof -
  let ?i = "log_tkn r" and ?t = "ltails l ! (log_tkn r - 1)" and ?d = "rw_data (rep_data r)"
  have wf: "rep_wf r" and reg: "registered l ?i" using rep by (simp_all add: rep_inv_def rep_at_def)
  obtain qs where pre: "run_ops D (map fst (take ?t h)) d0 = Inr (qs, ?d)"
    and foreign: "\<forall>e\<in>set (drop ?t h). snd e \<noteq> ?i"
    using rep by (auto simp: rep_inv_def rep_at_def)
  have len: "tail l = length h" using log_invD(2) [OF inv] by simp
  have t: "?t \<le> length h"
    using replicas_insideD(2) [OF log_invD(6) [OF inv] reg] log_invD(2,5) [OF inv] by simp
  have ex: "exec scr ?i (sync_op D) l ?d =
      bind_run (run_ops D (map fst (drop ?t h)) ?d) (\<lambda>(_, d'). Inr (caught_up ?i l, d'))"
    using exec_replay [OF inv reg, of "sync_op D" ?d] replay_sync_op [OF foreign, of D ?d]
    by (cases "run_ops D (map fst (drop ?t h)) ?d") auto
  have unfold: "replica_exec scr D l r =
      bind_run (run_ops D (map fst (drop ?t h)) ?d) (\<lambda>(_, d').
        Inr (caught_up ?i l, r\<lparr>rep_data := (rep_data r)\<lparr>rw_data := d'\<rparr>\<rparr>))"
    using rep_wfD(5) [OF wf]
    by (simp add: replica_exec_def ex rw_write_unlock_data) (simp add: bind_run_assoc split_def)
  show ?thesis
  proof (cases "run_ops D (map fst (drop ?t h)) ?d")
    case (Inl f)
    with pre have "run_ops D (map fst (take ?t h) @ map fst (drop ?t h)) d0 = Inl f" by (simp add: run_ops_append)
    then have "run_ops D (map fst (take (length h) h)) d0 = Inl f" using take_drop_map [OF t] by simp
    then have "\<exists>k. run_ops D (map fst (take k h)) d0 = Inl f" by blast
    then show ?thesis using Inl by (simp add: unfold)
  next
    case (Inr p)
    obtain ps d' where p: "p = (ps, d')" by fastforce
    have "idx_ok": "?i - 1 < length (ltails l)" using log_wf_registered [OF log_invD(1) [OF inv] reg] by simp
    have up: "ltails (caught_up ?i l) ! (?i - 1) = length h" "next_id (caught_up ?i l) = next_id l"
      "\<forall>j. j \<noteq> ?i - 1 \<longrightarrow> ltails (caught_up ?i l) ! j = ltails l ! j"
      using "idx_ok" len by (auto simp: caught_up_def)
    have "run_ops D (map fst h) d0 = Inr (qs @ ps, d')"
      using run_ops_join [OF pre Inr [unfolded p]] take_drop_map [OF t] by simp
    then have "rep_inv D d0 h (caught_up ?i l) (r\<lparr>rep_data := (rep_data r)\<lparr>rw_data := d'\<rparr>\<rparr>)"
      using rep reg up by (auto simp: rep_inv_def rep_wf_def rep_at_def registered_def)
    then show ?thesis using Inr p up log_inv_caught_up [OF inv reg] by (auto simp: unfold others_kept_def)
  qed
qed

end
