(* ===== verification/Node_Replicated.thy ===== *)
theory Node_Replicated
  imports Nr_Replica_Inv
begin

text \<open>
  The replicated object (\<open>nr/mod.rs\<close>): one log, a replica per node, the constructors, thread
  registration, and the read and write paths that wake up replicas which lag behind.
\<close>

section \<open>Affinity\<close>

text \<open>
  The user's affinity function is a parameter \<open>af\<close> that may depend on the earlier calls; the calls
  are recorded in a trace. \<open>with_affinity\<close> is the life of an \<open>AffinityToken\<close>.
\<close>

datatype affinity_change = AffReplica nat | AffRevert nat

type_synonym affinity_fn = "affinity_change list \<Rightarrow> affinity_change \<Rightarrow> nat"

definition affinity_switch :: "affinity_fn \<Rightarrow> nat \<Rightarrow> affinity_change list \<Rightarrow> nat \<times> affinity_change list" where
  "affinity_switch af rid tr = (af tr (AffReplica rid), tr @ [AffReplica rid])"

definition affinity_drop :: "nat \<Rightarrow> affinity_change list \<Rightarrow> affinity_change list" where
  "affinity_drop old tr = tr @ [AffRevert old]"

definition with_affinity :: "affinity_fn \<Rightarrow> nat \<Rightarrow> affinity_change list \<Rightarrow> affinity_change list" where
  "with_affinity af rid tr = (case affinity_switch af rid tr of (old, tr1) \<Rightarrow> affinity_drop old tr1)"

section \<open>Construction\<close>

datatype nr_error = OutOfMemory

record thread_token =
  rid :: usize
  rtkn :: usize

record ('d, 'op, 'r) node_replicated =
  nr_log :: "'op nr_log"
  replicas :: "('d, 'op, 'r) nr_replica list"
  af_trace :: "affinity_change list"

text \<open>
  \<open>mem k\<close> tells whether the \<open>k\<close>-th allocation of a constructor succeeds: the boxed affinity function,
  the log, the vector of replicas, and then one replica each. A failed allocation inside the scope
  of an affinity token still drops the token.
\<close>

definition MAX_USIZE :: nat where
  "MAX_USIZE = 2 ^ 64 - 1"

fun build_replicas :: "(nat \<Rightarrow> ('d, 'op, 'r) nr_replica) \<Rightarrow> affinity_fn \<Rightarrow> (nat \<Rightarrow> bool) \<Rightarrow> nat list
    \<Rightarrow> ('d, 'op, 'r) node_replicated \<Rightarrow> (nr_error + ('d, 'op, 'r) node_replicated) run" where
  "build_replicas mk af mem [] nr = Inr (Inr nr)"
| "build_replicas mk af mem (replica_id # ids) nr =
     (case log_register 0 (nr_log nr) of
        (None, _) \<Rightarrow> Inl (Panic ''Succeeds (num_replicas < MAX_REPLICAS_PER_LOG)'')
      | (Some log_token, l1) \<Rightarrow>
          let tr = with_affinity af replica_id (af_trace nr)
          in if \<not> mem (3 + replica_id) then Inr (Inl OutOfMemory)
             else build_replicas mk af mem ids
                    (nr\<lparr>nr_log := l1, replicas := replicas nr @ [mk log_token], af_trace := tr\<rparr>))"

definition construct :: "bool \<Rightarrow> (nat \<Rightarrow> ('d, 'op, 'r) nr_replica) \<Rightarrow> nat \<Rightarrow> affinity_fn \<Rightarrow> (nat \<Rightarrow> bool) \<Rightarrow> nat
    \<Rightarrow> nat \<Rightarrow> (nr_error + ('d, 'op, 'r) node_replicated) run" where
  "construct numa mk num_replicas af mem esize log_size =
     (if \<not> num_replicas < MAX_REPLICAS_PER_LOG
      then Inl (Panic ''assertion failed: num_replicas.get() < MAX_REPLICAS_PER_LOG'')
      else if \<not> mem 0 then Inr (Inl OutOfMemory)
      else let tr = (if numa then with_affinity af MAX_USIZE [] else [])
           in if \<not> mem 1 then Inr (Inl OutOfMemory)
              else if \<not> mem 2 then Inr (Inl OutOfMemory)
              else build_replicas mk af mem [0..<num_replicas]
                     \<lparr>nr_log = new_with_bytes () esize log_size (), replicas = [], af_trace = tr\<rparr>)"

definition with_log_size :: "'d \<Rightarrow> nat \<Rightarrow> affinity_fn \<Rightarrow> (nat \<Rightarrow> bool) \<Rightarrow> nat \<Rightarrow> nat
    \<Rightarrow> (nr_error + ('d, 'op, 'r) node_replicated) run" where
  "with_log_size d_default num_replicas af mem esize log_size =
     construct False (\<lambda>tkn. replica_with_data tkn d_default) num_replicas af mem esize log_size"

definition with_log_size_and_struct :: "nat \<Rightarrow> affinity_fn \<Rightarrow> (nat \<Rightarrow> bool) \<Rightarrow> nat \<Rightarrow> nat \<Rightarrow> 'd
    \<Rightarrow> (nr_error + ('d, 'op, 'r) node_replicated) run" where
  "with_log_size_and_struct num_replicas af mem esize log_size data =
     construct False (\<lambda>tkn. replica_with_data tkn data) num_replicas af mem esize log_size"

definition with_log_size_and_struct_and_base_addr_numa :: "nat \<Rightarrow> affinity_fn \<Rightarrow> (nat \<Rightarrow> bool) \<Rightarrow> nat \<Rightarrow> nat \<Rightarrow> 'd
    \<Rightarrow> nat \<Rightarrow> nat \<Rightarrow> (nr_error + ('d, 'op, 'r) node_replicated) run" where
  "with_log_size_and_struct_and_base_addr_numa num_replicas af mem esize log_size data addr ssize =
     construct True (\<lambda>tkn. replica_with_data_base_addr tkn data addr ssize) num_replicas af mem esize log_size"

definition with_log_size_and_struct_numa :: "nat \<Rightarrow> affinity_fn \<Rightarrow> (nat \<Rightarrow> bool) \<Rightarrow> nat \<Rightarrow> nat \<Rightarrow> 'd
    \<Rightarrow> (nr_error + ('d, 'op, 'r) node_replicated) run" where
  "with_log_size_and_struct_numa num_replicas af mem esize log_size data =
     construct True (\<lambda>tkn. replica_with_data tkn data) num_replicas af mem esize log_size"

definition with_log_size_numa :: "'d \<Rightarrow> nat \<Rightarrow> affinity_fn \<Rightarrow> (nat \<Rightarrow> bool) \<Rightarrow> nat \<Rightarrow> nat
    \<Rightarrow> (nr_error + ('d, 'op, 'r) node_replicated) run" where
  "with_log_size_numa d_default num_replicas af mem esize log_size =
     construct True (\<lambda>tkn. replica_with_data tkn d_default) num_replicas af mem esize log_size"

definition nr_new :: "'d \<Rightarrow> nat \<Rightarrow> affinity_fn \<Rightarrow> (nat \<Rightarrow> bool) \<Rightarrow> nat
    \<Rightarrow> (nr_error + ('d, 'op, 'r) node_replicated) run" where
  "nr_new d_default num_replicas af mem esize = with_log_size d_default num_replicas af mem esize DEFAULT_LOG_BYTES"

definition nr_new_with_data :: "nat \<Rightarrow> affinity_fn \<Rightarrow> (nat \<Rightarrow> bool) \<Rightarrow> nat \<Rightarrow> 'd
    \<Rightarrow> (nr_error + ('d, 'op, 'r) node_replicated) run" where
  "nr_new_with_data num_replicas af mem esize data =
     with_log_size_and_struct num_replicas af mem esize DEFAULT_LOG_BYTES data"

definition nr_new_with_data_numa :: "nat \<Rightarrow> affinity_fn \<Rightarrow> (nat \<Rightarrow> bool) \<Rightarrow> nat \<Rightarrow> 'd
    \<Rightarrow> (nr_error + ('d, 'op, 'r) node_replicated) run" where
  "nr_new_with_data_numa num_replicas af mem esize data =
     with_log_size_and_struct_numa num_replicas af mem esize DEFAULT_LOG_BYTES data"

definition nr_new_with_data_and_base_addr_numa :: "nat \<Rightarrow> affinity_fn \<Rightarrow> (nat \<Rightarrow> bool) \<Rightarrow> nat \<Rightarrow> 'd \<Rightarrow> nat \<Rightarrow> nat
    \<Rightarrow> (nr_error + ('d, 'op, 'r) node_replicated) run" where
  "nr_new_with_data_and_base_addr_numa num_replicas af mem esize data addr ssize =
     with_log_size_and_struct_and_base_addr_numa num_replicas af mem esize DEFAULT_LOG_BYTES data addr ssize"

definition nr_new_numa :: "'d \<Rightarrow> nat \<Rightarrow> affinity_fn \<Rightarrow> (nat \<Rightarrow> bool) \<Rightarrow> nat
    \<Rightarrow> (nr_error + ('d, 'op, 'r) node_replicated) run" where
  "nr_new_numa d_default num_replicas af mem esize =
     with_log_size_numa d_default num_replicas af mem esize DEFAULT_LOG_BYTES"

definition nr_register :: "nat \<Rightarrow> ('d, 'op, 'r) node_replicated
    \<Rightarrow> thread_token option \<times> ('d, 'op, 'r) node_replicated" where
  "nr_register replica_id nr =
     (if replica_id < length (replicas nr)
      then (case replica_register 0 (replicas nr ! replica_id) of
              (None, _) \<Rightarrow> (None, nr)
            | (Some tkn, r) \<Rightarrow>
                (Some \<lparr>rid = replica_id, rtkn = tkn\<rparr>, nr\<lparr>replicas := (replicas nr)[replica_id := r]\<rparr>))
      else (None, nr))"

section \<open>Access to one replica\<close>

text \<open>Running a method of replica \<open>i\<close> on the shared log; \<open>replicas[i]\<close> panics out of range.\<close>

definition on_replica :: "nat \<Rightarrow> ('op nr_log \<Rightarrow> ('d, 'op, 'r) nr_replica \<Rightarrow> ('a \<times> 'op nr_log \<times> ('d, 'op, 'r) nr_replica) run)
    \<Rightarrow> ('d, 'op, 'r) node_replicated \<Rightarrow> ('a \<times> ('d, 'op, 'r) node_replicated) run" where
  "on_replica i m nr =
     bind_run (array_get (replicas nr) i) (\<lambda>r.
     bind_run (m (nr_log nr) r) (\<lambda>(x, l', r').
       Inr (x, nr\<lparr>nr_log := l', replicas := (replicas nr)[i := r']\<rparr>)))"

definition as_method :: "('op nr_log \<Rightarrow> ('d, 'op, 'r) nr_replica \<Rightarrow> ('op nr_log \<times> ('d, 'op, 'r) nr_replica) run)
    \<Rightarrow> 'op nr_log \<Rightarrow> ('d, 'op, 'r) nr_replica \<Rightarrow> (unit \<times> 'op nr_log \<times> ('d, 'op, 'r) nr_replica) run" where
  "as_method m l r = bind_run (m l r) (\<lambda>(l', r'). Inr ((), l', r'))"

definition switched :: "affinity_fn \<Rightarrow> nat \<Rightarrow> ('d, 'op, 'r) node_replicated \<Rightarrow> ('d, 'op, 'r) node_replicated" where
  "switched af i nr = nr\<lparr>af_trace := with_affinity af i (af_trace nr)\<rparr>"

section \<open>Writes\<close>

text \<open>
  The stack of pending work: \<open>Exec b\<close> runs the operation, with the combiner lock in hand when \<open>b\<close>,
  and \<open>SyncRep i\<close> wakes up replica \<open>i\<close>. The top is the head of the list. \<open>env n\<close> is the oracle of the
  turn with \<open>n\<close> turns left, and \<open>m\<close> the fuel of the loops inside a replica.
\<close>

datatype resolve_op = Exec bool | SyncRep nat

definition push :: "resolve_op \<Rightarrow> resolve_op list \<Rightarrow> resolve_op list run" where
  "push x q = (if length q < MAX_REPLICAS_PER_LOG then Inr (x # q) else Inl (Panic ''capacity exceeded''))"

definition try_execute_mut :: "bool \<Rightarrow> env \<Rightarrow> ('d, 'ro, 'op, 'r) dispatcher \<Rightarrow> nat \<Rightarrow> 'op \<Rightarrow> thread_token \<Rightarrow> bool
    \<Rightarrow> ('d, 'op, 'r) node_replicated \<Rightarrow> ((replica_error + 'r) \<times> ('d, 'op, 'r) node_replicated) run" where
  "try_execute_mut scr env D m oper tkn cl nr =
     on_replica (rid tkn)
       (if cl then replica_execute_mut_locked scr env D m (rtkn tkn)
        else replica_execute_mut scr env D m oper (rtkn tkn)) nr"

fun execute_mut_loop :: "bool \<Rightarrow> affinity_fn \<Rightarrow> (nat \<Rightarrow> env) \<Rightarrow> ('d, 'ro, 'op, 'r) dispatcher \<Rightarrow> nat \<Rightarrow> nat
    \<Rightarrow> resolve_op list \<Rightarrow> 'op \<Rightarrow> thread_token \<Rightarrow> ('d, 'op, 'r) node_replicated \<Rightarrow> ('r \<times> ('d, 'op, 'r) node_replicated) run" where
  "execute_mut_loop scr af env D m 0 q oper tkn nr = Inl Hang"
| "execute_mut_loop scr af env D m (Suc n) q oper tkn nr =
     (case (case q of [] \<Rightarrow> (Exec False, []) | x # q' \<Rightarrow> (x, q')) of
        (Exec cl, q') \<Rightarrow>
          bind_run (try_execute_mut scr (env n) D m oper tkn cl nr) (\<lambda>(out, nr1).
            case out of
              Inr resp \<Rightarrow> if q' = [] then Inr (resp, nr1) else Inl (Panic ''assertion failed: q.is_empty()'')
            | Inl (NoLogSpace stuck) \<Rightarrow>
                bind_run (push (Exec True) q') (\<lambda>q1.
                bind_run (push (SyncRep stuck) q1) (\<lambda>q2. execute_mut_loop scr af env D m n q2 oper tkn nr1))
            | Inl (GcFailed stuck) \<Rightarrow>
                if stuck = rid tkn then Inl (Panic ''assertion failed: stuck_ridx != tkn.rid'')
                else bind_run (on_replica stuck (as_method (replica_sync scr (env n) D m)) nr1) (\<lambda>(_, nr2).
                     bind_run (on_replica (rid tkn) (get_response scr (env n) D m (rtkn tkn)) (switched af stuck nr2)) (\<lambda>(out', nr3).
                       case out' of
                         Inr resp \<Rightarrow> Inr (resp, nr3)
                       | Inl _ \<Rightarrow> Inl (Panic ''GcFailed has to produced a response''))))
      | (SyncRep i, q') \<Rightarrow>
          bind_run (on_replica i (as_method (try_sync scr (snd (env n 0)) D)) nr) (\<lambda>(_, nr1).
            execute_mut_loop scr af env D m n q' oper tkn (switched af i nr1)))"

definition execute_mut :: "bool \<Rightarrow> affinity_fn \<Rightarrow> (nat \<Rightarrow> env) \<Rightarrow> ('d, 'ro, 'op, 'r) dispatcher \<Rightarrow> nat \<Rightarrow> nat
    \<Rightarrow> 'op \<Rightarrow> thread_token \<Rightarrow> ('d, 'op, 'r) node_replicated \<Rightarrow> ('r \<times> ('d, 'op, 'r) node_replicated) run" where
  "execute_mut scr af env D m n oper tkn nr = execute_mut_loop scr af env D m n [] oper tkn nr"

section \<open>Reads\<close>

text \<open>
  The three read paths differ in the method of the replica. \<open>read_loop\<close> is the loop they share: it
  starts with \<open>Exec False\<close> on the stack and panics when the stack is empty.
\<close>

definition try_execute :: "bool \<Rightarrow> env \<Rightarrow> ('d, 'ro, 'op, 'r) dispatcher \<Rightarrow> nat \<Rightarrow> 'ro \<Rightarrow> thread_token \<Rightarrow> bool
    \<Rightarrow> ('d, 'op, 'r) node_replicated \<Rightarrow> ((replica_error + 'r) \<times> ('d, 'op, 'r) node_replicated) run" where
  "try_execute scr env D m ro tkn cl nr =
     on_replica (rid tkn)
       (if cl then replica_execute_locked scr (fst (env 0)) D ro (rtkn tkn)
        else replica_execute scr env D m ro (rtkn tkn)) nr"

definition try_execute_anchor :: "bool \<Rightarrow> env \<Rightarrow> ('d, 'ro, 'op, 'r) dispatcher \<Rightarrow> nat \<Rightarrow> 'ro \<Rightarrow> thread_token \<Rightarrow> bool
    \<Rightarrow> ('d, 'op, 'r) node_replicated \<Rightarrow> ((replica_error + 'r) \<times> ('d, 'op, 'r) node_replicated) run" where
  "try_execute_anchor scr env D m ro tkn cl nr =
     on_replica (rid tkn)
       (if cl then replica_execute_locked_anchor scr (fst (env 0)) D ro (rtkn tkn)
        else replica_execute_anchor scr env D m ro (rtkn tkn)) nr"

definition try_execute_loose :: "bool \<Rightarrow> env \<Rightarrow> ('d, 'ro, 'op, 'r) dispatcher \<Rightarrow> nat \<Rightarrow> 'ro \<Rightarrow> thread_token \<Rightarrow> bool
    \<Rightarrow> ('d, 'op, 'r) node_replicated \<Rightarrow> ((replica_error + 'r) \<times> ('d, 'op, 'r) node_replicated) run" where
  "try_execute_loose scr env D m ro tkn cl nr =
     on_replica (rid tkn)
       (if cl then replica_execute_locked scr (fst (env 0)) D ro (rtkn tkn)
        else (\<lambda>l r. bind_run (replica_execute_loose D ro (rtkn tkn) r) (\<lambda>(resp, r'). Inr (Inr resp, l, r')))) nr"

fun read_loop :: "bool \<Rightarrow> affinity_fn \<Rightarrow> (nat \<Rightarrow> env) \<Rightarrow> ('d, 'ro, 'op, 'r) dispatcher \<Rightarrow> nat
    \<Rightarrow> (env \<Rightarrow> bool \<Rightarrow> ('d, 'op, 'r) node_replicated \<Rightarrow> ((replica_error + 'r) \<times> ('d, 'op, 'r) node_replicated) run)
    \<Rightarrow> resolve_op list \<Rightarrow> thread_token \<Rightarrow> ('d, 'op, 'r) node_replicated \<Rightarrow> ('r \<times> ('d, 'op, 'r) node_replicated) run" where
  "read_loop scr af env D 0 try q tkn nr = Inl Hang"
| "read_loop scr af env D (Suc n) try q tkn nr =
     (case q of
        [] \<Rightarrow> Inl unwrap_panic
      | Exec cl # q' \<Rightarrow>
          bind_run (try (env n) cl nr) (\<lambda>(out, nr1).
            case out of
              Inr resp \<Rightarrow> if q' = [] then Inr (resp, nr1) else Inl (Panic ''assertion failed: q.is_empty()'')
            | Inl (NoLogSpace stuck) \<Rightarrow>
                if stuck = rid tkn then Inl (Panic ''assertion failed: stuck_ridx != tkn.rid'')
                else bind_run (push (Exec True) q') (\<lambda>q1.
                     bind_run (push (SyncRep stuck) q1) (\<lambda>q2. read_loop scr af env D n try q2 tkn nr1))
            | Inl (GcFailed stuck) \<Rightarrow>
                if stuck = rid tkn then Inl (Panic ''assertion failed: stuck_ridx != tkn.rid'')
                else bind_run (push (Exec False) q') (\<lambda>q1.
                     bind_run (push (SyncRep stuck) q1) (\<lambda>q2. read_loop scr af env D n try q2 tkn nr1)))
      | SyncRep i # q' \<Rightarrow>
          bind_run (on_replica i (as_method (try_sync scr (snd (env n 0)) D)) nr) (\<lambda>(_, nr1).
            read_loop scr af env D n try q' tkn (switched af i nr1)))"

definition execute :: "bool \<Rightarrow> affinity_fn \<Rightarrow> (nat \<Rightarrow> env) \<Rightarrow> ('d, 'ro, 'op, 'r) dispatcher \<Rightarrow> nat \<Rightarrow> nat
    \<Rightarrow> 'ro \<Rightarrow> thread_token \<Rightarrow> ('d, 'op, 'r) node_replicated \<Rightarrow> ('r \<times> ('d, 'op, 'r) node_replicated) run" where
  "execute scr af env D m n ro tkn nr =
     bind_run (push (Exec False) []) (\<lambda>q.
       read_loop scr af env D n (\<lambda>e. try_execute scr e D m ro tkn) q tkn nr)"

definition execute_anchor :: "bool \<Rightarrow> affinity_fn \<Rightarrow> (nat \<Rightarrow> env) \<Rightarrow> ('d, 'ro, 'op, 'r) dispatcher \<Rightarrow> nat \<Rightarrow> nat
    \<Rightarrow> 'ro \<Rightarrow> thread_token \<Rightarrow> ('d, 'op, 'r) node_replicated \<Rightarrow> ('r \<times> ('d, 'op, 'r) node_replicated) run" where
  "execute_anchor scr af env D m n ro tkn nr =
     bind_run (push (Exec False) []) (\<lambda>q.
       read_loop scr af env D n (\<lambda>e. try_execute_anchor scr e D m ro tkn) q tkn nr)"

definition execute_loose :: "bool \<Rightarrow> affinity_fn \<Rightarrow> (nat \<Rightarrow> env) \<Rightarrow> ('d, 'ro, 'op, 'r) dispatcher \<Rightarrow> nat \<Rightarrow> nat
    \<Rightarrow> 'ro \<Rightarrow> thread_token \<Rightarrow> ('d, 'op, 'r) node_replicated \<Rightarrow> ('r \<times> ('d, 'op, 'r) node_replicated) run" where
  "execute_loose scr af env D m n ro tkn nr =
     bind_run (push (Exec False) []) (\<lambda>q.
       read_loop scr af env D n (\<lambda>e. try_execute_loose scr e D m ro tkn) q tkn nr)"

definition nr_sync :: "bool \<Rightarrow> env \<Rightarrow> ('d, 'ro, 'op, 'r) dispatcher \<Rightarrow> nat \<Rightarrow> thread_token
    \<Rightarrow> ('d, 'op, 'r) node_replicated \<Rightarrow> (unit \<times> ('d, 'op, 'r) node_replicated) run" where
  "nr_sync scr env D m tkn nr = on_replica (rid tkn) (as_method (replica_sync scr env D m)) nr"

fun log_sync_loop :: "bool \<Rightarrow> env \<Rightarrow> ('d, 'ro, 'op, 'r) dispatcher \<Rightarrow> nat \<Rightarrow> nat list
    \<Rightarrow> ('d, 'op, 'r) node_replicated \<Rightarrow> ('d, 'op, 'r) node_replicated run" where
  "log_sync_loop scr env D m [] nr = Inr nr"
| "log_sync_loop scr env D m (i # is) nr =
     bind_run (on_replica i (as_method (sync_for_read scr env D m)) nr) (\<lambda>(_, nr1). log_sync_loop scr env D m is nr1)"

definition log_sync_numa :: "bool \<Rightarrow> env \<Rightarrow> ('d, 'ro, 'op, 'r) dispatcher \<Rightarrow> nat
    \<Rightarrow> ('d, 'op, 'r) node_replicated \<Rightarrow> ('d, 'op, 'r) node_replicated run" where
  "log_sync_numa scr env D m nr = log_sync_loop scr env D m [0..<length (replicas nr)] nr"

section \<open>Coherence checks\<close>

definition nr_check_coherence :: "('d, 'ro, 'op, 'r) dispatcher \<Rightarrow> 'r \<Rightarrow> thread_token
    \<Rightarrow> ('d, 'op, 'r) node_replicated \<Rightarrow> (bool \<times> ('d, 'op, 'r) node_replicated) run" where
  "nr_check_coherence D resp tkn nr =
     on_replica (rid tkn) (\<lambda>l r. bind_run (check_coherence D resp (rtkn tkn) r) (\<lambda>(b, r'). Inr (b, l, r'))) nr"

definition nr_reset_coherence :: "('d, 'ro, 'op, 'r) dispatcher \<Rightarrow> 'r \<Rightarrow> thread_token
    \<Rightarrow> ('d, 'op, 'r) node_replicated \<Rightarrow> (unit \<times> ('d, 'op, 'r) node_replicated) run" where
  "nr_reset_coherence D resp tkn nr =
     on_replica (rid tkn) (\<lambda>l r. bind_run (reset_coherence D resp r) (\<lambda>r'. Inr ((), l, r'))) nr"

definition nr_check_coherence_reset :: "('d, 'ro, 'op, 'r) dispatcher \<Rightarrow> 'r \<Rightarrow> thread_token
    \<Rightarrow> ('d, 'op, 'r) node_replicated \<Rightarrow> (bool \<times> ('d, 'op, 'r) node_replicated) run" where
  "nr_check_coherence_reset D resp tkn nr =
     on_replica (rid tkn) (\<lambda>l r. bind_run (check_coherence_reset D resp r) (\<lambda>(b, r'). Inr (b, l, r'))) nr"

definition nr_check_notification_reset :: "thread_token
    \<Rightarrow> ('d, 'op, 'r) node_replicated \<Rightarrow> (bool \<times> ('d, 'op, 'r) node_replicated) run" where
  "nr_check_notification_reset tkn nr =
     on_replica (rid tkn) (\<lambda>l r. bind_run (check_notification_reset (rtkn tkn) r) (\<lambda>(b, r'). Inr (b, l, r'))) nr"

end
