(* ===== verification/Nr_Linear.thy ===== *)
theory Nr_Linear
  imports Node_Replicated
begin

text \<open>
  The replicated object behaves like the sequential data structure: a write appends its operation
  to the history and returns the response of the sequential execution, a read returns what the
  sequential state answers. The write path is proved to terminate, whatever replicas lag behind.
\<close>

section \<open>The invariant of the object\<close>

definition nr_inv :: "bool \<Rightarrow> ('d, 'ro, 'op, 'r) dispatcher \<Rightarrow> 'd \<Rightarrow> 'op history
    \<Rightarrow> ('d, 'op, 'r) node_replicated \<Rightarrow> bool" where
  "nr_inv scr D d0 h nr \<longleftrightarrow>
     log_inv scr (nr_log nr) h \<and> next_id (nr_log nr) = length (replicas nr) + 1
     \<and> (\<forall>i<length (replicas nr). rep_inv D d0 h (nr_log nr) (replicas nr ! i) \<and> log_tkn (replicas nr ! i) = i + 1)"

text \<open>No call is in progress at the replica.\<close>

definition rep_idle :: "('d, 'op, 'r) nr_replica \<Rightarrow> bool" where
  "rep_idle r \<longleftrightarrow> combiner r = 0 \<and> (\<forall>j<MAX_THREADS_PER_REPLICA. answers (contexts r ! j) = [] \<and> pending_ops (contexts r ! j) = [])"

definition nr_quiet :: "('d, 'op, 'r) node_replicated \<Rightarrow> bool" where
  "nr_quiet nr \<longleftrightarrow> (\<forall>i<length (replicas nr). rep_idle (replicas nr ! i)) \<and> ctail (nr_log nr) = tail (nr_log nr)"

definition token_ok :: "thread_token \<Rightarrow> ('d, 'op, 'r) node_replicated \<Rightarrow> bool" where
  "token_ok tkn nr \<longleftrightarrow> rid tkn < length (replicas nr) \<and> 1 \<le> rtkn tkn \<and> rtkn tkn < rep_next (replicas nr ! rid tkn)"

definition uncontended :: "(nat \<Rightarrow> env) \<Rightarrow> bool" where
  "uncontended env \<longleftrightarrow> (\<forall>n m. (\<forall>i. fst (env n m) i) \<and> snd (env n m))"

lemma nr_invD:
  assumes "nr_inv scr D d0 h nr"
  shows "log_inv scr (nr_log nr) h" "next_id (nr_log nr) = length (replicas nr) + 1"
    "\<And>i. i < length (replicas nr) \<Longrightarrow> rep_inv D d0 h (nr_log nr) (replicas nr ! i)"
    "\<And>i. i < length (replicas nr) \<Longrightarrow> log_tkn (replicas nr ! i) = i + 1"
    "\<And>i. registered (nr_log nr) i \<longleftrightarrow> 1 \<le> i \<and> i \<le> length (replicas nr)"
    "\<And>i. i < length (replicas nr) \<Longrightarrow> ltails (nr_log nr) ! i \<le> length h"
proof -
  show inv: "log_inv scr (nr_log nr) h" and next_id: "next_id (nr_log nr) = length (replicas nr) + 1"
    and "\<And>i. i < length (replicas nr) \<Longrightarrow> rep_inv D d0 h (nr_log nr) (replicas nr ! i)"
    "\<And>i. i < length (replicas nr) \<Longrightarrow> log_tkn (replicas nr ! i) = i + 1"
    using assms by (auto simp: nr_inv_def)
  show reg: "\<And>i. registered (nr_log nr) i \<longleftrightarrow> 1 \<le> i \<and> i \<le> length (replicas nr)"
    using next_id by (auto simp: registered_def)
  show "ltails (nr_log nr) ! i \<le> length h" if "i < length (replicas nr)" for i
    using replicas_insideD(2) [OF log_invD(6) [OF inv], of "i + 1"] log_invD(2,5) [OF inv] reg [of "i + 1"] that
    by simp
qed

lemma nr_inv_update:
  assumes inv: "nr_inv scr D d0 h nr" and i: "i < length (replicas nr)"
    and log: "log_inv scr l' (h @ h')" and rep: "rep_inv D d0 (h @ h') l' r'" "log_tkn r' = i + 1"
    and kept: "others_kept (i + 1) (nr_log nr) l'" and own: "\<forall>e\<in>set h'. snd e = i + 1"
  shows "nr_inv scr D d0 (h @ h') (nr\<lparr>nr_log := l', replicas := (replicas nr)[i := r']\<rparr>)"
proof -
  note I = nr_invD [OF inv]
  have "rep_inv D d0 (h @ h') l' (replicas nr ! j)" if "j < length (replicas nr)" "j \<noteq> i" for j
    using rep_inv_others [OF I(3) [OF that(1)] kept, of h'] own I(4,6) [OF that(1)] that by auto
  then show ?thesis
    using log rep kept I(2,4) i by (auto simp: nr_inv_def others_kept_def nth_list_update)
qed

lemma nr_inv_trace [simp]: "nr_inv scr D d0 h (switched af i nr) = nr_inv scr D d0 h nr"
  by (simp add: nr_inv_def switched_def)

lemma switched_simps [simp]:
  "nr_log (switched af i nr) = nr_log nr" "replicas (switched af i nr) = replicas nr"
  by (simp_all add: switched_def)

section \<open>One call\<close>

text \<open>
  Thread \<open>tid\<close> of the replica has the one pending operation \<open>oper\<close>; \<open>called\<close>: it has its answer.
\<close>

definition calling :: "nat \<Rightarrow> 'op \<Rightarrow> ('d, 'op, 'r) nr_replica \<Rightarrow> bool" where
  "calling tid oper r \<longleftrightarrow> (\<forall>j<MAX_THREADS_PER_REPLICA. answers (contexts r ! j) = []
     \<and> pending_ops (contexts r ! j) = (if j = tid - 1 then [(oper, ())] else []))"

definition called :: "nat \<Rightarrow> 'r \<Rightarrow> ('d, 'op, 'r) nr_replica \<Rightarrow> bool" where
  "called tid resp r \<longleftrightarrow> combiner r = 0 \<and> (\<forall>j<MAX_THREADS_PER_REPLICA. pending_ops (contexts r ! j) = []
     \<and> answers (contexts r ! j) = (if j = tid - 1 then [resp] else []))"

lemma concat_single:
  "k < length xss \<Longrightarrow> (\<And>j. j < length xss \<Longrightarrow> j \<noteq> k \<Longrightarrow> xss ! j = []) \<Longrightarrow> concat xss = xss ! k"
proof (induction xss arbitrary: k)
  case (Cons xs xss)
  show ?case
  proof (cases k)
    case 0
    then have "xss ! j = []" if "j < length xss" for j using Cons.prems(2) [of "Suc j"] that by simp
    then have "concat xss = []" by (auto simp: in_set_conv_nth)
    then show ?thesis using 0 by simp
  next
    case (Suc i)
    then have "xs = []" using Cons.prems(2) [of 0] by simp
    moreover have "concat xss = xss ! i"
    proof (rule Cons.IH)
      show "xss ! j = []" if "j < length xss" "j \<noteq> i" for j using Cons.prems(2) [of "Suc j"] Suc that by simp
    qed (use Cons.prems(1) Suc in simp)
    ultimately show ?thesis using Suc by simp
  qed
qed simp

lemma calling_batch:
  assumes "rep_wf r" "calling tid oper r" "1 \<le> tid" "tid < rep_next r"
  shows "batch_of r = [oper]"
    and "length (pending_counts r) = rep_next r - 1" "tid - 1 < rep_next r - 1"
    and "\<And>j. j < rep_next r - 1 \<Longrightarrow> pending_counts r ! j = (if j = tid - 1 then 1 else 0)"
proof -
  note W = rep_wfD [OF assms(1)]
  show lt: "tid - 1 < rep_next r - 1" and len: "length (pending_counts r) = rep_next r - 1"
    using assms(3,4) W by (simp_all add: pending_counts_def)
  show "\<And>j. j < rep_next r - 1 \<Longrightarrow> pending_counts r ! j = (if j = tid - 1 then 1 else 0)"
    using assms(2) W by (simp add: pending_counts_def calling_def)
  show "batch_of r = [oper]"
    unfolding batch_of_def using assms(2) W lt
    by (subst concat_single [of "tid - 1"]) (auto simp: calling_def)
qed

lemma calling_answered:
  assumes "rep_wf r" "calling tid oper r" "1 \<le> tid" "tid < rep_next r"
    and "contexts r' = answered 0 (rep_next r - 1) (chunks (pending_counts r) [resp]) (contexts r)" "combiner r' = 0"
  shows "called tid resp r'"
proof -
  note B = calling_batch [OF assms(1-4)] and W = rep_wfD [OF assms(1)]
  let ?ch = "chunks (pending_counts r) [resp]"
  have sum: "length [resp] = sum_list (pending_counts r)"
    using B(1) length_batch_counts [of r] by simp
  have len: "length (?ch ! j) = (if j = tid - 1 then 1 else 0)" if "j < rep_next r - 1" for j
    using that B length_nth_chunks [OF sum, of j] by simp
  have "set (?ch ! (tid - 1)) \<subseteq> {resp}"
    using concat_chunks [OF sum] B(2,3) nth_mem [of "tid - 1" ?ch] by (metis UN_upper length_chunks list.set(1,2) set_concat)
  then have own: "?ch ! (tid - 1) = [resp]" using len [OF B(3)] by (cases "?ch ! (tid - 1)") auto
  show ?thesis
    unfolding called_def
  proof (intro conjI allI impI)
    show "combiner r' = 0" by fact
    fix j assume j: "j < MAX_THREADS_PER_REPLICA"
    note A = answered_context [OF assms(1) _ j assms(5), unfolded B(1)]
    show "pending_ops (contexts r' ! j) = []" "answers (contexts r' ! j) = (if j = tid - 1 then [resp] else [])"
      using A(2,3) assms(2) j own len [of j] B(3) by (cases "j < rep_next r - 1"; auto simp: calling_def)+
  qed
qed

lemma run_ops_prefix: "run_ops D xs d = Inr y \<Longrightarrow> run_ops D (take k xs) d \<noteq> Inl f"
  using run_ops_append [of D "take k xs" "drop k xs" d] by (cases "run_ops D (take k xs) d") auto

text \<open>Combining for one caller, without contention.\<close>

lemma combine_calling:
  assumes inv: "log_inv scr l h" and rep: "rep_inv D d0 h l r" and call: "calling tid oper r" "1 \<le> tid" "tid < rep_next r"
    and run: "run_ops D (map fst h) d0 = Inr (qs, d)" "dispatch_mut D oper d = Inr (resp, d')" and cas: "\<forall>i. cas i"
  shows "\<exists>res l' r'. combine scr cas D l r = Inr (res, l', r') \<and> others_kept (log_tkn r) l l' \<and> same_threads r r'
    \<and> (case res of
         Inl (NoLogSpace e) \<Rightarrow> log_inv scr l' h \<and> rep_inv D d0 h l' r' \<and> calling tid oper r' \<and> combiner r' = combiner r
           \<and> lagging (log_tkn r) e l'
       | _ \<Rightarrow> log_inv scr l' (h @ [(oper, log_tkn r)]) \<and> rep_inv D d0 (h @ [(oper, log_tkn r)]) l' r'
           \<and> ltails l' ! (log_tkn r - 1) = tail l' \<and> called tid resp r'
           \<and> (\<forall>e. res = Inl (GcFailed e) \<longrightarrow> lagging (log_tkn r) e l'))"
proof -
  have wf: "rep_wf r" using rep by (simp add: rep_inv_def)
  note B = calling_batch [OF wf call]
  have ent: "entries_of (log_tkn r) [oper] = [(oper, log_tkn r)]" by (simp add: entries_of_def)
  have "run_ops D (map fst (h @ [(oper, log_tkn r)])) d0 = Inr (qs @ [resp], d')"
    using run by (simp add: run_ops_append)
  then have no_fail: "run_ops D (map fst (take k (h @ [(oper, log_tkn r)]))) d0 \<noteq> Inl f" for k f
    using run_ops_prefix by (simp only: take_map [symmetric])
  note post = combine_uncontended [where cas = cas, OF inv rep cas [rule_format], unfolded combine_post_def B(1) ent Let_def]
  have "combine scr cas D l r \<noteq> Inl f" for f using post no_fail by (cases "combine scr cas D l r") simp_all
  then obtain res l' r' where out: "combine scr cas D l r = Inr (res, l', r')"
    by (cases "combine scr cas D l r") auto
  note P = post [unfolded out sum.case prod.case]
  have called: "called tid resp r'" if "served D d0 h r r'" "combiner r' = 0"
    using that run calling_answered [OF wf call, of r' resp] by (auto simp: served_def B(1))
  have tail: "length (h @ [(oper, log_tkn r)]) = tail l'" if "log_inv scr l' (h @ [(oper, log_tkn r)])"
    using log_invD(2) [OF that] by simp
  show ?thesis
  proof (cases "\<exists>e. res = Inl (NoLogSpace e)")
    case True
    then show ?thesis using P out call by (auto simp: calling_def)
  next
    case False
    then show ?thesis using P out called tail by (auto split: sum.splits replica_error.splits)
  qed
qed

lemma get_response_called:
  assumes "called tid resp r" "rep_wf r" "1 \<le> tid" "tid < rep_next r"
  shows "\<exists>c. get_response scr env D m tid l r = Inr (Inr resp, l, r\<lparr>contexts := (contexts r)[tid - 1 := c]\<rparr>)
    \<and> rep_idle (r\<lparr>contexts := (contexts r)[tid - 1 := c]\<rparr>) \<and> rep_wf (r\<lparr>contexts := (contexts r)[tid - 1 := c]\<rparr>)"
proof -
  note W = rep_wfD [OF assms(2)]
  have t: "tid - 1 < MAX_THREADS_PER_REPLICA" using assms(3,4) W(8) by linarith
  have ctx: "ctx_inv (contexts r ! (tid - 1))" "answers (contexts r ! (tid - 1)) = [resp]"
    "pending_ops (contexts r ! (tid - 1)) = []"
    using W t assms(1) by (simp_all add: list_all_length called_def)
  from cb.get_some [OF ctx(1,2)] obtain c where c: "context_res (contexts r ! (tid - 1)) = Inr (Some resp, c)"
    "ctx_inv c" "answers c = []" "pending_ops c = []" using ctx(3) by auto
  have "get_response scr env D m tid l r = Inr (Inr resp, l, r\<lparr>contexts := (contexts r)[tid - 1 := c]\<rparr>)"
    using assms(3) W(1) t c(1) by (subst get_response.simps) (simp add: Let_def)
  moreover have "rep_idle (r\<lparr>contexts := (contexts r)[tid - 1 := c]\<rparr>)"
    using assms(1) c t W(1) by (auto simp: rep_idle_def called_def nth_list_update)
  moreover have "rep_wf (r\<lparr>contexts := (contexts r)[tid - 1 := c]\<rparr>)"
    using assms(2) c(2) t by (auto simp: rep_wf_def list_all_length nth_list_update)
  ultimately show ?thesis by blast
qed

text \<open>Catching up an idle replica.\<close>

lemma try_sync_idle:
  assumes "log_inv scr l h" "rep_inv D d0 h l r" "rep_idle r" "run_ops D (map fst h) d0 = Inr y"
  shows "\<exists>l' r'. try_sync scr True D l r = Inr (l', r') \<and> log_inv scr l' h \<and> rep_inv D d0 h l' r'
    \<and> others_kept (log_tkn r) l l' \<and> ltails l' ! (log_tkn r - 1) = length h \<and> rep_idle r' \<and> same_threads r r'"
proof -
  let ?r = "r\<lparr>combiner := 1\<rparr>"
  have rep: "rep_inv D d0 h l ?r" using assms(2) by (simp add: rep_inv_def rep_wf_def rep_at_def)
  have no_fail: "run_ops D (map fst (take k h)) d0 \<noteq> Inl f" for k f
    using run_ops_prefix [OF assms(4), of k f] by (simp add: take_map)
  note spec = replica_exec_spec [OF assms(1) rep]
  have "replica_exec scr D l ?r \<noteq> Inl f" for f using spec no_fail by (cases "replica_exec scr D l ?r") simp_all
  then obtain l1 r1 where "replica_exec scr D l ?r = Inr (l1, r1)" by (cases "replica_exec scr D l ?r") auto
  with spec obtain l' r' d where
    ex: "replica_exec scr D l ?r = Inr (l', r')" and "log_inv scr l' h" "rep_inv D d0 h l' r'"
    "others_kept (log_tkn r) l l'" "ltails l' ! (log_tkn r - 1) = length h"
    and r': "r' = ?r\<lparr>rep_data := (rep_data r)\<lparr>rw_data := d\<rparr>\<rparr>"
    by auto
  moreover have "rep_inv D d0 h l' (combiner_drop r')"
    using \<open>rep_inv D d0 h l' r'\<close> by (simp add: rep_inv_def rep_wf_def rep_at_def combiner_drop_def)
  moreover have "rep_idle (combiner_drop r')" "same_threads r (combiner_drop r')"
    using assms(3) by (simp_all add: r' rep_idle_def combiner_drop_def same_threads_def)
  moreover have "try_sync scr True D l r = Inr (l', combiner_drop r')"
    using assms(3) ex by (simp add: try_sync_def acquire_combiner_lock_def rep_idle_def)
  ultimately show ?thesis by blast
qed

section \<open>The write path\<close>

definition same_shape :: "('d, 'op, 'r) node_replicated \<Rightarrow> ('d, 'op, 'r) node_replicated \<Rightarrow> bool" where
  "same_shape nr nr' \<longleftrightarrow> length (replicas nr') = length (replicas nr)
     \<and> (\<forall>i<length (replicas nr). rep_next (replicas nr' ! i) = rep_next (replicas nr ! i))"

lemma same_shape_trans: "same_shape a b \<Longrightarrow> same_shape b c \<Longrightarrow> same_shape a c"
  by (simp add: same_shape_def)

lemma same_shape_token: "same_shape nr nr' \<Longrightarrow> token_ok tkn nr \<Longrightarrow> token_ok tkn nr'"
  by (simp add: same_shape_def token_ok_def)

lemma same_shape_switched [simp]: "same_shape nr (switched af i nr') = same_shape nr nr'"
  by (simp add: same_shape_def)

lemma same_shape_update:
  "i < length (replicas nr) \<Longrightarrow> same_threads (replicas nr ! i) r' \<Longrightarrow>
     same_shape nr (nr\<lparr>nr_log := l', replicas := (replicas nr)[i := r']\<rparr>)"
  by (auto simp: same_shape_def same_threads_def nth_list_update)

text \<open>The replica of the calling thread holds its combiner lock and all others are idle.\<close>

definition in_call :: "bool \<Rightarrow> ('d, 'ro, 'op, 'r) dispatcher \<Rightarrow> 'd \<Rightarrow> 'op history \<Rightarrow> 'op \<Rightarrow> thread_token
    \<Rightarrow> ('d, 'op, 'r) node_replicated \<Rightarrow> bool" where
  "in_call scr D d0 h oper tkn nr \<longleftrightarrow>
     nr_inv scr D d0 h nr \<and> token_ok tkn nr \<and> calling (rtkn tkn) oper (replicas nr ! rid tkn)
     \<and> (\<forall>i<length (replicas nr). i \<noteq> rid tkn \<longrightarrow> rep_idle (replicas nr ! i))"

text \<open>The replicas that have not seen the whole history.\<close>

definition lags :: "('d, 'op, 'r) node_replicated \<Rightarrow> nat" where
  "lags nr = card {i. i < length (replicas nr) \<and> ltails (nr_log nr) ! i < tail (nr_log nr)}"

lemma lags_switched [simp]: "lags (switched af i nr) = lags nr"
  by (simp add: lags_def)

lemma in_call_switched [simp]: "in_call scr D d0 h oper tkn (switched af i nr) = in_call scr D d0 h oper tkn nr"
  by (simp add: in_call_def token_ok_def)

lemma on_replica_eq:
  "i < length (replicas nr) \<Longrightarrow> m (nr_log nr) (replicas nr ! i) = Inr (x, l', r') \<Longrightarrow>
     on_replica i m nr = Inr (x, nr\<lparr>nr_log := l', replicas := (replicas nr)[i := r']\<rparr>)"
  by (simp add: on_replica_def)

text \<open>Moving one replica forward on an unchanged history never makes another one lag.\<close>

lemma lags_update:
  assumes "nr_inv scr D d0 h nr" "i < length (replicas nr)" "log_inv scr l' h" "others_kept (i + 1) (nr_log nr) l'"
    and "ltails l' ! i = tail l'"
  shows "lags (nr\<lparr>nr_log := l', replicas := (replicas nr)[i := r']\<rparr>) + (if ltails (nr_log nr) ! i < tail (nr_log nr) then 1 else 0)
    = lags nr"
proof -
  let ?L = "{j. j < length (replicas nr) \<and> ltails (nr_log nr) ! j < tail (nr_log nr)}"
  have tail: "tail l' = tail (nr_log nr)" using log_invD(2) [OF assms(3)] log_invD(2) [OF nr_invD(1) [OF assms(1)]] by simp
  have other: "ltails l' ! j = ltails (nr_log nr) ! j" if "j \<noteq> i" for j using assms(4) that by (simp add: others_kept_def)
  have "{j. j < length (replicas nr) \<and> ltails l' ! j < tail l'} = ?L - {i}"
    by (rule set_eqI, rename_tac j, case_tac "j = i") (simp_all add: assms(5) other tail [symmetric])
  then have new: "lags (nr\<lparr>nr_log := l', replicas := (replicas nr)[i := r']\<rparr>) = card (?L - {i})" by (simp add: lags_def)
  show ?thesis
  proof (cases "ltails (nr_log nr) ! i < tail (nr_log nr)")
    case True
    then have "Suc (card (?L - {i})) = card ?L" using assms(2) by (intro card_Suc_Diff1) auto
    then show ?thesis using True new by (simp add: lags_def)
  next
    case False
    then show ?thesis using new by (simp add: lags_def)
  qed
qed

lemma sync_other:
  assumes inv: "nr_inv scr D d0 h nr" and e: "e < length (replicas nr)" "rep_idle (replicas nr ! e)"
    and run: "run_ops D (map fst h) d0 = Inr y"
  shows "\<exists>l' r'. on_replica e (as_method (try_sync scr True D)) nr = Inr ((), nr\<lparr>nr_log := l', replicas := (replicas nr)[e := r']\<rparr>)
    \<and> nr_inv scr D d0 h (nr\<lparr>nr_log := l', replicas := (replicas nr)[e := r']\<rparr>)
    \<and> same_shape nr (nr\<lparr>nr_log := l', replicas := (replicas nr)[e := r']\<rparr>)
    \<and> rep_idle r' \<and> others_kept (e + 1) (nr_log nr) l' \<and> log_inv scr l' h \<and> ltails l' ! e = tail l'"
proof -
  note I = nr_invD [OF inv]
  from try_sync_idle [OF I(1) I(3) [OF e(1)] e(2) run] obtain l' r' where
    s: "try_sync scr True D (nr_log nr) (replicas nr ! e) = Inr (l', r')" "log_inv scr l' h" "rep_inv D d0 h l' r'"
    "others_kept (e + 1) (nr_log nr) l'" "ltails l' ! e = length h" "rep_idle r'" "same_threads (replicas nr ! e) r'"
    using I(4) [OF e(1)] by auto
  have "nr_inv scr D d0 h (nr\<lparr>nr_log := l', replicas := (replicas nr)[e := r']\<rparr>)"
    using nr_inv_update [OF inv e(1), of l' "[]" r'] s I(4) [OF e(1)] by (simp add: same_threads_def)
  moreover have "on_replica e (as_method (try_sync scr True D)) nr = Inr ((), nr\<lparr>nr_log := l', replicas := (replicas nr)[e := r']\<rparr>)"
    using e(1) s(1) by (intro on_replica_eq) (simp_all add: as_method_def)
  ultimately show ?thesis using s same_shape_update [OF e(1) s(7)] log_invD(2) [OF s(2)] by auto
qed

lemma sync_round:
  assumes call: "in_call scr D d0 h oper tkn nr" and e: "e < length (replicas nr)" "e \<noteq> rid tkn"
    and lag: "ltails (nr_log nr) ! e < tail (nr_log nr)" and run: "run_ops D (map fst h) d0 = Inr y"
  shows "\<exists>nr'. on_replica e (as_method (try_sync scr True D)) nr = Inr ((), nr')
    \<and> in_call scr D d0 h oper tkn nr' \<and> lags nr' + 1 = lags nr \<and> same_shape nr nr'"
proof -
  have inv: "nr_inv scr D d0 h nr" and idle: "rep_idle (replicas nr ! e)"
    using call e by (auto simp: in_call_def)
  from sync_other [OF inv e(1) idle run] obtain l' r' where
    s: "on_replica e (as_method (try_sync scr True D)) nr = Inr ((), nr\<lparr>nr_log := l', replicas := (replicas nr)[e := r']\<rparr>)"
    "nr_inv scr D d0 h (nr\<lparr>nr_log := l', replicas := (replicas nr)[e := r']\<rparr>)"
    "same_shape nr (nr\<lparr>nr_log := l', replicas := (replicas nr)[e := r']\<rparr>)"
    "rep_idle r'" "others_kept (e + 1) (nr_log nr) l'" "log_inv scr l' h" "ltails l' ! e = tail l'" by blast
  have "in_call scr D d0 h oper tkn (nr\<lparr>nr_log := l', replicas := (replicas nr)[e := r']\<rparr>)"
    using call s(2,4) e same_shape_token [OF s(3)] by (auto simp: in_call_def nth_list_update)
  moreover have "lags (nr\<lparr>nr_log := l', replicas := (replicas nr)[e := r']\<rparr>) + 1 = lags nr"
    using lags_update [OF inv e(1) s(6,5,7), of r'] lag by simp
  ultimately show ?thesis using s(1,3) by blast
qed

text \<open>The outcome of one attempt with the lock in hand.\<close>

lemma locked_round:
  assumes call: "in_call scr D d0 h oper tkn nr"
    and run: "run_ops D (map fst h) d0 = Inr (qs, d)" "dispatch_mut D oper d = Inr (resp, d')" and env: "\<forall>k i. fst (env k) i"
  defines "h' \<equiv> h @ [(oper, rid tkn + 1)]"
  shows "\<exists>out nr'. try_execute_mut scr env D m oper tkn True nr = Inr (out, nr') \<and> same_shape nr nr'
    \<and> (case out of
         Inr x \<Rightarrow> x = resp \<and> nr_inv scr D d0 h' nr' \<and> nr_quiet nr'
       | Inl (NoLogSpace e) \<Rightarrow> in_call scr D d0 h oper tkn nr' \<and> combiner (replicas nr' ! rid tkn) = combiner (replicas nr ! rid tkn)
           \<and> e < length (replicas nr') \<and> e \<noteq> rid tkn \<and> ltails (nr_log nr') ! e < tail (nr_log nr') \<and> lags nr' \<le> lags nr
       | Inl (GcFailed e) \<Rightarrow> nr_inv scr D d0 h' nr' \<and> token_ok tkn nr' \<and> called (rtkn tkn) resp (replicas nr' ! rid tkn)
           \<and> (\<forall>i<length (replicas nr'). i \<noteq> rid tkn \<longrightarrow> rep_idle (replicas nr' ! i)) \<and> ctail (nr_log nr') = tail (nr_log nr')
           \<and> e < length (replicas nr') \<and> e \<noteq> rid tkn \<and> ltails (nr_log nr') ! e < tail (nr_log nr'))"
proof -
  let ?i = "rid tkn" and ?t = "rtkn tkn" and ?r = "replicas nr ! rid tkn" and ?cas = "fst (env (m + 1))"
  have inv: "nr_inv scr D d0 h nr" and tkn: "?i < length (replicas nr)" "1 \<le> ?t" "?t < rep_next ?r"
    and calling: "calling ?t oper ?r"
    and others: "\<And>j. j < length (replicas nr) \<Longrightarrow> j \<noteq> ?i \<Longrightarrow> rep_idle (replicas nr ! j)"
    using call by (auto simp: in_call_def token_ok_def)
  note I = nr_invD [OF inv]
  have tk: "log_tkn ?r = ?i + 1" using I(4) tkn(1) by simp
  have cas: "\<forall>i. ?cas i" using env by simp
  note C = combine_calling [OF I(1) I(3) [OF tkn(1)] calling tkn(2,3) run cas, unfolded tk add_diff_cancel_right', folded h'_def]
  from C obtain res l' r' where comb: "combine scr ?cas D (nr_log nr) ?r = Inr (res, l', r')"
    and kept: "others_kept (?i + 1) (nr_log nr) l'" and thr: "same_threads ?r r'"
    and out: "case res of
         Inl (NoLogSpace e) \<Rightarrow> log_inv scr l' h \<and> rep_inv D d0 h l' r' \<and> calling ?t oper r' \<and> combiner r' = combiner ?r
           \<and> lagging (?i + 1) e l'
       | _ \<Rightarrow> log_inv scr l' h' \<and> rep_inv D d0 h' l' r' \<and> ltails l' ! ?i = tail l' \<and> called ?t resp r'
           \<and> (\<forall>e. res = Inl (GcFailed e) \<longrightarrow> lagging (?i + 1) e l')"
    by blast
  let ?nr = "nr\<lparr>nr_log := l', replicas := (replicas nr)[?i := r']\<rparr>"
  have shape: "same_shape nr ?nr" using tkn(1) thr by (rule same_shape_update)
  have rtk: "log_tkn r' = ?i + 1" "rep_next r' = rep_next ?r" using thr tk by (simp_all add: same_threads_def)
  have lagging: "e < length (replicas nr) \<and> e \<noteq> ?i \<and> ltails l' ! e < tail l'"
    if "lagging (?i + 1) e l'" for e
  proof -
    have "e < length (replicas nr)" using that kept I(2) by (simp add: lagging_def registered_def others_kept_def)
    moreover have "e \<noteq> ?i" using that by (auto simp: lagging_def)
    ultimately show ?thesis using that by (simp add: lagging_def)
  qed
  have unfold: "try_execute_mut scr env D m oper tkn True nr =
      on_replica ?i (replica_execute_mut_locked scr env D m ?t) nr"
    by (simp add: try_execute_mut_def)
  show ?thesis
  proof (cases "\<exists>e. res = Inl (NoLogSpace e)")
    case True
    then obtain e where e: "res = Inl (NoLogSpace e)" by blast
    with out have o: "log_inv scr l' h" "rep_inv D d0 h l' r'" "calling ?t oper r'" "combiner r' = combiner ?r"
      "lagging (?i + 1) e l'" by simp_all
    have "nr_inv scr D d0 h ?nr" using nr_inv_update [OF inv tkn(1), of l' "[]" r'] o rtk kept by simp
    then have "in_call scr D d0 h oper tkn ?nr"
      using o(3) others tkn rtk by (auto simp: in_call_def token_ok_def nth_list_update)
    moreover have "lags ?nr \<le> lags nr"
      using lags_update [OF inv tkn(1) o(1) kept, of r'] o(5) by (simp add: lagging_def)
    moreover have "try_execute_mut scr env D m oper tkn True nr = Inr (Inl (NoLogSpace e), ?nr)"
      unfolding unfold using tkn(1) comb e by (intro on_replica_eq) (simp_all add: replica_execute_mut_locked_def)
    ultimately show ?thesis using shape lagging [OF o(5)] o(4) tkn(1)
      by (intro exI [of _ "Inl (NoLogSpace e)"] exI [of _ ?nr]) simp
  next
    case False
    with out have o: "log_inv scr l' h'" "rep_inv D d0 h' l' r'" "ltails l' ! ?i = tail l'" "called ?t resp r'"
      by (auto split: sum.splits replica_error.splits)
    have inv': "nr_inv scr D d0 h' ?nr"
      using nr_inv_update [OF inv tkn(1), of l' "[(oper, ?i + 1)]" r'] o rtk kept by (simp add: h'_def)
    have reg: "registered l' (?i + 1)" using o(2) rtk by (simp add: rep_inv_def rep_at_def)
    have ct: "ctail l' = tail l'"
      using replicas_insideD(2) [OF log_invD(6) [OF o(1)] reg] o(3) log_invD(5) [OF o(1)] by simp
    show ?thesis
    proof (cases res)
      case (Inl err)
      then obtain e where e: "res = Inl (GcFailed e)" using False by (cases err) auto
      then have "lagging (?i + 1) e l'" using out by simp
      moreover have "try_execute_mut scr env D m oper tkn True nr = Inr (Inl (GcFailed e), ?nr)"
        unfolding unfold using tkn(1) comb e by (intro on_replica_eq) (simp_all add: replica_execute_mut_locked_def)
      moreover have "token_ok tkn ?nr" using tkn rtk by (simp add: token_ok_def)
      ultimately show ?thesis
        using shape lagging [of e] inv' o(4) ct others tkn(1)
        by (intro exI [of _ "Inl (GcFailed e)"] exI [of _ ?nr]) simp
    next
      case (Inr u)
      have wf: "rep_wf r'" using o(2) by (simp add: rep_inv_def)
      obtain c where get: "get_response scr env D m ?t l' r' = Inr (Inr resp, l', r'\<lparr>contexts := (contexts r')[?t - 1 := c]\<rparr>)"
        and idle: "rep_idle (r'\<lparr>contexts := (contexts r')[?t - 1 := c]\<rparr>)"
        and wf': "rep_wf (r'\<lparr>contexts := (contexts r')[?t - 1 := c]\<rparr>)"
        using get_response_called [OF o(4) wf tkn(2)] tkn(3) rtk(2) by force
      define r2 where "r2 = r'\<lparr>contexts := (contexts r')[?t - 1 := c]\<rparr>"
      let ?nr2 = "nr\<lparr>nr_log := l', replicas := (replicas nr)[?i := r2]\<rparr>"
      have "rep_inv D d0 h' l' r2" "log_tkn r2 = ?i + 1"
        using o(2) wf' rtk by (simp_all add: rep_inv_def rep_at_def r2_def)
      then have "nr_inv scr D d0 h' ?nr2"
        using nr_inv_update [OF inv tkn(1), of l' "[(oper, ?i + 1)]" r2] o(1) kept by (simp add: h'_def)
      moreover have "nr_quiet ?nr2"
        using others idle ct tkn(1) by (auto simp: nr_quiet_def nth_list_update r2_def)
      moreover have "same_shape nr ?nr2" using tkn(1) thr by (intro same_shape_update) (simp_all add: same_threads_def r2_def)
      moreover have "try_execute_mut scr env D m oper tkn True nr = Inr (Inr resp, ?nr2)"
        unfolding unfold using tkn(1) comb Inr get r2_def
        by (intro on_replica_eq) (simp_all add: replica_execute_mut_locked_def)
      ultimately show ?thesis by (intro exI [of _ "Inr resp"] exI [of _ ?nr2]) simp
    qed
  qed
qed

lemma replica_sync_idle:
  assumes "log_inv scr l h" "rep_inv D d0 h l r" "rep_idle r" "run_ops D (map fst h) d0 = Inr y"
    and "ctail l = tail l" "0 < m" "snd (env m)"
  shows "\<exists>l' r'. replica_sync scr env D m l r = Inr (l', r') \<and> log_inv scr l' h \<and> rep_inv D d0 h l' r'
    \<and> others_kept (log_tkn r) l l' \<and> ltails l' ! (log_tkn r - 1) = length h \<and> rep_idle r' \<and> same_threads r r'"
proof -
  have tail: "tail l = length h" using log_invD(2) [OF assms(1)] by simp
  have le: "ltails l ! (log_tkn r - 1) \<le> tail l"
    using assms(2) replicas_insideD(2) [OF log_invD(6) [OF assms(1)], of "log_tkn r"] assms(5)
    by (auto simp: rep_inv_def rep_at_def)
  show ?thesis
  proof (cases "is_replica_synced_for_reads l (log_tkn r) (ctail l)")
    case True
    then have "ltails l ! (log_tkn r - 1) = length h"
      using le assms(5) tail by (simp add: is_replica_synced_for_reads_def)
    moreover have "replica_sync scr env D m l r = Inr (l, r)"
      using True by (simp add: replica_sync_def get_ctail_def sync_loop.simps)
    ultimately show ?thesis using assms(1-3) by (auto simp: others_kept_def same_threads_def)
  next
    case False
    obtain k where m: "m = Suc k" using assms(6) by (cases m) auto
    from try_sync_idle [OF assms(1-4)] obtain l' r' where
      s: "try_sync scr True D l r = Inr (l', r')" "log_inv scr l' h" "rep_inv D d0 h l' r'" "others_kept (log_tkn r) l l'"
      "ltails l' ! (log_tkn r - 1) = length h" "rep_idle r'" "same_threads r r'" by blast
    have synced: "is_replica_synced_for_reads l' (log_tkn r') (ctail l)"
      using s(5,7) assms(5) tail by (simp add: is_replica_synced_for_reads_def same_threads_def)
    have "replica_sync scr env D m l r = sync_loop scr env D k (ctail l) l' r'"
      using False s(1) assms(7) m
      by (simp add: replica_sync_def get_ctail_def sync_loop.simps [of scr env D "Suc k"])
    also have "\<dots> = Inr (l', r')" using synced by (simp add: sync_loop.simps [of scr env D k])
    finally show ?thesis using s by blast
  qed
qed

text \<open>After a failed garbage collection: the slow replica catches up and the response is fetched.\<close>

lemma gc_round:
  assumes inv: "nr_inv scr D d0 h nr" and tkn: "token_ok tkn nr" and called: "called (rtkn tkn) resp (replicas nr ! rid tkn)"
    and idle: "\<forall>i<length (replicas nr). i \<noteq> rid tkn \<longrightarrow> rep_idle (replicas nr ! i)" and ct: "ctail (nr_log nr) = tail (nr_log nr)"
    and e: "e < length (replicas nr)" "e \<noteq> rid tkn" and run: "run_ops D (map fst h) d0 = Inr y" and m: "0 < m" "snd (env m)"
  shows "\<exists>nr1 nr2. on_replica e (as_method (replica_sync scr env D m)) nr = Inr ((), nr1)
    \<and> on_replica (rid tkn) (get_response scr env D m (rtkn tkn)) (switched af e nr1) = Inr (Inr resp, nr2)
    \<and> nr_inv scr D d0 h nr2 \<and> nr_quiet nr2 \<and> same_shape nr nr2"
proof -
  let ?i = "rid tkn" and ?t = "rtkn tkn"
  note I = nr_invD [OF inv]
  have T: "?i < length (replicas nr)" "1 \<le> ?t" "?t < rep_next (replicas nr ! ?i)" using tkn by (simp_all add: token_ok_def)
  from replica_sync_idle [where env = env, OF I(1) I(3) [OF e(1)] _ run ct m] idle e obtain l' r' where
    s: "replica_sync scr env D m (nr_log nr) (replicas nr ! e) = Inr (l', r')" "log_inv scr l' h" "rep_inv D d0 h l' r'"
    "others_kept (e + 1) (nr_log nr) l'" "ltails l' ! e = length h" "rep_idle r'" "same_threads (replicas nr ! e) r'"
    using I(4) [OF e(1)] by auto
  define nr1 where "nr1 = nr\<lparr>nr_log := l', replicas := (replicas nr)[e := r']\<rparr>"
  have on1: "on_replica e (as_method (replica_sync scr env D m)) nr = Inr ((), nr1)"
    unfolding nr1_def using e(1) s(1) by (intro on_replica_eq) (simp_all add: as_method_def)
  have inv1: "nr_inv scr D d0 h nr1"
    unfolding nr1_def using nr_inv_update [OF inv e(1), of l' "[]" r'] s I(4) [OF e(1)] by (simp add: same_threads_def)
  have shape1: "same_shape nr nr1" unfolding nr1_def using e(1) s(7) by (rule same_shape_update)
  have rep1: "replicas nr1 ! ?i = replicas nr ! ?i" "length (replicas nr1) = length (replicas nr)"
    using e by (simp_all add: nr1_def)
  have wf: "rep_wf (replicas nr ! ?i)" using I(3) [OF T(1)] by (simp add: rep_inv_def)
  obtain c where get: "get_response scr env D m ?t l' (replicas nr ! ?i) =
      Inr (Inr resp, l', (replicas nr ! ?i)\<lparr>contexts := (contexts (replicas nr ! ?i))[?t - 1 := c]\<rparr>)"
    and idle2: "rep_idle ((replicas nr ! ?i)\<lparr>contexts := (contexts (replicas nr ! ?i))[?t - 1 := c]\<rparr>)"
    and wf2: "rep_wf ((replicas nr ! ?i)\<lparr>contexts := (contexts (replicas nr ! ?i))[?t - 1 := c]\<rparr>)"
    using get_response_called [OF called wf T(2,3)] by force
  define r2 where "r2 = (replicas nr ! ?i)\<lparr>contexts := (contexts (replicas nr ! ?i))[?t - 1 := c]\<rparr>"
  define nr2 where "nr2 = (switched af e nr1)\<lparr>nr_log := l', replicas := (replicas nr1)[?i := r2]\<rparr>"
  have "on_replica ?i (get_response scr env D m ?t) (switched af e nr1) = Inr (Inr resp, nr2)"
    using on_replica_eq [of ?i "switched af e nr1" "get_response scr env D m ?t" "Inr resp" l' r2] T(1) rep1 get
    by (simp add: nr2_def r2_def) (simp add: nr1_def)
  moreover have "rep_inv D d0 h l' r2"
    using nr_invD(3) [OF inv1, of ?i] T(1) rep1 wf2 by (simp add: rep_inv_def rep_at_def r2_def nr1_def)
  then have "nr_inv scr D d0 h nr2"
    using nr_inv_update [OF inv1, of ?i l' "[]" r2] s(2) T(1) rep1 I(4) [OF T(1)]
    by (simp add: nr2_def r2_def nr_inv_def others_kept_def nr1_def)
  moreover have reg: "registered l' (e + 1)" using s(3,7) I(4) [OF e(1)] by (simp add: rep_inv_def rep_at_def same_threads_def)
  then have "ctail l' = tail l'"
    using replicas_insideD(2) [OF log_invD(6) [OF s(2)] reg] s(5) log_invD(2,5) [OF s(2)] by simp
  then have "nr_quiet nr2"
    using idle idle2 s(6) e T(1) by (auto simp: nr_quiet_def nr2_def nr1_def r2_def nth_list_update)
  moreover have "same_shape nr nr2"
    using shape1 T(1) rep1 by (auto simp: same_shape_def nr2_def r2_def nth_list_update)
  ultimately show ?thesis using on1 by blast
qed

definition write_done :: "bool \<Rightarrow> ('d, 'ro, 'op, 'r) dispatcher \<Rightarrow> 'd \<Rightarrow> 'op history \<Rightarrow> 'r
    \<Rightarrow> ('d, 'op, 'r) node_replicated \<Rightarrow> ('r \<times> ('d, 'op, 'r) node_replicated) run \<Rightarrow> bool" where
  "write_done scr D d0 h resp nr out \<longleftrightarrow>
     (\<exists>nr'. out = Inr (resp, nr') \<and> nr_inv scr D d0 h nr' \<and> nr_quiet nr' \<and> same_shape nr nr')"

lemma write_done_trans: "same_shape nr nr1 \<Longrightarrow> write_done scr D d0 h resp nr1 out \<Longrightarrow> write_done scr D d0 h resp nr out"
  by (auto simp: write_done_def intro: same_shape_trans)

lemma push_ok: "length q < 2 \<Longrightarrow> push x q = Inr (x # q)"
  by (simp add: push_def MAX_REPLICAS_PER_LOG_def)

lemma execute_mut_locked_loop:
  assumes "in_call scr D d0 h oper tkn nr" "2 * lags nr < n" and env: "uncontended env" and m: "0 < m"
    and run: "run_ops D (map fst h) d0 = Inr (qs, d)" "dispatch_mut D oper d = Inr (resp, d')"
  shows "write_done scr D d0 (h @ [(oper, rid tkn + 1)]) resp nr (execute_mut_loop scr af env D m n [Exec True] oper tkn nr)"
  using assms(1,2)
proof (induction "lags nr" arbitrary: nr n rule: less_induct)
  case less
  let ?h = "h @ [(oper, rid tkn + 1)]"
  obtain n1 where n: "n = Suc n1" using less.prems(2) by (cases n) auto
  have cas: "\<forall>k i. fst (env n1 k) i" and won: "\<And>k j. snd (env k j)" using env by (simp_all add: uncontended_def)
  have run': "run_ops D (map fst ?h) d0 = Inr (qs @ [resp], d')" using run by (simp add: run_ops_append)
  from locked_round [OF less.prems(1) run cas, of m] obtain out nr1 where
    att: "try_execute_mut scr (env n1) D m oper tkn True nr = Inr (out, nr1)" and shape: "same_shape nr nr1"
    and post: "case out of
         Inr x \<Rightarrow> x = resp \<and> nr_inv scr D d0 ?h nr1 \<and> nr_quiet nr1
       | Inl (NoLogSpace e) \<Rightarrow> in_call scr D d0 h oper tkn nr1 \<and> combiner (replicas nr1 ! rid tkn) = combiner (replicas nr ! rid tkn)
           \<and> e < length (replicas nr1) \<and> e \<noteq> rid tkn \<and> ltails (nr_log nr1) ! e < tail (nr_log nr1) \<and> lags nr1 \<le> lags nr
       | Inl (GcFailed e) \<Rightarrow> nr_inv scr D d0 ?h nr1 \<and> token_ok tkn nr1 \<and> called (rtkn tkn) resp (replicas nr1 ! rid tkn)
           \<and> (\<forall>i<length (replicas nr1). i \<noteq> rid tkn \<longrightarrow> rep_idle (replicas nr1 ! i)) \<and> ctail (nr_log nr1) = tail (nr_log nr1)
           \<and> e < length (replicas nr1) \<and> e \<noteq> rid tkn \<and> ltails (nr_log nr1) ! e < tail (nr_log nr1)"
    by blast
  consider (ok) "out = Inr resp" | (space) e where "out = Inl (NoLogSpace e)" | (gc) e where "out = Inl (GcFailed e)"
    using post by (cases out) (auto split: replica_error.splits)
  then show ?case
  proof cases
    case ok
    then show ?thesis using att post shape by (simp add: n write_done_def)
  next
    case (space e)
    with post have p: "in_call scr D d0 h oper tkn nr1" "e < length (replicas nr1)" "e \<noteq> rid tkn"
      "ltails (nr_log nr1) ! e < tail (nr_log nr1)" "lags nr1 \<le> lags nr" by simp_all
    from sync_round [OF p(1-4) run(1)] obtain nr2 where
      s: "on_replica e (as_method (try_sync scr True D)) nr1 = Inr ((), nr2)" "in_call scr D d0 h oper tkn nr2"
      "lags nr2 + 1 = lags nr1" "same_shape nr1 nr2" by blast
    obtain n2 where n1: "n1 = Suc n2" using less.prems(2) n s(3) p(5) by (cases n1) auto
    have "write_done scr D d0 ?h resp (switched af e nr2)
        (execute_mut_loop scr af env D m n2 [Exec True] oper tkn (switched af e nr2))"
      using s(2,3) p(5) less.prems(2) n n1 by (intro less.hyps) simp_all
    moreover have "execute_mut_loop scr af env D m n [Exec True] oper tkn nr =
        execute_mut_loop scr af env D m n2 [Exec True] oper tkn (switched af e nr2)"
      using att space s(1) won by (simp add: n n1 push_ok)
    moreover have "same_shape nr (switched af e nr2)" using same_shape_trans [OF shape s(4)] by simp
    ultimately show ?thesis by (metis write_done_trans)
  next
    case (gc e)
    with post have p: "nr_inv scr D d0 ?h nr1" "token_ok tkn nr1" "called (rtkn tkn) resp (replicas nr1 ! rid tkn)"
      "\<forall>i<length (replicas nr1). i \<noteq> rid tkn \<longrightarrow> rep_idle (replicas nr1 ! i)" "ctail (nr_log nr1) = tail (nr_log nr1)"
      "e < length (replicas nr1)" "e \<noteq> rid tkn" by simp_all
    from gc_round [where env = "env n1" and af = af, OF p run' m won] obtain nr2 nr3 where
      "on_replica e (as_method (replica_sync scr (env n1) D m)) nr1 = Inr ((), nr2)"
      "on_replica (rid tkn) (get_response scr (env n1) D m (rtkn tkn)) (switched af e nr2) = Inr (Inr resp, nr3)"
      "nr_inv scr D d0 ?h nr3" "nr_quiet nr3" "same_shape nr1 nr3" by blast
    then show ?thesis using att gc p(7) same_shape_trans [OF shape] by (simp add: n write_done_def)
  qed
qed

text \<open>The first attempt: the operation is enqueued and the combiner lock is free.\<close>

lemma execute_mut_enters:
  assumes "nr_inv scr D d0 h nr" "nr_quiet nr" "token_ok tkn nr" "snd (env (m + 1))"
  shows "\<exists>nr1. try_execute_mut scr env D m oper tkn False nr = try_execute_mut scr env D m oper tkn True nr1
    \<and> in_call scr D d0 h oper tkn nr1 \<and> lags nr1 = lags nr \<and> same_shape nr nr1"
proof -
  let ?i = "rid tkn" and ?t = "rtkn tkn" and ?r = "replicas nr ! rid tkn"
  note I = nr_invD [OF assms(1)]
  have T: "?i < length (replicas nr)" "1 \<le> ?t" "?t < rep_next ?r" using assms(3) by (simp_all add: token_ok_def)
  have wf: "rep_wf ?r" and at: "rep_at D d0 h (nr_log nr) ?r" and idle: "rep_idle ?r"
    using I(3) [OF T(1)] assms(2) T(1) by (simp_all add: rep_inv_def nr_quiet_def)
  note W = rep_wfD [OF wf]
  have t: "?t - 1 < MAX_THREADS_PER_REPLICA" using T W(8) by linarith
  have ctx: "ctx_inv (contexts ?r ! (?t - 1))" "answers (contexts ?r ! (?t - 1)) = []" "pending_ops (contexts ?r ! (?t - 1)) = []"
    using W t idle by (simp_all add: list_all_length rep_idle_def)
  have "fst (context_enqueue oper () (contexts ?r ! (?t - 1)))"
    using cb.enq_full [OF ctx(1), of "(oper, ())"] ctx(2,3) by (simp add: MAX_PENDING_OPS_def)
  then obtain c where c: "context_enqueue oper () (contexts ?r ! (?t - 1)) = (True, c)"
    by (cases "context_enqueue oper () (contexts ?r ! (?t - 1))") auto
  have C: "ctx_inv c" "pending_ops c = [(oper, ())]" "answers c = []"
    using cb.enq_ok [OF ctx(1), of "(oper, ())" c] c ctx(2,3) by simp_all
  define r1 where "r1 = ?r\<lparr>contexts := (contexts ?r)[?t - 1 := c], combiner := 1\<rparr>"
  define nr1 where "nr1 = nr\<lparr>replicas := (replicas nr)[?i := r1]\<rparr>"
  have "replica_execute_mut scr env D m oper ?t (nr_log nr) ?r = replica_execute_mut_locked scr env D m ?t (nr_log nr) r1"
    using T(2) t W(1) c idle assms(4)
    by (simp add: replica_execute_mut_def replica_execute_mut_locked_def make_pending_def try_combine_def
        acquire_combiner_lock_def rep_idle_def r1_def)
  then have "try_execute_mut scr env D m oper tkn False nr = try_execute_mut scr env D m oper tkn True nr1"
    using T(1) by (simp add: try_execute_mut_def on_replica_def nr1_def)
  moreover have "rep_wf r1" using wf C(1) t by (auto simp: rep_wf_def r1_def list_all_length nth_list_update)
  then have "rep_inv D d0 h (nr_log nr) r1" using at by (simp add: rep_inv_def rep_at_def r1_def)
  then have "nr_inv scr D d0 h nr1"
    using nr_inv_update [OF assms(1) T(1), of "nr_log nr" "[]" r1] I(1) I(4) [OF T(1)]
    by (simp add: nr1_def r1_def others_kept_def)
  then have "in_call scr D d0 h oper tkn nr1"
    using T C W(1) t idle assms(2)
    by (auto simp: in_call_def token_ok_def nr1_def r1_def calling_def rep_idle_def nr_quiet_def nth_list_update)
  moreover have "lags nr1 = lags nr" "same_shape nr nr1"
    using T(1) by (auto simp: lags_def nr1_def same_shape_def r1_def nth_list_update)
  ultimately show ?thesis by blast
qed

lemma execute_mut_linear:
  assumes inv: "nr_inv scr D d0 h nr" and quiet: "nr_quiet nr" and tkn: "token_ok tkn nr" and env: "uncontended env"
    and m: "0 < m" and n: "2 * length (replicas nr) < n"
    and run: "run_ops D (map fst h) d0 = Inr (qs, d)" "dispatch_mut D oper d = Inr (resp, d')"
  shows "write_done scr D d0 (h @ [(oper, rid tkn + 1)]) resp nr (execute_mut scr af env D m n oper tkn nr)"
proof -
  obtain n1 where n1: "n = Suc n1" using n by (cases n) auto
  have "snd (env n1 (m + 1))" using env by (simp add: uncontended_def)
  from execute_mut_enters [where env = "env n1", OF inv quiet tkn this, of oper] obtain nr1 where
    first: "try_execute_mut scr (env n1) D m oper tkn False nr = try_execute_mut scr (env n1) D m oper tkn True nr1"
    and call: "in_call scr D d0 h oper tkn nr1" and lags: "lags nr1 = lags nr" and shape: "same_shape nr nr1" by blast
  have "lags nr \<le> card {..<length (replicas nr)}" unfolding lags_def by (intro card_mono) auto
  then have "2 * lags nr1 < n" using n lags by simp
  from execute_mut_locked_loop [OF call this env m run, of af]
  have "write_done scr D d0 (h @ [(oper, rid tkn + 1)]) resp nr1 (execute_mut scr af env D m n oper tkn nr)"
    using first by (simp add: execute_mut_def n1)
  with shape show ?thesis by (rule write_done_trans)
qed

end
