(* ===== verification/Nr_Reads.thy ===== *)
theory Nr_Reads
  imports Nr_Linear
begin

text \<open>
  The read path of the replicated object: a read on any replica returns what the sequential state
  after all completed writes answers, and it returns after at most one replica was woken up.
\<close>

definition rep_resting :: "('d, 'op, 'r) nr_replica \<Rightarrow> bool" where
  "rep_resting r \<longleftrightarrow> (\<forall>j<MAX_THREADS_PER_REPLICA. answers (contexts r ! j) = [] \<and> pending_ops (contexts r ! j) = [])"

lemma rep_idle_resting: "rep_idle r \<longleftrightarrow> combiner r = 0 \<and> rep_resting r"
  by (auto simp: rep_idle_def rep_resting_def)

lemma resting_batch:
  assumes "rep_wf r" "rep_resting r"
  shows "batch_of r = []" "pending_counts r = replicate (rep_next r - 1) 0"
proof -
  note W = rep_wfD [OF assms(1)]
  have none: "pending_ops c = []" if "c \<in> set (take (rep_next r - 1) (contexts r))" for c
    using that assms(2) W by (auto simp: in_set_conv_nth rep_resting_def)
  then show "batch_of r = []" by (auto simp: batch_of_def)
  show "pending_counts r = replicate (rep_next r - 1) 0"
    using none W by (intro replicate_eqI) (auto simp: pending_counts_def)
qed

lemma resting_answered:
  assumes "rep_wf r" "rep_resting r" "contexts r' = answered 0 (rep_next r - 1) (chunks (pending_counts r) []) (contexts r)"
  shows "rep_resting r'"
  unfolding rep_resting_def
proof (intro allI impI)
  fix j assume j: "j < MAX_THREADS_PER_REPLICA"
  have empty: "chunks ns [] ! k = []" if "k < length ns" for ns k and xs :: "'x list"
    using that by (induction ns arbitrary: k) (auto simp: nth_Cons split: nat.splits)
  note A = answered_context [OF assms(1) _ j assms(3), unfolded resting_batch(1) [OF assms(1,2)]]
  show "answers (contexts r' ! j) = [] \<and> pending_ops (contexts r' ! j) = []"
    using A(2,3) assms(2) j resting_batch(2) [OF assms(1,2)]
    by (cases "j < rep_next r - 1") (auto simp: rep_resting_def empty)
qed

text \<open>Combining with nothing to combine only catches up.\<close>

lemma combine_resting:
  assumes inv: "log_inv scr l h" and rep: "rep_inv D d0 h l r" and rest: "rep_resting r"
    and run: "run_ops D (map fst h) d0 = Inr y" and cas: "\<forall>i. cas i"
  shows "\<exists>res l' r'. combine scr cas D l r = Inr (res, l', r') \<and> others_kept (log_tkn r) l l' \<and> same_threads r r'
    \<and> log_inv scr l' h \<and> rep_inv D d0 h l' r' \<and> rep_resting r' \<and> ltails l' ! (log_tkn r - 1) = tail l'
    \<and> combiner r' = (case res of Inl (NoLogSpace _) \<Rightarrow> combiner r | _ \<Rightarrow> 0)
    \<and> (\<forall>e. res = Inl (NoLogSpace e) \<or> res = Inl (GcFailed e) \<longrightarrow> lagging (log_tkn r) e l')"
proof -
  have wf: "rep_wf r" using rep by (simp add: rep_inv_def)
  note B = resting_batch [OF wf rest]
  have no_fail: "run_ops D (map fst (take k h)) d0 \<noteq> Inl f" for k f
    using run_ops_prefix [OF run, of k f] by (simp add: take_map)
  have ent: "h @ entries_of (log_tkn r) [] = h" by (simp add: entries_of_def)
  note post = combine_uncontended [where cas = cas, OF inv rep cas [rule_format], unfolded combine_post_def B(1) ent Let_def]
  have "combine scr cas D l r \<noteq> Inl f" for f using post no_fail by (cases "combine scr cas D l r") simp_all
  then obtain res l' r' where out: "combine scr cas D l r = Inr (res, l', r')"
    by (cases "combine scr cas D l r") auto
  note P = post [unfolded out sum.case prod.case]
  have rest': "rep_resting r'" if "served D d0 h r r'"
    using that resting_answered [OF wf rest] by (auto simp: served_def B(1))
  have tail: "length h = tail l'" if "log_inv scr l' h" using log_invD(2) [OF that] by simp
  show ?thesis
  proof (cases "\<exists>e. res = Inl (NoLogSpace e)")
    case True
    then show ?thesis using P out rest by (auto simp: rep_resting_def lagging_def)
  next
    case False
    then show ?thesis using P out rest' tail by (auto split: sum.splits replica_error.splits)
  qed
qed

section \<open>Reading the data\<close>

lemma read_data_ok:
  assumes "rep_wf r" "1 \<le> tid" "tid < rep_next r" "dispatch D (rw_data (rep_data r)) ro = Inr resp"
  shows "read_data D ro tid r = Inr (resp, r)"
proof -
  note W = rep_wfD [OF assms(1)]
  have "tid - 1 < MAX_READER_THREADS" using assms(2,3) W(8) unfolding MAX_READER_THREADS_def by linarith
  from rw_read_free [OF W(5) this] obtain lk where lk: "rw_read (tid - 1) (rep_data r) = Inr lk" "rw_data lk = rw_data (rep_data r)"
    by blast
  then show ?thesis using assms(2,4) rw_read_unlock_read [OF lk(1)] by (simp add: read_data_def)
qed

lemma rep_data_synced:
  "rep_inv D d0 h l r \<Longrightarrow> ltails l ! (log_tkn r - 1) = length h \<Longrightarrow> run_ops D (map fst h) d0 = Inr (qs, d)
   \<Longrightarrow> rw_data (rep_data r) = d"
  by (auto simp: rep_inv_def rep_at_def)

lemma read_sync_spec:
  assumes inv: "log_inv scr l h" and rep: "rep_inv D d0 h l r" and idle: "rep_idle r"
    and run: "run_ops D (map fst h) d0 = Inr y" and ct: "ctail l = tail l" and m: "0 < m" and env: "\<forall>k. (\<forall>i. fst (env k) i) \<and> snd (env k)"
  shows "\<exists>out l' r'. read_sync scr env D m (ctail l) l r = Inr (out, l', r') \<and> others_kept (log_tkn r) l l' \<and> same_threads r r'
    \<and> log_inv scr l' h \<and> rep_inv D d0 h l' r' \<and> rep_resting r' \<and> ltails l' ! (log_tkn r - 1) = tail l'
    \<and> combiner r' = (case out of Inl (NoLogSpace _) \<Rightarrow> 1 | _ \<Rightarrow> 0)
    \<and> (\<forall>e. out = Inl (NoLogSpace e) \<or> out = Inl (GcFailed e) \<longrightarrow> lagging (log_tkn r) e l')"
proof (cases "is_replica_synced_for_reads l (log_tkn r) (ctail l)")
  case True
  have "ltails l ! (log_tkn r - 1) \<le> tail l"
    using rep replicas_insideD(2) [OF log_invD(6) [OF inv], of "log_tkn r"] ct by (auto simp: rep_inv_def rep_at_def)
  with True ct have "ltails l ! (log_tkn r - 1) = tail l" by (simp add: is_replica_synced_for_reads_def)
  moreover have "read_sync scr env D m (ctail l) l r = Inr (Inr (), l, r)" using True by (simp add: read_sync.simps)
  ultimately show ?thesis using inv rep idle by (auto simp: others_kept_def same_threads_def rep_idle_resting)
next
  case False
  obtain k where k: "m = Suc k" using m by (cases m) auto
  let ?r = "r\<lparr>combiner := 1\<rparr>"
  have tc: "try_combine scr (fst (env m)) (snd (env m)) D l r = combine scr (fst (env m)) D l ?r"
    using idle env by (simp add: try_combine_def acquire_combiner_lock_def rep_idle_def)
  have rep1: "rep_inv D d0 h l ?r" "rep_resting ?r"
    using rep idle by (simp_all add: rep_inv_def rep_wf_def rep_at_def rep_idle_resting rep_resting_def)
  have cas: "\<forall>i. fst (env m) i" using env by simp
  have one: "combiner ?r = 1" "log_tkn ?r = log_tkn r" by simp_all
  from combine_resting [OF inv rep1 run cas, unfolded one] obtain res l' r' where
    c: "combine scr (fst (env m)) D l ?r = Inr (res, l', r')" "others_kept (log_tkn r) l l'" "same_threads ?r r'"
    "log_inv scr l' h" "rep_inv D d0 h l' r'" "rep_resting r'" "ltails l' ! (log_tkn r - 1) = tail l'"
    "combiner r' = (case res of Inl (NoLogSpace _) \<Rightarrow> 1 | _ \<Rightarrow> 0)"
    "\<forall>e. res = Inl (NoLogSpace e) \<or> res = Inl (GcFailed e) \<longrightarrow> lagging (log_tkn r) e l'"
    by blast
  have thr: "same_threads r r'" using c(3) by (simp add: same_threads_def)
  have "tail l' = tail l" using log_invD(2) [OF c(4)] log_invD(2) [OF inv] by simp
  then have synced: "is_replica_synced_for_reads l' (log_tkn r') (ctail l)"
    using c(7) thr ct by (simp add: is_replica_synced_for_reads_def same_threads_def)
  have "read_sync scr env D m (ctail l) l r = Inr (res, l', r')"
  proof (cases res)
    case (Inl e)
    then show ?thesis using False tc c(1) by (simp add: k read_sync.simps [of scr env D "Suc k"])
  next
    case (Inr u)
    then show ?thesis using False tc c(1) synced
      by (simp add: k read_sync.simps [of scr env D "Suc k"] read_sync.simps [of scr env D k])
  qed
  then show ?thesis using c thr by blast
qed

section \<open>The loop\<close>

definition finish_read :: "(('d, 'op, 'r) nr_replica \<Rightarrow> ('r \<times> ('d, 'op, 'r) nr_replica) run)
    \<Rightarrow> (replica_error + unit) \<times> 'op nr_log \<times> ('d, 'op, 'r) nr_replica
    \<Rightarrow> ((replica_error + 'r) \<times> 'op nr_log \<times> ('d, 'op, 'r) nr_replica) run" where
  "finish_read fin x = (case x of (out, l1, r1) \<Rightarrow>
     (case out of Inl e \<Rightarrow> Inr (Inl e, l1, r1) | Inr _ \<Rightarrow> bind_run (fin r1) (\<lambda>(resp, r2). Inr (Inr resp, l1, r2))))"

definition read_attempt :: "bool \<Rightarrow> ('d, 'ro, 'op, 'r) dispatcher \<Rightarrow> nat \<Rightarrow> nat
    \<Rightarrow> (('d, 'op, 'r) nr_replica \<Rightarrow> ('r \<times> ('d, 'op, 'r) nr_replica) run) \<Rightarrow> env \<Rightarrow> bool
    \<Rightarrow> ('d, 'op, 'r) node_replicated \<Rightarrow> ((replica_error + 'r) \<times> ('d, 'op, 'r) node_replicated) run" where
  "read_attempt scr D m i fin env cl nr =
     on_replica i
       (if cl then (\<lambda>l r. bind_run (locked_sync scr (fst (env 0)) D l r) (finish_read fin))
        else (\<lambda>l r. bind_run (read_sync scr env D m (get_ctail l) l r) (finish_read fin))) nr"

lemma try_execute_attempt:
  "try_execute scr env D m ro tkn = read_attempt scr D m (rid tkn) (read_data D ro (rtkn tkn)) env"
  by (intro ext) (simp add: try_execute_def read_attempt_def replica_execute_def [abs_def] replica_execute_locked_def [abs_def]
      finish_read_def [abs_def] split_def)

lemma try_execute_anchor_attempt:
  "try_execute_anchor scr env D m ro tkn = read_attempt scr D m (rid tkn)
     (\<lambda>r. bind_run (read_data D ro (rtkn tkn) r) (\<lambda>(resp, r2).
        bind_run (store_notif (rtkn tkn) (cn_idx D resp) r2) (\<lambda>r3. Inr (resp, r3)))) env"
  by (intro ext) (simp add: try_execute_anchor_def read_attempt_def replica_execute_anchor_def [abs_def]
      replica_execute_locked_anchor_def [abs_def] finish_read_def [abs_def] split_def bind_run_assoc cong: sum.case_cong)

text \<open>What the part after the synchronisation does.\<close>

definition reads :: "(('d, 'op, 'r) nr_replica \<Rightarrow> ('r \<times> ('d, 'op, 'r) nr_replica) run) \<Rightarrow> nat \<Rightarrow> 'd \<Rightarrow> 'r \<Rightarrow> bool" where
  "reads fin tid d resp \<longleftrightarrow> (\<forall>r. rep_wf r \<longrightarrow> 1 \<le> tid \<longrightarrow> tid < rep_next r \<longrightarrow> rw_data (rep_data r) = d \<longrightarrow>
     (\<exists>r'. fin r = Inr (resp, r') \<and> rep_wf r' \<and> rep_data r' = rep_data r \<and> contexts r' = contexts r
        \<and> combiner r' = combiner r \<and> same_threads r r'))"

text \<open>A synchronised replica of an otherwise quiet object answers at once.\<close>

lemma attempt_synced:
  assumes inv: "nr_inv scr D d0 h nr" and T: "i < length (replicas nr)" "1 \<le> tid" "tid < rep_next (replicas nr ! i)"
    and others: "\<forall>j<length (replicas nr). j \<noteq> i \<longrightarrow> rep_idle (replicas nr ! j)"
    and own: "rep_resting (replicas nr ! i)" "cl \<or> combiner (replicas nr ! i) = 0"
    and up: "ltails (nr_log nr) ! i = tail (nr_log nr)"
    and run: "run_ops D (map fst h) d0 = Inr (qs, d)" and fin: "reads fin tid d resp"
  shows "\<exists>nr'. read_attempt scr D m i fin env cl nr = Inr (Inr resp, nr') \<and> nr_inv scr D d0 h nr' \<and> nr_quiet nr' \<and> same_shape nr nr'"
proof -
  let ?l = "nr_log nr" and ?r = "replicas nr ! i"
  note I = nr_invD [OF inv]
  have tk: "log_tkn ?r = i + 1" and len: "length h = tail ?l" using I(4) [OF T(1)] log_invD(2) [OF I(1)] by simp_all
  define r1 where "r1 = (if cl then combiner_drop ?r else ?r)"
  have r1: "rep_inv D d0 h ?l r1" "rep_idle r1" "same_threads ?r r1" "rep_next r1 = rep_next ?r" "rep_data r1 = rep_data ?r"
    using I(3) [OF T(1)] own
    by (auto simp: r1_def combiner_drop_def rep_inv_def rep_wf_def rep_at_def rep_idle_resting rep_resting_def same_threads_def)
  have "rw_data (rep_data r1) = d" using rep_data_synced [OF I(3) [OF T(1)] _ run] up len r1(5) tk by simp
  with fin r1 T(2,3) obtain r2 where r2: "fin r1 = Inr (resp, r2)" "rep_wf r2" "rep_data r2 = rep_data r1"
    "contexts r2 = contexts r1" "combiner r2 = combiner r1" "same_threads r1 r2"
    unfolding reads_def rep_inv_def by metis
  have ct: "ctail ?l = tail ?l"
    using replicas_insideD(2) [OF log_invD(6) [OF I(1)], of "i + 1"] I(5) [of "i + 1"] T(1) up log_invD(5) [OF I(1)] by simp
  have synced: "is_replica_synced_for_reads ?l (log_tkn ?r) (ctail ?l)" "log_tkn (combiner_drop ?r) = log_tkn ?r"
    using tk up ct by (simp_all add: is_replica_synced_for_reads_def combiner_drop_def)
  let ?nr = "nr\<lparr>nr_log := ?l, replicas := (replicas nr)[i := r2]\<rparr>"
  have "read_attempt scr D m i fin env cl nr = Inr (Inr resp, ?nr)"
    unfolding read_attempt_def using T(1) r2(1) synced
    by (intro on_replica_eq)
      (auto simp: locked_sync_def get_ctail_def read_sync.simps finish_read_def r1_def Let_def)
  moreover have "rep_inv D d0 h ?l r2" "log_tkn r2 = i + 1"
    using r1(1,3) r2 tk by (simp_all add: rep_inv_def rep_at_def same_threads_def)
  then have "nr_inv scr D d0 h ?nr"
    using nr_inv_update [OF inv T(1), of ?l "[]" r2] I(1) by (simp add: others_kept_def)
  moreover have "rep_idle r2" using r1(2) r2(4,5) by (simp add: rep_idle_def)
  then have "nr_quiet ?nr" using others ct T(1) by (auto simp: nr_quiet_def nth_list_update)
  moreover have "same_shape nr ?nr" using T(1) r1(3) r2(6) by (intro same_shape_update) (simp_all add: same_threads_def)
  ultimately show ?thesis by blast
qed

text \<open>The first attempt, from a quiet object.\<close>

lemma attempt_first:
  assumes inv: "nr_inv scr D d0 h nr" and quiet: "nr_quiet nr" and T: "i < length (replicas nr)" "1 \<le> tid" "tid < rep_next (replicas nr ! i)"
    and run: "run_ops D (map fst h) d0 = Inr (qs, d)" and fin: "reads fin tid d resp"
    and m: "0 < m" and env: "\<forall>k. (\<forall>i. fst (env k) i) \<and> snd (env k)"
  shows "\<exists>out nr'. read_attempt scr D m i fin env False nr = Inr (out, nr') \<and> same_shape nr nr' \<and> nr_inv scr D d0 h nr'
    \<and> (case out of
         Inr x \<Rightarrow> x = resp \<and> nr_quiet nr'
       | Inl err \<Rightarrow> (\<forall>j<length (replicas nr'). j \<noteq> i \<longrightarrow> rep_idle (replicas nr' ! j)) \<and> rep_resting (replicas nr' ! i)
           \<and> ltails (nr_log nr') ! i = tail (nr_log nr')
           \<and> (case err of NoLogSpace e \<Rightarrow> e < length (replicas nr') \<and> e \<noteq> i
              | GcFailed e \<Rightarrow> e < length (replicas nr') \<and> e \<noteq> i \<and> combiner (replicas nr' ! i) = 0))"
proof -
  note I = nr_invD [OF inv]
  have idle: "rep_idle (replicas nr ! i)" and ct: "ctail (nr_log nr) = tail (nr_log nr)" using quiet T(1) by (simp_all add: nr_quiet_def)
  have tk: "log_tkn (replicas nr ! i) = i + 1" using I(4) [OF T(1)] .
  from read_sync_spec [OF I(1) I(3) [OF T(1)] idle run ct m env, unfolded tk add_diff_cancel_right'] obtain out l' r' where
    s: "read_sync scr env D m (ctail (nr_log nr)) (nr_log nr) (replicas nr ! i) = Inr (out, l', r')"
    "others_kept (i + 1) (nr_log nr) l'" "same_threads (replicas nr ! i) r'"
    "log_inv scr l' h" "rep_inv D d0 h l' r'" "rep_resting r'" "ltails l' ! i = tail l'"
    "combiner r' = (case out of Inl (NoLogSpace _) \<Rightarrow> 1 | _ \<Rightarrow> 0)"
    "\<forall>e. out = Inl (NoLogSpace e) \<or> out = Inl (GcFailed e) \<longrightarrow> lagging (i + 1) e l'" by blast
  define nr1 where "nr1 = nr\<lparr>nr_log := l', replicas := (replicas nr)[i := r']\<rparr>"
  have tk': "log_tkn r' = i + 1" using s(3) tk by (simp add: same_threads_def)
  have inv1: "nr_inv scr D d0 h nr1" unfolding nr1_def using nr_inv_update [OF inv T(1), of l' "[]" r'] s tk' by simp
  have shape: "same_shape nr nr1" unfolding nr1_def using T(1) s(3) by (rule same_shape_update)
  have others: "\<forall>j<length (replicas nr1). j \<noteq> i \<longrightarrow> rep_idle (replicas nr1 ! j)"
    using quiet by (simp add: nr_quiet_def nr1_def)
  have own: "replicas nr1 ! i = r'" "length (replicas nr1) = length (replicas nr)" "nr_log nr1 = l'" using T(1) by (simp_all add: nr1_def)
  have lag: "e < length (replicas nr) \<and> e \<noteq> i" if "lagging (i + 1) e l'" for e
    using that s(2) I(2) by (auto simp: lagging_def registered_def others_kept_def)
  show ?thesis
  proof (cases out)
    case (Inl err)
    have "read_attempt scr D m i fin env False nr = Inr (Inl err, nr1)"
      unfolding read_attempt_def nr1_def using T(1) s(1) Inl by (intro on_replica_eq) (simp_all add: get_ctail_def finish_read_def)
    then show ?thesis using shape inv1 others own s(6-9) lag Inl
      by (intro exI [of _ "Inl err"] exI [of _ nr1]) (cases err; simp)
  next
    case (Inr u)
    have "rep_next r' = rep_next (replicas nr ! i)" using s(3) by (simp add: same_threads_def)
    then have "i < length (replicas nr1)" "tid < rep_next (replicas nr1 ! i)" "rep_resting (replicas nr1 ! i)"
      "False \<or> combiner (replicas nr1 ! i) = 0" "ltails (nr_log nr1) ! i = tail (nr_log nr1)"
      using own T s(6-8) Inr by simp_all
    from attempt_synced [OF inv1 this(1) T(2) this(2) others this(3-5) run fin, of m env] obtain nr2 where
      n2: "read_attempt scr D m i fin env False nr1 = Inr (Inr resp, nr2)" "nr_inv scr D d0 h nr2" "nr_quiet nr2" "same_shape nr1 nr2"
      by blast
    have "is_replica_synced_for_reads l' (log_tkn r') (ctail l')"
      using s(7) tk' log_invD(5) [OF s(4)] by (simp add: is_replica_synced_for_reads_def)
    then have "read_attempt scr D m i fin env False nr = read_attempt scr D m i fin env False nr1"
      using s(1) Inr T(1) own by (simp add: read_attempt_def on_replica_def get_ctail_def read_sync.simps [of _ _ _ _ "ctail l'"])
        (simp add: nr1_def)
    then show ?thesis using n2 same_shape_trans [OF shape n2(4)]
      by (intro exI [of _ "Inr resp"] exI [of _ nr2]) simp
  qed
qed

text \<open>Three turns are enough: the first attempt, one replica to wake up, and the second attempt.\<close>

lemma read_loop_linear:
  assumes inv: "nr_inv scr D d0 h nr" and quiet: "nr_quiet nr" and tkn: "token_ok tkn nr" and env: "uncontended env"
    and m: "0 < m" and n: "3 \<le> n" and run: "run_ops D (map fst h) d0 = Inr (qs, d)" and fin: "reads fin (rtkn tkn) d resp"
  shows "write_done scr D d0 h resp nr (read_loop scr af env D n (read_attempt scr D m (rid tkn) fin) [Exec False] tkn nr)"
proof -
  obtain k where k: "n = Suc (Suc (Suc k))" using n by (auto simp: numeral_3_eq_3 le_iff_add)
  let ?i = "rid tkn"
  have T: "?i < length (replicas nr)" "1 \<le> rtkn tkn" "rtkn tkn < rep_next (replicas nr ! ?i)" using tkn by (simp_all add: token_ok_def)
  have env': "\<forall>k. (\<forall>i. fst (env j k) i) \<and> snd (env j k)" for j using env by (simp add: uncontended_def)
  from attempt_first [OF inv quiet T run fin m env'] obtain out nr1 where
    a: "read_attempt scr D m ?i fin (env (Suc (Suc k))) False nr = Inr (out, nr1)" "same_shape nr nr1" "nr_inv scr D d0 h nr1"
    and post: "case out of
         Inr x \<Rightarrow> x = resp \<and> nr_quiet nr1
       | Inl err \<Rightarrow> (\<forall>j<length (replicas nr1). j \<noteq> ?i \<longrightarrow> rep_idle (replicas nr1 ! j)) \<and> rep_resting (replicas nr1 ! ?i)
           \<and> ltails (nr_log nr1) ! ?i = tail (nr_log nr1)
           \<and> (case err of NoLogSpace e \<Rightarrow> e < length (replicas nr1) \<and> e \<noteq> ?i
              | GcFailed e \<Rightarrow> e < length (replicas nr1) \<and> e \<noteq> ?i \<and> combiner (replicas nr1 ! ?i) = 0)"
    by blast
  show ?thesis
  proof (cases out)
    case (Inr x)
    then show ?thesis using a post by (simp add: k write_done_def)
  next
    case (Inl err)
    then obtain e b where e: "e < length (replicas nr1)" "e \<noteq> ?i" "b \<or> combiner (replicas nr1 ! ?i) = 0"
      and err: "err = (if b then NoLogSpace e else GcFailed e)"
      using post by (cases err) (simp_all, metis+)
    from Inl post have p: "\<forall>j<length (replicas nr1). j \<noteq> ?i \<longrightarrow> rep_idle (replicas nr1 ! j)" "rep_resting (replicas nr1 ! ?i)"
      "ltails (nr_log nr1) ! ?i = tail (nr_log nr1)" by simp_all
    from sync_other [OF a(3) e(1) _ run] p(1) e obtain l' r' where
      s: "on_replica e (as_method (try_sync scr True D)) nr1 = Inr ((), nr1\<lparr>nr_log := l', replicas := (replicas nr1)[e := r']\<rparr>)"
      "nr_inv scr D d0 h (nr1\<lparr>nr_log := l', replicas := (replicas nr1)[e := r']\<rparr>)"
      "same_shape nr1 (nr1\<lparr>nr_log := l', replicas := (replicas nr1)[e := r']\<rparr>)"
      "rep_idle r'" "others_kept (e + 1) (nr_log nr1) l'" "log_inv scr l' h" by blast
    define nr2 where "nr2 = switched af e (nr1\<lparr>nr_log := l', replicas := (replicas nr1)[e := r']\<rparr>)"
    have inv2: "nr_inv scr D d0 h nr2" and shape2: "same_shape nr nr2"
      using s(2,3) same_shape_trans [OF a(2) s(3)] by (simp_all add: nr2_def)
    have tail: "tail l' = tail (nr_log nr1)" using log_invD(2) [OF s(6)] log_invD(2) [OF nr_invD(1) [OF a(3)]] by simp
    have q: "?i < length (replicas nr2)" "rtkn tkn < rep_next (replicas nr2 ! ?i)" "rep_resting (replicas nr2 ! ?i)"
      "b \<or> combiner (replicas nr2 ! ?i) = 0" "ltails (nr_log nr2) ! ?i = tail (nr_log nr2)"
      "\<forall>j<length (replicas nr2). j \<noteq> ?i \<longrightarrow> rep_idle (replicas nr2 ! j)"
      using T shape2 e p s(4,5) tail by (auto simp: nr2_def same_shape_def others_kept_def nth_list_update)
    from attempt_synced [OF inv2 q(1) T(2) q(2,6,3,4,5) run fin, of m "env k"] obtain nr3 where
      f: "read_attempt scr D m ?i fin (env k) b nr2 = Inr (Inr resp, nr3)" "nr_inv scr D d0 h nr3" "nr_quiet nr3" "same_shape nr2 nr3"
      by blast
    have won: "snd (env (Suc k) 0)" using env' by simp
    have "read_loop scr af env D n (read_attempt scr D m ?i fin) [Exec False] tkn nr = Inr (resp, nr3)"
      using a(1) Inl err e(2) s(1) f(1) won by (cases b) (simp_all add: k push_ok nr2_def)
    then show ?thesis using f same_shape_trans [OF shape2 f(4)] by (simp add: write_done_def)
  qed
qed

lemma reads_plain: "dispatch D d ro = Inr resp \<Longrightarrow> reads (read_data D ro tid) tid d resp"
  using read_data_ok [of _ tid D ro resp] by (auto simp: reads_def same_threads_def)

lemma reads_anchor:
  fixes D :: "('d, 'ro, 'op, 'r) dispatcher"
  assumes "dispatch D d ro = Inr resp"
  shows "reads (\<lambda>r. bind_run (read_data D ro tid r) (\<lambda>(x, r2).
      bind_run (store_notif tid (cn_idx D x) r2) (\<lambda>r3. Inr (x, r3)))) tid d resp"
  unfolding reads_def
proof (intro allI impI)
  fix r :: "('d, 'op, 'r) nr_replica"
  assume r: "rep_wf r" "1 \<le> tid" "tid < rep_next r" "rw_data (rep_data r) = d"
  have "tid - 1 < length (change_notif r)" using r(2,3) rep_wfD(4,8) [OF r(1)] by linarith
  then show "\<exists>r'. bind_run (read_data D ro tid r) (\<lambda>(x, r2).
      bind_run (store_notif tid (cn_idx D x) r2) (\<lambda>r3. Inr (x, r3))) = Inr (resp, r') \<and> rep_wf r' \<and> rep_data r' = rep_data r
      \<and> contexts r' = contexts r \<and> combiner r' = combiner r \<and> same_threads r r'"
    using read_data_ok [OF r(1-3), of D ro resp] assms r
    by (simp add: store_notif_def rep_wf_def same_threads_def)
qed

end
