(* ===== verification/Nr_Object.thy ===== *)
theory Nr_Object
  imports Nr_Reads
begin

text \<open>
  The replicated object as an implementation of the sequential data structure: the contract of a
  replicated object as a locale, the constructors that establish it, and the refinement of whole
  sequences of calls issued on any replica.
\<close>

section \<open>Sequences of calls\<close>

datatype ('op, 'ro, 't) call = Write 'op 't | Read 'ro 't

fun seq_run :: "('d, 'ro, 'op, 'r) dispatcher \<Rightarrow> ('op, 'ro, 't) call list \<Rightarrow> 'd \<Rightarrow> ('r list \<times> 'd) run" where
  "seq_run D [] d = Inr ([], d)"
| "seq_run D (Write oper t # cs) d =
     bind_run (dispatch_mut D oper d) (\<lambda>(r, d1). bind_run (seq_run D cs d1) (\<lambda>(rs, d2). Inr (r # rs, d2)))"
| "seq_run D (Read ro t # cs) d =
     bind_run (dispatch D d ro) (\<lambda>r. bind_run (seq_run D cs d) (\<lambda>(rs, d2). Inr (r # rs, d2)))"

fun obj_run :: "('op \<Rightarrow> 't \<Rightarrow> 's \<Rightarrow> ('r \<times> 's) run) \<Rightarrow> ('ro \<Rightarrow> 't \<Rightarrow> 's \<Rightarrow> ('r \<times> 's) run)
    \<Rightarrow> ('op, 'ro, 't) call list \<Rightarrow> 's \<Rightarrow> ('r list \<times> 's) run" where
  "obj_run wr rd [] s = Inr ([], s)"
| "obj_run wr rd (Write oper t # cs) s =
     bind_run (wr oper t s) (\<lambda>(r, s1). bind_run (obj_run wr rd cs s1) (\<lambda>(rs, s2). Inr (r # rs, s2)))"
| "obj_run wr rd (Read ro t # cs) s =
     bind_run (rd ro t s) (\<lambda>(r, s1). bind_run (obj_run wr rd cs s1) (\<lambda>(rs, s2). Inr (r # rs, s2)))"

fun call_token :: "('op, 'ro, 't) call \<Rightarrow> 't" where
  "call_token (Write _ t) = t"
| "call_token (Read _ t) = t"

text \<open>
  The contract: \<open>rel d s\<close> says that the object \<open>s\<close> stands for the sequential state \<open>d\<close>, and \<open>ok t s\<close>
  that token \<open>t\<close> may call it. A call that the sequential structure answers is answered the same way.
\<close>

locale replicated_object =
  fixes D :: "('d, 'ro, 'op, 'r) dispatcher" and rel :: "'d \<Rightarrow> 's \<Rightarrow> bool" and ok :: "'t \<Rightarrow> 's \<Rightarrow> bool"
    and wr :: "'op \<Rightarrow> 't \<Rightarrow> 's \<Rightarrow> ('r \<times> 's) run" and rd :: "'ro \<Rightarrow> 't \<Rightarrow> 's \<Rightarrow> ('r \<times> 's) run"
  assumes wr_ok: "rel d s \<Longrightarrow> ok t s \<Longrightarrow> dispatch_mut D oper d = Inr (r, d') \<Longrightarrow>
      \<exists>s'. wr oper t s = Inr (r, s') \<and> rel d' s' \<and> (\<forall>t. ok t s \<longrightarrow> ok t s')"
    and rd_ok: "rel d s \<Longrightarrow> ok t s \<Longrightarrow> dispatch D d ro = Inr r \<Longrightarrow>
      \<exists>s'. rd ro t s = Inr (r, s') \<and> rel d s' \<and> (\<forall>t. ok t s \<longrightarrow> ok t s')"
begin

lemma run_refines:
  assumes "rel d s" "\<forall>c\<in>set cs. ok (call_token c) s" "seq_run D cs d = Inr (rs, d')"
  shows "\<exists>s'. obj_run wr rd cs s = Inr (rs, s') \<and> rel d' s' \<and> (\<forall>t. ok t s \<longrightarrow> ok t s')"
  using assms
proof (induction cs arbitrary: d s rs)
  case (Cons c cs)
  have tok: "ok (call_token c) s" using Cons.prems(2) by simp
  show ?case
  proof (cases c)
    case (Write oper t)
    with Cons.prems(3) obtain r d1 rs1 where d1: "dispatch_mut D oper d = Inr (r, d1)"
      and rest: "seq_run D cs d1 = Inr (rs1, d')" and rs: "rs = r # rs1"
      by (auto simp: bind_run_Inr)
    from wr_ok [OF Cons.prems(1) _ d1] tok Write obtain s1 where
      s1: "wr oper t s = Inr (r, s1)" "rel d1 s1" "\<forall>t. ok t s \<longrightarrow> ok t s1" by auto
    moreover have "\<forall>c\<in>set cs. ok (call_token c) s1" using Cons.prems(2) s1(3) by simp
    from Cons.IH [OF s1(2) this rest] obtain s2 where
      "obj_run wr rd cs s1 = Inr (rs1, s2)" "rel d' s2" "\<forall>t. ok t s1 \<longrightarrow> ok t s2" by blast
    ultimately show ?thesis using Write rs by simp
  next
    case (Read ro t)
    with Cons.prems(3) obtain r rs1 where d1: "dispatch D d ro = Inr r"
      and rest: "seq_run D cs d = Inr (rs1, d')" and rs: "rs = r # rs1"
      by (auto simp: bind_run_Inr)
    from rd_ok [OF Cons.prems(1) _ d1] tok Read obtain s1 where
      s1: "rd ro t s = Inr (r, s1)" "rel d s1" "\<forall>t. ok t s \<longrightarrow> ok t s1" by auto
    moreover have "\<forall>c\<in>set cs. ok (call_token c) s1" using Cons.prems(2) s1(3) by simp
    from Cons.IH [OF s1(2) this rest] obtain s2 where
      "obj_run wr rd cs s1 = Inr (rs1, s2)" "rel d' s2" "\<forall>t. ok t s1 \<longrightarrow> ok t s2" by blast
    ultimately show ?thesis using Read rs by simp
  qed
qed simp

end

section \<open>Node replication keeps the contract\<close>

definition represents :: "bool \<Rightarrow> (nat \<Rightarrow> env) \<Rightarrow> ('d, 'ro, 'op, 'r) dispatcher \<Rightarrow> 'd \<Rightarrow> nat \<Rightarrow> nat
    \<Rightarrow> 'd \<Rightarrow> ('d, 'op, 'r) node_replicated \<Rightarrow> bool" where
  "represents scr env D d0 m n d nr \<longleftrightarrow>
     uncontended env \<and> 0 < m \<and> 2 * length (replicas nr) < n \<and> 3 \<le> n \<and> nr_quiet nr
     \<and> (\<exists>h qs. nr_inv scr D d0 h nr \<and> run_ops D (map fst h) d0 = Inr (qs, d))"

lemma represents_write:
  assumes "represents scr env D d0 m n d nr" "token_ok tkn nr" "dispatch_mut D oper d = Inr (r, d')"
  shows "\<exists>nr'. execute_mut scr af env D m n oper tkn nr = Inr (r, nr') \<and> represents scr env D d0 m n d' nr'
    \<and> (\<forall>t. token_ok t nr \<longrightarrow> token_ok t nr')"
proof -
  from assms(1) obtain h qs where h: "nr_inv scr D d0 h nr" "run_ops D (map fst h) d0 = Inr (qs, d)"
    and p: "nr_quiet nr" "uncontended env" "0 < m" "2 * length (replicas nr) < n" "3 \<le> n"
    by (auto simp: represents_def)
  from execute_mut_linear [OF h(1) p(1) assms(2) p(2-4) h(2) assms(3), of af] obtain nr' where
    "execute_mut scr af env D m n oper tkn nr = Inr (r, nr')" "nr_inv scr D d0 (h @ [(oper, rid tkn + 1)]) nr'"
    "nr_quiet nr'" "same_shape nr nr'" by (auto simp: write_done_def)
  moreover have "run_ops D (map fst (h @ [(oper, rid tkn + 1)])) d0 = Inr (qs @ [r], d')"
    using h(2) assms(3) by (simp add: run_ops_append)
  ultimately show ?thesis
    using p same_shape_token [of nr nr'] by (auto simp: represents_def same_shape_def)
qed

lemma represents_read:
  assumes "represents scr env D d0 m n d nr" "token_ok tkn nr" "reads fin (rtkn tkn) d r"
    and "exe = read_loop scr af env D n (read_attempt scr D m (rid tkn) fin) [Exec False] tkn"
  shows "\<exists>nr'. exe nr = Inr (r, nr') \<and> represents scr env D d0 m n d nr' \<and> (\<forall>t. token_ok t nr \<longrightarrow> token_ok t nr')"
proof -
  from assms(1) obtain h qs where h: "nr_inv scr D d0 h nr" "run_ops D (map fst h) d0 = Inr (qs, d)"
    and p: "nr_quiet nr" "uncontended env" "0 < m" "3 \<le> n" "2 * length (replicas nr) < n"
    by (auto simp: represents_def)
  from read_loop_linear [OF h(1) p(1) assms(2) p(2-4) h(2) assms(3), of af] obtain nr' where
    "exe nr = Inr (r, nr')" "nr_inv scr D d0 h nr'" "nr_quiet nr'" "same_shape nr nr'"
    by (auto simp: write_done_def assms(4))
  then show ?thesis using h(2) p same_shape_token [of nr nr'] by (auto simp: represents_def same_shape_def)
qed

lemma execute_read_loop:
  "execute scr af env D m n ro tkn nr =
     read_loop scr af env D n (read_attempt scr D m (rid tkn) (read_data D ro (rtkn tkn))) [Exec False] tkn nr"
  by (simp add: execute_def push_ok try_execute_attempt)

lemma execute_anchor_read_loop:
  "execute_anchor scr af env D m n ro tkn nr =
     read_loop scr af env D n (read_attempt scr D m (rid tkn) (\<lambda>r. bind_run (read_data D ro (rtkn tkn) r) (\<lambda>(resp, r2).
        bind_run (store_notif (rtkn tkn) (cn_idx D resp) r2) (\<lambda>r3. Inr (resp, r3))))) [Exec False] tkn nr"
  by (simp add: execute_anchor_def push_ok try_execute_anchor_attempt)

interpretation nro: replicated_object D "represents scr env D d0 m n" token_ok
  "execute_mut scr af env D m n" "execute scr af env D m n"
proof (unfold_locales, goal_cases)
  case (1 d s t oper r d')
  then show ?case by (rule represents_write)
next
  case (2 d s t ro r)
  then show ?case unfolding execute_read_loop using reads_plain by (intro represents_read) auto
qed

interpretation nra: replicated_object D "represents scr env D d0 m n" token_ok
  "execute_mut scr af env D m n" "execute_anchor scr af env D m n"
proof (unfold_locales, goal_cases)
  case (1 d s t oper r d')
  then show ?case by (rule represents_write)
next
  case (2 d s t ro r)
  then show ?case unfolding execute_anchor_read_loop using reads_anchor by (intro represents_read) auto
qed

section \<open>Construction and registration\<close>

definition fresh_replica :: "'d \<Rightarrow> (nat \<Rightarrow> ('d, 'op, 'r) nr_replica) \<Rightarrow> bool" where
  "fresh_replica d0 mk \<longleftrightarrow> (\<forall>tkn. rep_wf (mk tkn) \<and> rep_idle (mk tkn) \<and> rep_next (mk tkn) = 1
     \<and> log_tkn (mk tkn) = tkn \<and> rw_data (rep_data (mk tkn)) = d0)"

lemma ctx_default_inv:
  "ctx_inv (context_default m)" "pending_ops (context_default m) = []" "answers (context_default m) = []"
  by (simp_all add: ctx_inv_def pending_ops_def answers_def context_default_def)

lemma fresh_with_data:
  "fresh_replica d (\<lambda>tkn. replica_with_data tkn d)" "fresh_replica d (\<lambda>tkn. replica_with_data_base_addr tkn d addr ssize)"
  by (simp_all add: fresh_replica_def replica_with_data_def replica_with_data_base_addr_def rep_wf_def rep_idle_def
      list_all_length ctx_default_inv rwlock_new_def rw_free_def MAX_THREADS_PER_REPLICA_def)

definition fresh_object :: "bool \<Rightarrow> ('d, 'ro, 'op, 'r) dispatcher \<Rightarrow> 'd \<Rightarrow> nat \<Rightarrow> ('d, 'op, 'r) node_replicated \<Rightarrow> bool" where
  "fresh_object scr D d0 k nr \<longleftrightarrow> nr_inv scr D d0 [] nr \<and> nr_quiet nr \<and> length (replicas nr) = k
     \<and> head (nr_log nr) = 0 \<and> (\<forall>i<k. ltails (nr_log nr) ! i = 0 \<and> rep_next (replicas nr ! i) = 1)"

lemma build_step:
  assumes fresh: "fresh_object scr D d0 k nr" and k: "k + 1 < MAX_REPLICAS_PER_LOG" and mk: "fresh_replica d0 mk"
  shows "log_register 0 (nr_log nr) = (Some (k + 1), (nr_log nr)\<lparr>next_id := k + 1 + 1\<rparr>)"
    and "fresh_object scr D d0 (k + 1) (nr\<lparr>nr_log := (nr_log nr)\<lparr>next_id := k + 1 + 1\<rparr>, replicas := replicas nr @ [mk (k + 1)], af_trace := tr\<rparr>)"
proof -
  let ?l = "(nr_log nr)\<lparr>next_id := k + 1 + 1\<rparr>" and ?r = "mk (k + 1)"
  have inv: "nr_inv scr D d0 [] nr" and quiet: "nr_quiet nr" and len: "length (replicas nr) = k"
    and hd: "head (nr_log nr) = 0" and lt: "\<forall>i<k. ltails (nr_log nr) ! i = 0 \<and> rep_next (replicas nr ! i) = 1" using fresh by (simp_all add: fresh_object_def)
  note I = nr_invD [OF inv]
  have id: "next_id (nr_log nr) = k + 1" using I(2) len by simp
  show "log_register 0 (nr_log nr) = (Some (k + 1), ?l)" using id k unfolding log_register_eq by simp
  have new: "log_inv scr ?l []" using log_inv_register [OF I(1) hd] id k by simp
  have zero: "ltails (nr_log nr) ! k = 0"
    using log_invD(6) [OF I(1)] id k unfolding replicas_inside_def by (metis add_diff_cancel_right' add_leD1 less_imp_le_nat order_refl)
  have "rep_inv D d0 [] ?l ?r"
    using mk k by (simp add: fresh_replica_def rep_inv_def rep_at_def registered_def)
  moreover have "rep_inv D d0 [] ?l (replicas nr ! i)" if "i < k" for i
    using I(3) [of i] that len id by (auto simp: rep_inv_def rep_at_def registered_def)
  ultimately have "nr_inv scr D d0 [] (nr\<lparr>nr_log := ?l, replicas := replicas nr @ [?r], af_trace := tr\<rparr>)"
    using new len I(4) mk by (auto simp: nr_inv_def nth_append fresh_replica_def less_Suc_eq)
  moreover have "nr_quiet (nr\<lparr>nr_log := ?l, replicas := replicas nr @ [?r], af_trace := tr\<rparr>)"
    using quiet mk len by (auto simp: nr_quiet_def nth_append fresh_replica_def less_Suc_eq)
  ultimately show "fresh_object scr D d0 (k + 1) (nr\<lparr>nr_log := ?l, replicas := replicas nr @ [?r], af_trace := tr\<rparr>)"
    using len hd lt zero mk by (auto simp: fresh_object_def fresh_replica_def nth_append less_Suc_eq simp flip: Suc_eq_plus1)
qed

lemma build_replicas_ok:
  assumes "fresh_object scr D d0 k nr" "k \<le> num" "num < MAX_REPLICAS_PER_LOG" "fresh_replica d0 mk" "\<forall>i. mem i"
  shows "\<exists>nr'. build_replicas mk af mem [k..<num] nr = Inr (Inr nr') \<and> fresh_object scr D d0 num nr'"
  using assms(1,2)
proof (induction "num - k" arbitrary: k nr)
  case 0
  then show ?case by simp
next
  case (Suc j)
  have k: "k + 1 < MAX_REPLICAS_PER_LOG" "k < num" using Suc assms(3) by simp_all
  note step = build_step [OF Suc.prems(1) k(1) assms(4)]
  let ?nr = "nr\<lparr>nr_log := (nr_log nr)\<lparr>next_id := k + 1 + 1\<rparr>, replicas := replicas nr @ [mk (k + 1)], af_trace := with_affinity af k (af_trace nr)\<rparr>"
  have "\<exists>nr'. build_replicas mk af mem [k + 1..<num] ?nr = Inr (Inr nr') \<and> fresh_object scr D d0 num nr'"
    using Suc.hyps step(2) k by (intro Suc.hyps(1)) auto
  moreover have "build_replicas mk af mem [k..<num] nr = build_replicas mk af mem [k + 1..<num] ?nr"
    using step(1) k assms(5) by (simp add: upt_conv_Cons Let_def flip: Suc_eq_plus1)
  ultimately show ?case by simp
qed

lemma construct_ok:
  assumes "num < MAX_REPLICAS_PER_LOG" "fresh_replica d0 mk" "\<forall>i. mem i"
  shows "\<exists>nr. construct numa mk num af mem esize bytes = Inr (Inr nr) \<and> fresh_object scr D d0 num nr"
proof -
  have "fresh_object scr D d0 0 \<lparr>nr_log = new_with_bytes () esize bytes (), replicas = [], af_trace = tr\<rparr>" for tr
    using log_inv_new [of scr] by (simp add: fresh_object_def nr_inv_def nr_quiet_def new_with_bytes_def) (simp add: new_with_entries_def)
  from build_replicas_ok [where mem = mem, OF this _ assms] show ?thesis using assms by (auto simp: construct_def Let_def)
qed

lemma nr_register_ok:
  assumes inv: "nr_inv scr D d0 h nr" and quiet: "nr_quiet nr" and i: "i < length (replicas nr)"
    and room: "rep_next (replicas nr ! i) \<le> MAX_THREADS_PER_REPLICA"
  shows "\<exists>tkn nr'. nr_register i nr = (Some tkn, nr') \<and> rid tkn = i \<and> token_ok tkn nr' \<and> \<not> token_ok tkn nr
    \<and> nr_inv scr D d0 h nr' \<and> nr_quiet nr' \<and> length (replicas nr') = length (replicas nr) \<and> (\<forall>t. token_ok t nr \<longrightarrow> token_ok t nr')
    \<and> (\<forall>j<length (replicas nr). rep_next (replicas nr' ! j) \<le> rep_next (replicas nr ! j) + 1)"
proof -
  let ?r = "replicas nr ! i"
  let ?r' = "?r\<lparr>rep_next := rep_next ?r + 1\<rparr>"
  note I = nr_invD [OF inv]
  have reg: "replica_register 0 ?r = (Some (rep_next ?r), ?r')" using room by (simp add: Let_def)
  have rep: "rep_inv D d0 h (nr_log nr) ?r'" "log_tkn ?r' = i + 1" "1 \<le> rep_next ?r"
    using I(3,4) [OF i] room by (auto simp: rep_inv_def rep_wf_def rep_at_def)
  let ?nr = "nr\<lparr>nr_log := nr_log nr, replicas := (replicas nr)[i := ?r']\<rparr>"
  have "nr_inv scr D d0 h ?nr" using nr_inv_update [OF inv i, of "nr_log nr" "[]" ?r'] I(1) rep by (simp add: others_kept_def)
  moreover have "nr_quiet ?nr" using quiet i by (auto simp: nr_quiet_def rep_idle_def nth_list_update)
  ultimately show ?thesis
    using i reg rep(3) by (auto simp: nr_register_def token_ok_def nth_list_update)
qed

text \<open>Threads registering one after the other, each with the replica it names.\<close>

fun register_all :: "nat list \<Rightarrow> ('d, 'op, 'r) node_replicated \<Rightarrow> thread_token option list \<times> ('d, 'op, 'r) node_replicated" where
  "register_all [] nr = ([], nr)"
| "register_all (i # is) nr =
     (case nr_register i nr of (t, nr1) \<Rightarrow> case register_all is nr1 of (ts, nr2) \<Rightarrow> (t # ts, nr2))"

lemma register_all_ok:
  assumes "nr_inv scr D d0 h nr" "nr_quiet nr" "\<forall>i\<in>set is. i < length (replicas nr)"
    and "\<forall>j<length (replicas nr). rep_next (replicas nr ! j) + length is \<le> MAX_THREADS_PER_REPLICA + 1"
  shows "\<exists>tkns nr'. register_all is nr = (map Some tkns, nr') \<and> nr_inv scr D d0 h nr' \<and> nr_quiet nr'
    \<and> length (replicas nr') = length (replicas nr) \<and> map rid tkns = is \<and> distinct tkns
    \<and> (\<forall>t\<in>set tkns. token_ok t nr' \<and> \<not> token_ok t nr) \<and> (\<forall>t. token_ok t nr \<longrightarrow> token_ok t nr')"
  using assms
proof (induction "is" arbitrary: nr)
  case Nil
  then show ?case by (intro exI [of _ "[]"]) simp
next
  case (Cons i "is")
  from Cons.prems obtain tkn nr1 where t: "nr_register i nr = (Some tkn, nr1)" "rid tkn = i" "token_ok tkn nr1" "\<not> token_ok tkn nr"
    "nr_inv scr D d0 h nr1" "nr_quiet nr1" "length (replicas nr1) = length (replicas nr)" "\<forall>t. token_ok t nr \<longrightarrow> token_ok t nr1"
    "\<forall>j<length (replicas nr). rep_next (replicas nr1 ! j) \<le> rep_next (replicas nr ! j) + 1"
    using nr_register_ok [OF Cons.prems(1,2), of i] by fastforce
  have "\<forall>i\<in>set is. i < length (replicas nr1)" using Cons.prems(3) t(7) by simp
  moreover have "\<forall>j<length (replicas nr1). rep_next (replicas nr1 ! j) + length is \<le> MAX_THREADS_PER_REPLICA + 1"
    using Cons.prems(4) t(7,9) by fastforce
  ultimately obtain tkns nr2 where u: "register_all is nr1 = (map Some tkns, nr2)" "nr_inv scr D d0 h nr2" "nr_quiet nr2"
    "length (replicas nr2) = length (replicas nr1)" "map rid tkns = is" "distinct tkns"
    "\<forall>t\<in>set tkns. token_ok t nr2 \<and> \<not> token_ok t nr1" "\<forall>t. token_ok t nr1 \<longrightarrow> token_ok t nr2"
    using Cons.IH [OF t(5,6)] by blast
  show ?case using t u by (intro exI [of _ "tkn # tkns"] exI [of _ nr2]) auto
qed

lemma seq_run_tokens: "seq_run D (map (map_call id id f) cs) d = seq_run D cs d"
proof (induction cs arbitrary: d)
  case (Cons c cs)
  then show ?case by (cases c) simp_all
qed simp

lemma call_token_map [simp]: "call_token (map_call f g k c) = k (call_token c)"
  by (cases c) simp_all

end
