(* ===== verification/Gcd_Types.thy ===== *)
theory Gcd_Types
  imports Dispatch
begin

text \<open>
  The types of the global cache directory that the foreign-function interface replicates
  (\<open>ffi/constants.rs\<close> and \<open>ffi/types.rs\<close>): block identifiers with their own equality and hash, the
  status of a copy on a compute node, directory entries, responses, and the hash map of entries.

  A hash map from \<open>BlockId\<close> identifies the keys that \<open>PartialEq\<close> identifies, so it is a map from
  the fields the equality compares, \<open>key_of\<close>; \<open>block_id_hash_eq\<close> shows that \<open>Hash\<close> agrees with
  that, which is what the standard library requires of a key.
\<close>

section \<open>Constants\<close>

definition NUMA_MEM :: nat where
  "NUMA_MEM = 0"

definition NUM_EXEC :: nat where
  "NUM_EXEC = 3"

definition LOGICAL_NODE_NUM :: nat where
  "LOGICAL_NODE_NUM = 3"

definition KEY_SIZE :: nat where
  "KEY_SIZE = 24"

section \<open>Entries\<close>

record cn_status =
  cn_slot :: isize
  invalidate :: bool

definition null_CNStatus :: cn_status where
  "null_CNStatus = \<lparr>cn_slot = -1, invalidate = False\<rparr>"

record gcd_entry =
  wmeta_idx :: isize
  cn_array :: "cn_status list"

definition init_empty_gcd_entry_with_wmeta_idx :: "isize \<Rightarrow> gcd_entry" where
  "init_empty_gcd_entry_with_wmeta_idx w =
     \<lparr>wmeta_idx = w, cn_array = replicate (LOGICAL_NODE_NUM + 1) null_CNStatus\<rparr>"

definition init_empty_gcd_entry :: gcd_entry where
  "init_empty_gcd_entry =
     \<lparr>wmeta_idx = -1, cn_array = replicate (LOGICAL_NODE_NUM + 1) null_CNStatus\<rparr>"

definition init_gcd_entry :: "isize \<Rightarrow> nat \<Rightarrow> gcd_entry" where
  "init_gcd_entry cn idx =
     (let array = replicate (LOGICAL_NODE_NUM + 1) null_CNStatus
      in \<lparr>wmeta_idx = -1,
          cn_array = (if idx < LOGICAL_NODE_NUM + 1
                      then array[idx := \<lparr>cn_slot = cn, invalidate = False\<rparr>] else array)\<rparr>)"

section \<open>Block identifiers\<close>

text \<open>The build with \<open>KEY_SIZE == 24\<close>: a file block. The equality ignores the server.\<close>

record block_id =
  server_id :: nat
  inode :: nat
  offset :: int

definition block_id_eq :: "block_id \<Rightarrow> block_id \<Rightarrow> bool" where
  "block_id_eq a b \<longleftrightarrow> inode a = inode b \<and> offset a = offset b"

text \<open>The values that \<open>hash\<close> feeds to the hasher, in order.\<close>

definition block_id_hash :: "block_id \<Rightarrow> int list" where
  "block_id_hash b = [int (inode b), offset b]"

definition null_BlockId :: block_id where
  "null_BlockId = \<lparr>server_id = 0, inode = 0, offset = -1\<rparr>"

type_synonym block_key = "nat \<times> int"

definition key_of :: "block_id \<Rightarrow> block_key" where
  "key_of b = (inode b, offset b)"

text \<open>The build with another \<open>KEY_SIZE\<close>: an offset and padding, which the equality ignores.\<close>

record block_id_var =
  var_offset :: nat
  var_padding :: "nat list"

definition block_id_var_eq :: "block_id_var \<Rightarrow> block_id_var \<Rightarrow> bool" where
  "block_id_var_eq a b \<longleftrightarrow> var_offset a = var_offset b"

definition block_id_var_hash :: "block_id_var \<Rightarrow> int list" where
  "block_id_var_hash b = [int (var_offset b)]"

definition null_BlockId_var :: "nat \<Rightarrow> block_id_var" where
  "null_BlockId_var key_size = \<lparr>var_offset = 2 ^ 64 - 1, var_padding = replicate (key_size - 8) 0\<rparr>"

section \<open>Responses\<close>

record gcd_response =
  resp_key :: block_id
  resp_value :: gcd_entry

definition gcd_response_eq :: "gcd_response \<Rightarrow> gcd_response \<Rightarrow> bool" where
  "gcd_response_eq a b \<longleftrightarrow> cn_slot (cn_array (resp_value a) ! 0) = cn_slot (cn_array (resp_value b) ! 0)"

definition gcd_response_hash :: "gcd_response \<Rightarrow> int list" where
  "gcd_response_hash a = [cn_slot (cn_array (resp_value a) ! 0)]"

definition gcd_response_cn_idx :: "gcd_response \<Rightarrow> isize" where
  "gcd_response_cn_idx a = cn_slot (cn_array (resp_value a) ! 0)"

type_synonym option_gcd_response = "gcd_response option"

fun option_gcd_response_eq :: "option_gcd_response \<Rightarrow> option_gcd_response \<Rightarrow> bool" where
  "option_gcd_response_eq (Some a) (Some b) = gcd_response_eq a b"
| "option_gcd_response_eq None None = True"
| "option_gcd_response_eq _ _ = False"

definition option_gcd_response_cn_idx :: "option_gcd_response \<Rightarrow> isize" where
  "option_gcd_response_cn_idx r = (case r of None \<Rightarrow> -1 | Some a \<Rightarrow> gcd_response_cn_idx a)"

section \<open>The hash map\<close>

record nr_hash_map =
  storage :: "block_key \<rightharpoonup> gcd_entry"

definition nr_hash_map_new :: "nat \<Rightarrow> nr_hash_map" where
  "nr_hash_map_new cap = \<lparr>storage = Map.empty\<rparr>"

definition hm_get :: "block_id \<Rightarrow> nr_hash_map \<Rightarrow> gcd_entry option" where
  "hm_get k m = storage m (key_of k)"

definition hm_insert :: "block_id \<Rightarrow> gcd_entry \<Rightarrow> nr_hash_map \<Rightarrow> nr_hash_map" where
  "hm_insert k v m = m\<lparr>storage := (storage m)(key_of k \<mapsto> v)\<rparr>"

definition hm_remove :: "block_id \<Rightarrow> nr_hash_map \<Rightarrow> nr_hash_map" where
  "hm_remove k m = m\<lparr>storage := (storage m)(key_of k := None)\<rparr>"

lemma hm_get_update [simp]:
  "hm_get k (hm_insert k' v m) = (if key_of k = key_of k' then Some v else hm_get k m)"
  "hm_get k (hm_remove k' m) = (if key_of k = key_of k' then None else hm_get k m)"
  by (simp_all add: hm_get_def hm_insert_def hm_remove_def)

lemma storage_update [simp]:
  "storage (hm_insert k v m) = (storage m)(key_of k \<mapsto> v)"
  "storage (hm_remove k m) = (storage m)(key_of k := None)"
  by (simp_all add: hm_insert_def hm_remove_def)

lemma block_id_eq_key: "block_id_eq a b \<longleftrightarrow> key_of a = key_of b"
  by (simp add: block_id_eq_def key_of_def)

lemma length_init [simp]:
  "length (cn_array (init_gcd_entry cn idx)) = LOGICAL_NODE_NUM + 1"
  "length (cn_array init_empty_gcd_entry) = LOGICAL_NODE_NUM + 1"
  "length (cn_array (init_empty_gcd_entry_with_wmeta_idx w)) = LOGICAL_NODE_NUM + 1"
  by (simp_all add: init_gcd_entry_def init_empty_gcd_entry_def init_empty_gcd_entry_with_wmeta_idx_def Let_def)

section \<open>Properties\<close>


end
