(* ===== verification/Gcd_Directory.thy ===== *)
theory Gcd_Directory
  imports Gcd_Types
begin

text \<open>
  The global cache directory as a replicated data structure: the operations \<open>Modify\<close> and \<open>Access\<close>
  and the \<open>Dispatch\<close> instance of \<open>NrHashMapFFi\<close> (\<open>ffi/ffi_nr_hashmap.rs\<close>), one definition per
  branch of \<open>dispatch_mut\<close>. An index beyond the copies of an entry and the explicit \<open>panic!\<close>s are
  failures of the run.
\<close>

section \<open>Operations\<close>

datatype modify =
    Put block_id gcd_entry
  | CheckPut block_id gcd_entry
  | Delete block_id
  | Swap block_id block_id gcd_entry
  | PutArray block_id isize nat
  | PutArrayWmeta block_id isize nat isize
  | CheckPutArray block_id isize nat
  | CheckPutArrayWmeta block_id isize nat isize
  | CheckPutSwapArray block_id isize nat nat
  | InvalidateArray block_id nat
  | InvalidateExceptArray block_id nat
  | InvalidateExceptArrayUpdateWmeta block_id nat isize
  | CheckMoveLocalArray block_id isize nat
  | DeleteArray block_id nat
  | DeleteIfArray block_id nat
  | CheckSwapArray block_id block_id isize nat nat
  | CheckSwitchWmetaArray block_id isize
  | DummyLog block_id

datatype access = Get block_id

type_synonym gcd_run = "(option_gcd_response \<times> nr_hash_map) run"

section \<open>Reading and writing the copies of an entry\<close>

definition cn_get :: "gcd_entry \<Rightarrow> nat \<Rightarrow> cn_status run" where
  "cn_get e idx = array_get (cn_array e) idx"

definition cn_set :: "nat \<Rightarrow> cn_status \<Rightarrow> gcd_entry \<Rightarrow> gcd_entry run" where
  "cn_set idx s e =
     (if idx < length (cn_array e) then Inr (e\<lparr>cn_array := (cn_array e)[idx := s]\<rparr>) else Inl index_panic)"

definition valid_cn :: "isize \<Rightarrow> cn_status" where
  "valid_cn cn = \<lparr>cn_slot = cn, invalidate = False\<rparr>"

definition respond :: "block_id \<Rightarrow> gcd_entry \<Rightarrow> nr_hash_map \<Rightarrow> gcd_run" where
  "respond key value m = Inr (Some \<lparr>resp_key = key, resp_value = value\<rparr>, m)"

definition no_response :: "nr_hash_map \<Rightarrow> gcd_run" where
  "no_response m = Inr (None, m)"

text \<open>\<open>entry.cn_array_.iter().all(|status| status.cn_idx_ == -1)\<close>\<close>

definition no_copies :: "gcd_entry \<Rightarrow> bool" where
  "no_copies e \<longleftrightarrow> list_all (\<lambda>status. cn_slot status = -1) (cn_array e)"

text \<open>The entry of a key after a copy was deleted: written back, or removed when nothing is left.\<close>

definition store_or_remove :: "block_id \<Rightarrow> gcd_entry \<Rightarrow> nr_hash_map \<Rightarrow> nr_hash_map" where
  "store_or_remove key e m = (let m' = hm_insert key e m in if no_copies e then hm_remove key m' else m')"

section \<open>The branches of \<open>dispatch_mut\<close>\<close>

definition put :: "block_id \<Rightarrow> gcd_entry \<Rightarrow> nr_hash_map \<Rightarrow> gcd_run" where
  "put key value m = respond key value (hm_insert key value m)"

definition check_put :: "block_id \<Rightarrow> gcd_entry \<Rightarrow> nr_hash_map \<Rightarrow> gcd_run" where
  "check_put key value m =
     (if hm_get key m = None then respond key value (hm_insert key value m) else no_response m)"

definition delete :: "block_id \<Rightarrow> nr_hash_map \<Rightarrow> gcd_run" where
  "delete key m =
     (case hm_get key m of
        Some entry \<Rightarrow>
          (let old_wmeta_index = wmeta_idx entry
           in respond key (init_empty_gcd_entry_with_wmeta_idx old_wmeta_index) (hm_remove key m))
      | None \<Rightarrow> no_response m)"

definition swap_block :: "block_id \<Rightarrow> block_id \<Rightarrow> gcd_entry \<Rightarrow> nr_hash_map \<Rightarrow> gcd_run" where
  "swap_block to_remove to_insert value m = no_response (hm_insert to_insert value (hm_remove to_remove m))"

definition put_array :: "block_id \<Rightarrow> isize \<Rightarrow> nat \<Rightarrow> nr_hash_map \<Rightarrow> gcd_run" where
  "put_array key cn idx m =
     (case hm_get key m of
        None \<Rightarrow> (let value = init_gcd_entry cn idx in respond key value (hm_insert key value m))
      | Some entry \<Rightarrow>
          bind_run (cn_set idx (valid_cn cn) entry) (\<lambda>entry'. respond key entry' (hm_insert key entry' m)))"

definition check_put_array :: "block_id \<Rightarrow> isize \<Rightarrow> nat \<Rightarrow> nr_hash_map \<Rightarrow> gcd_run" where
  "check_put_array key cn idx m =
     (case hm_get key m of
        None \<Rightarrow> (let value = init_gcd_entry cn idx in respond key value (hm_insert key value m))
      | Some entry \<Rightarrow>
          bind_run (cn_get entry idx) (\<lambda>status.
            if cn_slot status = -1
            then bind_run (cn_set idx (valid_cn cn) entry) (\<lambda>entry'. respond key entry' (hm_insert key entry' m))
            else no_response m))"

definition put_array_wmeta :: "block_id \<Rightarrow> isize \<Rightarrow> nat \<Rightarrow> isize \<Rightarrow> nr_hash_map \<Rightarrow> gcd_run" where
  "put_array_wmeta key cn idx wmeta m =
     (case hm_get key m of
        None \<Rightarrow>
          (let value = (init_gcd_entry cn idx)\<lparr>wmeta_idx := wmeta\<rparr> in respond key value (hm_insert key value m))
      | Some entry \<Rightarrow>
          bind_run (cn_set idx (valid_cn cn) entry) (\<lambda>entry1.
            let entry' = entry1\<lparr>wmeta_idx := wmeta\<rparr> in respond key entry' (hm_insert key entry' m)))"

definition check_put_array_wmeta :: "block_id \<Rightarrow> isize \<Rightarrow> nat \<Rightarrow> isize \<Rightarrow> nr_hash_map \<Rightarrow> gcd_run" where
  "check_put_array_wmeta key cn idx wmeta m =
     (case hm_get key m of
        None \<Rightarrow>
          (let value0 = init_gcd_entry cn idx;
               value = (if idx = NUMA_MEM then value0\<lparr>wmeta_idx := wmeta\<rparr> else value0)
           in respond key value (hm_insert key value m))
      | Some entry \<Rightarrow>
          bind_run (cn_get entry idx) (\<lambda>status.
            if cn_slot status = -1
            then if invalidate status
                 then Inl (Panic ''BUG: Attempted to put into an invalidated entry'')
                 else if wmeta_idx entry \<noteq> -1 \<and> idx \<noteq> NUMA_MEM
                 then Inl (Panic ''BUG: Attempted to add local replica while wmeta valid'')
                 else bind_run (cn_set idx (valid_cn cn) entry) (\<lambda>entry1.
                        let entry' = (if idx = NUMA_MEM then entry1\<lparr>wmeta_idx := wmeta\<rparr> else entry1)
                        in respond key entry' (hm_insert key entry' m))
            else if idx = NUMA_MEM
            then if wmeta = -1 \<or> wmeta_idx entry = -1
                 then let entry' = entry\<lparr>wmeta_idx := wmeta\<rparr> in respond null_BlockId entry' (hm_insert key entry' m)
                 else no_response m
            else no_response m))"

definition check_switch_wmeta_array :: "block_id \<Rightarrow> isize \<Rightarrow> nr_hash_map \<Rightarrow> gcd_run" where
  "check_switch_wmeta_array key wmeta m =
     (case hm_get key m of
        Some entry \<Rightarrow>
          if wmeta = -1
          then let dummy = init_empty_gcd_entry\<lparr>wmeta_idx := wmeta_idx entry\<rparr>;
                   entry' = entry\<lparr>wmeta_idx := wmeta\<rparr>
               in respond key dummy (hm_insert key entry' m)
          else if wmeta_idx entry = -1
          then let entry' = entry\<lparr>wmeta_idx := wmeta\<rparr> in respond key entry' (hm_insert key entry' m)
          else no_response m
      | None \<Rightarrow> no_response m)"

definition check_put_swap_array :: "block_id \<Rightarrow> isize \<Rightarrow> nat \<Rightarrow> nat \<Rightarrow> nr_hash_map \<Rightarrow> gcd_run" where
  "check_put_swap_array key cn new old m =
     (case hm_get key m of
        None \<Rightarrow> (let value = init_gcd_entry cn new in respond key value (hm_insert key value m))
      | Some entry \<Rightarrow>
          bind_run (cn_set old null_CNStatus entry) (\<lambda>entry1.
          bind_run (cn_get entry1 new) (\<lambda>status.
            if cn_slot status = -1
            then bind_run (cn_set new (valid_cn cn) entry1) (\<lambda>entry'. respond key entry' (hm_insert key entry' m))
            else no_response (hm_insert key entry1 m))))"

definition invalidate_array :: "block_id \<Rightarrow> nat \<Rightarrow> nr_hash_map \<Rightarrow> gcd_run" where
  "invalidate_array key idx m =
     (case hm_get key m of
        Some entry \<Rightarrow>
          bind_run (cn_get entry idx) (\<lambda>status.
            if cn_slot status \<noteq> -1
            then bind_run (cn_set idx (status\<lparr>invalidate := True\<rparr>) entry) (\<lambda>entry'. no_response (hm_insert key entry' m))
            else no_response m)
      | None \<Rightarrow> no_response m)"

text \<open>The loop \<open>for i in 0..LOGICAL_NODE_NUM + 1\<close> of the next two operations.\<close>

fun invalidate_others :: "nat \<Rightarrow> nat list \<Rightarrow> gcd_entry \<Rightarrow> gcd_entry run" where
  "invalidate_others idx [] e = Inr e"
| "invalidate_others idx (i # is) e =
     bind_run (cn_get e i) (\<lambda>status.
       if cn_slot status \<noteq> -1 \<and> idx \<noteq> i
       then bind_run (cn_set i (status\<lparr>invalidate := True\<rparr>) e) (invalidate_others idx is)
       else invalidate_others idx is e)"

definition invalidate_except_array :: "block_id \<Rightarrow> nat \<Rightarrow> nr_hash_map \<Rightarrow> gcd_run" where
  "invalidate_except_array key idx m =
     (case hm_get key m of
        Some entry \<Rightarrow>
          bind_run (invalidate_others idx [0..<LOGICAL_NODE_NUM + 1] entry) (\<lambda>entry'. no_response (hm_insert key entry' m))
      | None \<Rightarrow> no_response m)"

definition invalidate_except_array_update_wmeta :: "block_id \<Rightarrow> nat \<Rightarrow> isize \<Rightarrow> nr_hash_map \<Rightarrow> gcd_run" where
  "invalidate_except_array_update_wmeta key idx wmeta m =
     (case hm_get key m of
        Some entry \<Rightarrow>
          bind_run (invalidate_others idx [0..<LOGICAL_NODE_NUM + 1] entry) (\<lambda>entry1.
            if wmeta_idx entry1 = -1
            then let entry' = entry1\<lparr>wmeta_idx := wmeta\<rparr> in respond key entry' (hm_insert key entry' m)
            else respond null_BlockId init_empty_gcd_entry (hm_insert key entry1 m))
      | None \<Rightarrow> no_response m)"

definition check_move_local_array :: "block_id \<Rightarrow> isize \<Rightarrow> nat \<Rightarrow> nr_hash_map \<Rightarrow> gcd_run" where
  "check_move_local_array key cn idx m =
     (if idx = 0 then Inl (Panic ''BUG: cannot move to cxl'')
      else (case hm_get key m of
              None \<Rightarrow> Inl (Panic ''BUG: the key does not exist'')
            | Some entry \<Rightarrow>
                bind_run (cn_get entry idx) (\<lambda>status.
                  if cn_slot status = -1 \<or> invalidate status
                  then bind_run (cn_set idx (valid_cn cn) entry) (\<lambda>entry1.
                         let entry2 = entry1\<lparr>wmeta_idx := -1\<rparr>
                         in bind_run (cn_get entry2 0) (\<lambda>status0.
                            let val = cn_slot status0
                            in bind_run (cn_set 0 null_CNStatus entry2) (\<lambda>entry'.
                               respond key (init_gcd_entry val 0) (hm_insert key entry' m))))
                  else no_response m)))"

definition delete_array :: "block_id \<Rightarrow> nat \<Rightarrow> nr_hash_map \<Rightarrow> gcd_run" where
  "delete_array key idx m =
     (case hm_get key m of
        Some entry \<Rightarrow>
          bind_run (cn_get entry idx) (\<lambda>status.
            let val = cn_slot status
            in bind_run (cn_set idx null_CNStatus entry) (\<lambda>entry'.
               respond key (init_gcd_entry val NUMA_MEM) (store_or_remove key entry' m)))
      | None \<Rightarrow> no_response m)"

definition delete_if_array :: "block_id \<Rightarrow> nat \<Rightarrow> nr_hash_map \<Rightarrow> gcd_run" where
  "delete_if_array key idx m =
     (case hm_get key m of
        Some entry \<Rightarrow>
          (let proceed =
             bind_run (cn_get entry idx) (\<lambda>status.
               let val = cn_slot status
               in bind_run (cn_set idx null_CNStatus entry) (\<lambda>entry'.
                  respond key (init_gcd_entry val NUMA_MEM) (store_or_remove key entry' m)))
           in if idx = NUMA_MEM
              then if wmeta_idx entry \<noteq> -1
                   then respond null_BlockId (init_gcd_entry 2 (NUMA_MEM + 1)) m
                   else bind_run (cn_get entry idx) (\<lambda>status.
                          if status = null_CNStatus then respond null_BlockId init_empty_gcd_entry m else proceed)
              else bind_run (cn_get entry idx) (\<lambda>status.
                     if status = null_CNStatus then respond null_BlockId init_empty_gcd_entry m
                     else if \<not> invalidate status \<and> wmeta_idx entry \<noteq> -1
                     then Inl (Panic ''BUG: local replica still valid when page in RW shared'')
                     else proceed))
      | None \<Rightarrow> no_response m)"

definition check_swap_array :: "block_id \<Rightarrow> block_id \<Rightarrow> isize \<Rightarrow> nat \<Rightarrow> nat \<Rightarrow> nr_hash_map \<Rightarrow> gcd_run" where
  "check_swap_array old_key new_key cn old_idx new_idx m =
     (case hm_get old_key m of
        Some entry \<Rightarrow>
          bind_run (cn_set old_idx null_CNStatus entry) (\<lambda>entry1.
            let m1 = store_or_remove old_key entry1 m
            in (case hm_get new_key m1 of
                  None \<Rightarrow> (let value = init_gcd_entry cn new_idx in respond new_key value (hm_insert new_key value m1))
                | Some entry \<Rightarrow>
                    bind_run (cn_get entry new_idx) (\<lambda>status.
                      if cn_slot status = -1
                      then bind_run (cn_set new_idx (valid_cn cn) entry) (\<lambda>entry'.
                             respond new_key entry' (hm_insert new_key entry' m1))
                      else no_response m1)))
      | None \<Rightarrow> no_response m)"

definition dummy_log :: "block_id \<Rightarrow> nr_hash_map \<Rightarrow> gcd_run" where
  "dummy_log key m = (case hm_get key m of Some entry \<Rightarrow> respond key entry m | None \<Rightarrow> no_response m)"

section \<open>The \<open>Dispatch\<close> instance\<close>

fun gcd_dispatch_mut :: "modify \<Rightarrow> nr_hash_map \<Rightarrow> gcd_run" where
  "gcd_dispatch_mut (Put key value) m = put key value m"
| "gcd_dispatch_mut (CheckPut key value) m = check_put key value m"
| "gcd_dispatch_mut (Delete key) m = delete key m"
| "gcd_dispatch_mut (Swap to_remove to_insert value) m = swap_block to_remove to_insert value m"
| "gcd_dispatch_mut (PutArray key cn idx) m = put_array key cn idx m"
| "gcd_dispatch_mut (CheckPutArray key cn idx) m = check_put_array key cn idx m"
| "gcd_dispatch_mut (PutArrayWmeta key cn idx wmeta) m = put_array_wmeta key cn idx wmeta m"
| "gcd_dispatch_mut (CheckPutArrayWmeta key cn idx wmeta) m = check_put_array_wmeta key cn idx wmeta m"
| "gcd_dispatch_mut (CheckSwitchWmetaArray key wmeta) m = check_switch_wmeta_array key wmeta m"
| "gcd_dispatch_mut (CheckPutSwapArray key cn new old) m = check_put_swap_array key cn new old m"
| "gcd_dispatch_mut (InvalidateArray key idx) m = invalidate_array key idx m"
| "gcd_dispatch_mut (InvalidateExceptArray key idx) m = invalidate_except_array key idx m"
| "gcd_dispatch_mut (InvalidateExceptArrayUpdateWmeta key idx wmeta) m =
     invalidate_except_array_update_wmeta key idx wmeta m"
| "gcd_dispatch_mut (CheckMoveLocalArray key cn idx) m = check_move_local_array key cn idx m"
| "gcd_dispatch_mut (DeleteArray key idx) m = delete_array key idx m"
| "gcd_dispatch_mut (DeleteIfArray key idx) m = delete_if_array key idx m"
| "gcd_dispatch_mut (CheckSwapArray old_key new_key cn old_idx new_idx) m =
     check_swap_array old_key new_key cn old_idx new_idx m"
| "gcd_dispatch_mut (DummyLog key) m = dummy_log key m"

fun gcd_dispatch :: "nr_hash_map \<Rightarrow> access \<Rightarrow> option_gcd_response run" where
  "gcd_dispatch m (Get key) = Inr (map_option (\<lambda>value. \<lparr>resp_key = key, resp_value = value\<rparr>) (hm_get key m))"

definition gcd_dispatcher :: "(nr_hash_map, access, modify, option_gcd_response) dispatcher" where
  "gcd_dispatcher = \<lparr>dispatch = gcd_dispatch, dispatch_mut = gcd_dispatch_mut,
           cn_idx = option_gcd_response_cn_idx, resp_eq = option_gcd_response_eq\<rparr>"

lemma gcd_simps [simp]:
  "dispatch gcd_dispatcher = gcd_dispatch" "dispatch_mut gcd_dispatcher = gcd_dispatch_mut"
  "cn_idx gcd_dispatcher = option_gcd_response_cn_idx" "resp_eq gcd_dispatcher = option_gcd_response_eq"
  by (simp_all add: gcd_dispatcher_def)

end
