(* ===== verification/Nr_Theorems.thy ===== *)
theory Nr_Theorems
  imports Nr_Object Gcd_Directory
begin

text \<open>
  The main theorems about node replication, each stated over the functions of the code: a
  replicated object that was built by a constructor behaves like the sequential data structure,
  calls terminate, flat combining serves every thread, and what the synchronisation paths do not
  do. The witnesses run the global cache directory on two replicas.
\<close>

section \<open>A running object\<close>

lemma started:
  assumes "num < MAX_REPLICAS_PER_LOG" "\<forall>i. mem i" "\<forall>i\<in>set is. i < num" "length is \<le> MAX_THREADS_PER_REPLICA"
  shows "\<exists>nr0 tkns nr. nr_new_with_data num af mem esize d0 = Inr (Inr nr0) \<and> register_all is nr0 = (map Some tkns, nr)
    \<and> nr_inv scr D d0 [] nr \<and> nr_quiet nr \<and> length (replicas nr) = num \<and> map rid tkns = is \<and> distinct tkns
    \<and> (\<forall>t\<in>set tkns. token_ok t nr)"
proof -
  obtain nr0 where n0: "nr_new_with_data num af mem esize d0 = Inr (Inr nr0)" "fresh_object scr D d0 num nr0"
    using construct_ok [where numa = False and af = af and esize = esize and bytes = DEFAULT_LOG_BYTES and scr = scr and D = D
        and mem = mem, OF assms(1) fresh_with_data(1) [of d0] assms(2)]
    by (auto simp: nr_new_with_data_def with_log_size_and_struct_def)
  then have F: "nr_inv scr D d0 [] nr0" "nr_quiet nr0" "length (replicas nr0) = num"
    "\<forall>j<length (replicas nr0). rep_next (replicas nr0 ! j) + length is \<le> MAX_THREADS_PER_REPLICA + 1"
    using assms(4) by (simp_all add: fresh_object_def)
  from register_all_ok [OF F(1,2) _ F(4)] assms(3) F(3) n0(1) show ?thesis by fastforce
qed

definition calm :: "nat \<Rightarrow> env" where
  "calm = (\<lambda>_ _. (\<lambda>_. True, True))"

lemma uncontended_calm: "uncontended calm"
  by (simp add: uncontended_def calm_def)

text \<open>Two replicas of the directory with one thread each, after one completed write.\<close>

lemma two_replicas:
  "\<exists>nr t0 t1. nr_inv scr gcd_dispatcher (nr_hash_map_new 0) [] nr \<and> nr_quiet nr \<and> length (replicas nr) = 2
     \<and> rid t0 = 0 \<and> rid t1 = 1 \<and> token_ok t0 nr \<and> token_ok t1 nr"
proof -
  have ok: "2 < MAX_REPLICAS_PER_LOG" "\<forall>i::nat. True" "\<forall>i\<in>set [0, 1]. i < (2 :: nat)" "length [0, 1 :: nat] \<le> MAX_THREADS_PER_REPLICA"
    by (simp_all add: MAX_REPLICAS_PER_LOG_def MAX_THREADS_PER_REPLICA_def)
  from started [OF ok, of "\<lambda>_ _. 0" 64 "nr_hash_map_new 0" scr gcd_dispatcher]
  obtain tkns nr where n: "nr_inv scr gcd_dispatcher (nr_hash_map_new 0) [] nr" "nr_quiet nr" "length (replicas nr) = 2"
    "map rid tkns = [0, 1]" "\<forall>t\<in>set tkns. token_ok t nr"
    by (elim exE conjE) (rule that)
  from n(4) obtain t0 t1 where "tkns = [t0, t1]" "rid t0 = 0" "rid t1 = 1" by (auto simp: map_eq_Cons_conv)
  with n show ?thesis by auto
qed

section \<open>Properties\<close>

text \<open>
  C3. Node replication implements the sequential data structure. Build an object with any number of
  replicas below the limit, register threads with any of them, and let the threads issue any
  sequence of writes (\<open>execute_mut\<close>) and reads (\<open>execute\<close>), one call after the other and without
  lost compare-and-exchanges. If the sequential structure answers the sequence, every call
  returns, and the responses are exactly those of the sequential structure, on every replica and
  for both ways of publishing entries.
\<close>

theorem nr_implements_dispatch:
  assumes "num < MAX_REPLICAS_PER_LOG" "\<forall>i. mem i" "\<forall>i\<in>set is. i < num" "length is \<le> MAX_THREADS_PER_REPLICA"
    and "uncontended env" "0 < m" "2 * num < n" "3 \<le> n"
    and "\<forall>c\<in>set cs. call_token c < length is" "seq_run D cs d0 = Inr (rs, d')"
  shows "\<exists>nr0 tkns nr nr'. nr_new_with_data num af mem esize d0 = Inr (Inr nr0)
    \<and> register_all is nr0 = (map Some tkns, nr)
    \<and> obj_run (execute_mut scr af env D m n) (execute scr af env D m n) (map (map_call id id ((!) tkns)) cs) nr = Inr (rs, nr')
    \<and> represents scr env D d0 m n d' nr'"
proof -
  from started [OF assms(1-4), of af esize d0 scr D] obtain nr0 tkns nr where
    s: "nr_new_with_data num af mem esize d0 = Inr (Inr nr0)" "register_all is nr0 = (map Some tkns, nr)"
    "nr_inv scr D d0 [] nr" "nr_quiet nr" "length (replicas nr) = num" "map rid tkns = is" "\<forall>t\<in>set tkns. token_ok t nr"
    by blast
  have rel: "represents scr env D d0 m n d0 nr"
    unfolding represents_def using s(3-5) assms(5-8) by (intro conjI exI [of _ "[]"]) simp_all
  have "length tkns = length is" using s(6) by auto
  then have "\<forall>c\<in>set (map (map_call id id ((!) tkns)) cs). token_ok (call_token c) nr" using s(7) assms(9) by simp
  from nro.run_refines [OF rel this, of rs d' af] assms(10) s(1,2) show ?thesis by (auto simp: seq_run_tokens)
qed

theorem nr_implements_dispatch_witness:
  "\<exists>nr0 tkns nr nr'. nr_new_with_data 2 (\<lambda>_ _. 0) (\<lambda>_. True) 64 (nr_hash_map_new 0) = Inr (Inr nr0)
    \<and> register_all [0, 1] nr0 = (map Some tkns, nr)
    \<and> obj_run (execute_mut True (\<lambda>_ _. 0) calm gcd_dispatcher 1 5) (execute True (\<lambda>_ _. 0) calm gcd_dispatcher 1 5)
        (map (map_call id id ((!) tkns)) [Write (PutArray null_BlockId 7 0) 0, Read (Get null_BlockId) 1]) nr
      = Inr ([Some \<lparr>resp_key = null_BlockId, resp_value = init_gcd_entry 7 0\<rparr>,
              Some \<lparr>resp_key = null_BlockId, resp_value = init_gcd_entry 7 0\<rparr>], nr')"
proof -
  let ?cs = "[Write (PutArray null_BlockId 7 0) 0, Read (Get null_BlockId) 1] :: (modify, access, nat) call list"
  let ?r = "Some \<lparr>resp_key = null_BlockId, resp_value = init_gcd_entry 7 0\<rparr>"
  let ?d = "hm_insert null_BlockId (init_gcd_entry 7 0) (nr_hash_map_new 0)"
  have seq: "seq_run gcd_dispatcher ?cs (nr_hash_map_new 0) = Inr ([?r, ?r], ?d)"
    by (simp add: put_array_def hm_get_def nr_hash_map_new_def respond_def Let_def)
  have ok: "2 < MAX_REPLICAS_PER_LOG" "\<forall>i::nat. True" "\<forall>i\<in>set [0, 1]. i < (2 :: nat)" "length [0, 1 :: nat] \<le> MAX_THREADS_PER_REPLICA"
    "0 < (1 :: nat)" "2 * 2 < (5 :: nat)" "3 \<le> (5 :: nat)" "\<forall>c\<in>set ?cs. call_token c < length [0, 1 :: nat]"
    by (simp_all add: MAX_REPLICAS_PER_LOG_def MAX_THREADS_PER_REPLICA_def)
  from nr_implements_dispatch [OF ok(1-4) uncontended_calm ok(5-8) seq, of "\<lambda>_ _. 0" 64 True] show ?thesis by blast
qed

text \<open>
  C6. A write terminates and takes effect exactly once. From any quiet state that satisfies the
  invariant, \<open>execute_mut\<close> with a registered token returns (the loop needs at most two turns per
  replica and one more), the response is the one the sequential structure gives after the whole
  history, the history grows by exactly this operation, and the object is quiet again.
\<close>

theorem execute_mut_correct:
  assumes "nr_inv scr D d0 h nr" "nr_quiet nr" "token_ok tkn nr" "uncontended env" "0 < m" "2 * length (replicas nr) < n"
    and "run_ops D (map fst h) d0 = Inr (qs, d)" "dispatch_mut D oper d = Inr (resp, d')"
  shows "\<exists>nr'. execute_mut scr af env D m n oper tkn nr = Inr (resp, nr')
    \<and> nr_inv scr D d0 (h @ [(oper, rid tkn + 1)]) nr' \<and> nr_quiet nr' \<and> (\<forall>t. token_ok t nr \<longrightarrow> token_ok t nr')"
  using execute_mut_linear [OF assms, of af] same_shape_token by (fastforce simp: write_done_def)

theorem execute_mut_correct_witness:
  "\<exists>nr t nr'. execute_mut False (\<lambda>_ _. 0) calm gcd_dispatcher 1 5 (Delete null_BlockId) t nr = Inr (None, nr')
    \<and> nr_inv False gcd_dispatcher (nr_hash_map_new 0) [(Delete null_BlockId, 2)] nr'"
proof -
  obtain nr t1 where n: "nr_inv False gcd_dispatcher (nr_hash_map_new 0) [] nr" "nr_quiet nr" "length (replicas nr) = 2"
    "rid t1 = 1" "token_ok t1 nr" using two_replicas by blast
  have "dispatch_mut gcd_dispatcher (Delete null_BlockId) (nr_hash_map_new 0) = Inr (None, nr_hash_map_new 0)"
    by (simp add: delete_def hm_get_def nr_hash_map_new_def no_response_def)
  then show ?thesis
    using execute_mut_correct [OF n(1,2,5) uncontended_calm, of 1 5 "[]" "nr_hash_map_new 0" "Delete null_BlockId" None] n(3,4) by fastforce
qed

text \<open>
  C7. A read is linearizable. On any replica, however far it lags behind, \<open>execute\<close> returns within
  three turns what the sequential structure answers after every completed write, and leaves the
  history as it was.
\<close>

theorem execute_correct:
  assumes "nr_inv scr D d0 h nr" "nr_quiet nr" "token_ok tkn nr" "uncontended env" "0 < m" "3 \<le> n"
    and "run_ops D (map fst h) d0 = Inr (qs, d)" "dispatch D d ro = Inr resp"
  shows "\<exists>nr'. execute scr af env D m n ro tkn nr = Inr (resp, nr') \<and> nr_inv scr D d0 h nr' \<and> nr_quiet nr'
    \<and> (\<forall>t. token_ok t nr \<longrightarrow> token_ok t nr')"
  using read_loop_linear [OF assms(1-7) reads_plain [OF assms(8)], of af] same_shape_token
  by (fastforce simp: write_done_def execute_read_loop)

theorem execute_correct_witness:
  "\<exists>nr t nr'. execute True (\<lambda>_ _. 0) calm gcd_dispatcher 1 3 (Get null_BlockId) t nr = Inr (None, nr')"
proof -
  obtain nr t0 where n: "nr_inv True gcd_dispatcher (nr_hash_map_new 0) [] nr" "nr_quiet nr" "token_ok t0 nr"
    using two_replicas by blast
  have "dispatch gcd_dispatcher (nr_hash_map_new 0) (Get null_BlockId) = Inr None"
    by (simp add: hm_get_def nr_hash_map_new_def)
  then show ?thesis using execute_correct [OF n uncontended_calm, of 1 3 "[]" "nr_hash_map_new 0" "Get null_BlockId" None] by fastforce
qed

text \<open>
  C8. Reading with an anchor is as strong as reading: any sequence of writes and \<open>execute_anchor\<close>
  reads on an object that stands for the sequential state \<open>d\<close> returns the sequential responses and
  leaves the object standing for the sequential final state.
\<close>

theorem execute_anchor_refines:
  assumes "represents scr env D d0 m n d nr" "\<forall>c\<in>set cs. token_ok (call_token c) nr" "seq_run D cs d = Inr (rs, d')"
  shows "\<exists>nr'. obj_run (execute_mut scr af env D m n) (execute_anchor scr af env D m n) cs nr = Inr (rs, nr')
    \<and> represents scr env D d0 m n d' nr'"
  using nra.run_refines [OF assms, of af] by blast

theorem execute_anchor_refines_witness:
  "\<exists>nr t nr'. obj_run (execute_mut True (\<lambda>_ _. 0) calm gcd_dispatcher 1 5) (execute_anchor True (\<lambda>_ _. 0) calm gcd_dispatcher 1 5)
      [Read (Get null_BlockId) t] nr = Inr ([None], nr')"
proof -
  obtain nr t0 where n: "nr_inv True gcd_dispatcher (nr_hash_map_new 0) [] nr" "nr_quiet nr" "length (replicas nr) = 2" "token_ok t0 nr"
    using two_replicas by blast
  have "represents True calm gcd_dispatcher (nr_hash_map_new 0) 1 5 (nr_hash_map_new 0) nr"
    unfolding represents_def using n uncontended_calm by (intro conjI exI [of _ "[]"]) simp_all
  from execute_anchor_refines [OF this, of "[Read (Get null_BlockId) t0]" "[None]" "nr_hash_map_new 0" "\<lambda>_ _. 0"] n(4)
  show ?thesis by (fastforce simp: hm_get_def nr_hash_map_new_def)
qed

text \<open>
  C27. A loose read never waits and never sees a torn state: it returns at once what the sequential
  structure answers after some prefix of the history, namely the prefix the replica has replayed,
  and changes nothing.
\<close>

theorem execute_loose_prefix:
  assumes "nr_inv scr D d0 h nr" "token_ok tkn nr" "0 < n"
    and "run_ops D (map fst (take (ltails (nr_log nr) ! rid tkn) h)) d0 = Inr (qs, d)" "dispatch D d ro = Inr resp"
  shows "execute_loose scr af env D m n ro tkn nr = Inr (resp, nr)"
proof -
  let ?r = "replicas nr ! rid tkn"
  have i: "rid tkn < length (replicas nr)" "1 \<le> rtkn tkn" "rtkn tkn < rep_next ?r" using assms(2) by (simp_all add: token_ok_def)
  have rep: "rep_inv D d0 h (nr_log nr) ?r" "log_tkn ?r = rid tkn + 1" using nr_invD(3,4) [OF assms(1) i(1)] by simp_all
  then have "rw_data (rep_data ?r) = d" using assms(4) by (auto simp: rep_inv_def rep_at_def)
  with rep i assms(5) have "read_data D ro (rtkn tkn) ?r = Inr (resp, ?r)" by (intro read_data_ok) (simp_all add: rep_inv_def)
  moreover obtain k where "n = Suc k" using assms(3) by (cases n) auto
  ultimately show ?thesis using i(1)
    by (simp add: execute_loose_def push_ok try_execute_loose_def on_replica_def replica_execute_loose_def)
qed

theorem execute_loose_prefix_witness:
  "\<exists>nr t. execute_loose True (\<lambda>_ _. 0) calm gcd_dispatcher 1 1 (Get null_BlockId) t nr = Inr (None, nr)"
proof -
  obtain nr t0 where n: "nr_inv True gcd_dispatcher (nr_hash_map_new 0) [] nr" "token_ok t0 nr" using two_replicas by blast
  have "dispatch gcd_dispatcher (nr_hash_map_new 0) (Get null_BlockId) = Inr None"
    by (simp add: hm_get_def nr_hash_map_new_def)
  then show ?thesis using execute_loose_prefix [OF n, of 1 "[]" "nr_hash_map_new 0" "Get null_BlockId" None] by fastforce
qed

end
