(* ===== verification/Gcd_Spec.thy ===== *)
theory Gcd_Spec
  imports Gcd_Directory
begin

text \<open>
  What the directory promises, independent of its encoding. An abstract entry has a mode, \<open>Some w\<close>
  when the block is shared for writing under the write metadata \<open>w\<close>, and a partial map from nodes
  to copies, each with its slot and whether it was invalidated. Node \<open>NUMA_MEM\<close> is the shared memory.
  \<open>spec_mut\<close> gives the result and the next directory of every operation; \<open>None\<close> is a violation of
  the protocol, on which the code panics. The lemmas show that the encoding with \<open>-1\<close>, arrays and
  special responses refines it.
\<close>

section \<open>The abstract directory\<close>

record aentry =
  rw_mode :: "int option"
  copies :: "nat \<rightharpoonup> int \<times> bool"

type_synonym adir = "block_key \<rightharpoonup> aentry"

text \<open>What a caller of the foreign functions gets back.\<close>

datatype ret = RVoid | RBool bool | RInt int | REntry aentry

definition enc :: "int option \<Rightarrow> int" where
  "enc w = (case w of None \<Rightarrow> -1 | Some x \<Rightarrow> x)"

definition dec :: "int \<Rightarrow> int option" where
  "dec x = (if x = -1 then None else Some x)"

definition abs_copy :: "cn_status \<Rightarrow> (int \<times> bool) option" where
  "abs_copy s = (if cn_slot s = -1 then None else Some (cn_slot s, invalidate s))"

definition abs_entry :: "gcd_entry \<Rightarrow> aentry" where
  "abs_entry e = \<lparr>rw_mode = dec (wmeta_idx e),
     copies = (\<lambda>i. if i < length (cn_array e) then abs_copy (cn_array e ! i) else None)\<rparr>"

definition abs_dir :: "nr_hash_map \<Rightarrow> adir" where
  "abs_dir m k = map_option abs_entry (storage m k)"

definition fresh_entry :: "nat \<Rightarrow> int \<Rightarrow> int option \<Rightarrow> aentry" where
  "fresh_entry i c w = \<lparr>rw_mode = w, copies = [i \<mapsto> (c, False)]\<rparr>"

definition add_copy :: "nat \<Rightarrow> int \<Rightarrow> aentry \<Rightarrow> aentry" where
  "add_copy i c a = a\<lparr>copies := (copies a)(i \<mapsto> (c, False))\<rparr>"

definition drop_copy :: "nat \<Rightarrow> aentry \<Rightarrow> aentry" where
  "drop_copy i a = a\<lparr>copies := (copies a)(i := None)\<rparr>"

definition stale_copy :: "nat \<Rightarrow> aentry \<Rightarrow> aentry" where
  "stale_copy i a = a\<lparr>copies := (copies a)(i := map_option (\<lambda>(c, _). (c, True)) (copies a i))\<rparr>"

definition stale_others :: "nat \<Rightarrow> aentry \<Rightarrow> aentry" where
  "stale_others i a = a\<lparr>copies := (\<lambda>j. if j = i then copies a j else map_option (\<lambda>(c, _). (c, True)) (copies a j))\<rparr>"

text \<open>An entry without copies is not kept.\<close>

definition keep :: "block_key \<Rightarrow> aentry \<Rightarrow> adir \<Rightarrow> adir" where
  "keep k a A = A(k := if copies a = Map.empty then None else Some a)"

section \<open>The operations\<close>

fun spec_mut :: "modify \<Rightarrow> adir \<Rightarrow> (ret \<times> adir) option" where
  "spec_mut (Put k v) A = Some (RVoid, A(key_of k \<mapsto> abs_entry v))"
| "spec_mut (CheckPut k v) A =
     (case A (key_of k) of
        None \<Rightarrow> Some (RBool True, A(key_of k \<mapsto> abs_entry v))
      | Some _ \<Rightarrow> Some (RBool False, A))"
| "spec_mut (Delete k) A =
     (case A (key_of k) of
        None \<Rightarrow> Some (RInt (-2), A)
      | Some a \<Rightarrow> Some (RInt (enc (rw_mode a)), A(key_of k := None)))"
| "spec_mut (Swap k k' v) A = Some (RBool True, (A(key_of k := None))(key_of k' \<mapsto> abs_entry v))"
| "spec_mut (PutArray k c i) A =
     (case A (key_of k) of
        None \<Rightarrow> Some (RVoid, A(key_of k \<mapsto> fresh_entry i c None))
      | Some a \<Rightarrow> Some (RVoid, A(key_of k \<mapsto> add_copy i c a)))"
| "spec_mut (PutArrayWmeta k c i w) A =
     (case A (key_of k) of
        None \<Rightarrow> Some (RVoid, A(key_of k \<mapsto> fresh_entry i c (dec w)))
      | Some a \<Rightarrow> Some (RVoid, A(key_of k \<mapsto> (add_copy i c a)\<lparr>rw_mode := dec w\<rparr>)))"
| "spec_mut (CheckPutArray k c i) A =
     (case A (key_of k) of
        None \<Rightarrow> Some (RBool True, A(key_of k \<mapsto> fresh_entry i c None))
      | Some a \<Rightarrow>
          if copies a i = None then Some (RBool True, A(key_of k \<mapsto> add_copy i c a))
          else Some (RBool False, A))"
| "spec_mut (CheckPutArrayWmeta k c i w) A =
     (case A (key_of k) of
        None \<Rightarrow> Some (RInt 0, A(key_of k \<mapsto> fresh_entry i c (if i = NUMA_MEM then dec w else None)))
      | Some a \<Rightarrow>
          if copies a i = None
          then if i = NUMA_MEM then Some (RInt 0, A(key_of k \<mapsto> (add_copy i c a)\<lparr>rw_mode := dec w\<rparr>))
               else if rw_mode a = None then Some (RInt 0, A(key_of k \<mapsto> add_copy i c a))
               else None
          else if i = NUMA_MEM \<and> (w = -1 \<or> rw_mode a = None)
          then Some (RInt 2, A(key_of k \<mapsto> a\<lparr>rw_mode := dec w\<rparr>))
          else Some (RInt 1, A))"
| "spec_mut (CheckPutSwapArray k c new old) A =
     (case A (key_of k) of
        None \<Rightarrow> Some (RBool True, A(key_of k \<mapsto> fresh_entry new c None))
      | Some a \<Rightarrow>
          let a1 = drop_copy old a
          in if copies a1 new = None then Some (RBool True, A(key_of k \<mapsto> add_copy new c a1))
             else Some (RBool False, A(key_of k \<mapsto> a1)))"
| "spec_mut (InvalidateArray k i) A =
     (case A (key_of k) of None \<Rightarrow> Some (RVoid, A) | Some a \<Rightarrow> Some (RVoid, A(key_of k \<mapsto> stale_copy i a)))"
| "spec_mut (InvalidateExceptArray k i) A =
     (case A (key_of k) of None \<Rightarrow> Some (RVoid, A) | Some a \<Rightarrow> Some (RVoid, A(key_of k \<mapsto> stale_others i a)))"
| "spec_mut (InvalidateExceptArrayUpdateWmeta k i w) A =
     (case A (key_of k) of
        None \<Rightarrow> Some (RInt 1, A)
      | Some a \<Rightarrow>
          if rw_mode a = None then Some (RInt 0, A(key_of k \<mapsto> (stale_others i a)\<lparr>rw_mode := dec w\<rparr>))
          else Some (RInt 2, A(key_of k \<mapsto> stale_others i a)))"
| "spec_mut (CheckMoveLocalArray k c i) A =
     (if i = 0 then None
      else (case A (key_of k) of
              None \<Rightarrow> None
            | Some a \<Rightarrow>
                if copies a i = None \<or> (\<exists>x. copies a i = Some (x, True))
                then Some (RInt 0, A(key_of k \<mapsto> drop_copy 0 ((add_copy i c a)\<lparr>rw_mode := None\<rparr>)))
                else Some (RInt (-1), A)))"
| "spec_mut (DeleteArray k i) A =
     (case A (key_of k) of
        None \<Rightarrow> Some (RBool False, A)
      | Some a \<Rightarrow> Some (RBool True, keep (key_of k) (drop_copy i a) A))"
| "spec_mut (DeleteIfArray k i) A =
     (case A (key_of k) of
        None \<Rightarrow> Some (RInt 2, A)
      | Some a \<Rightarrow>
          if i = NUMA_MEM \<and> rw_mode a \<noteq> None then Some (RInt 1, A)
          else (case copies a i of
                  None \<Rightarrow> Some (RInt 3, A)
                | Some (_, stale) \<Rightarrow>
                    if i \<noteq> NUMA_MEM \<and> \<not> stale \<and> rw_mode a \<noteq> None then None
                    else Some (RInt 0, keep (key_of k) (drop_copy i a) A)))"
| "spec_mut (CheckSwapArray k k' c i j) A =
     (case A (key_of k) of
        None \<Rightarrow> Some (RBool False, A)
      | Some a \<Rightarrow>
          let A1 = keep (key_of k) (drop_copy i a) A
          in (case A1 (key_of k') of
                None \<Rightarrow> Some (RBool True, A1(key_of k' \<mapsto> fresh_entry j c None))
              | Some b \<Rightarrow>
                  if copies b j = None then Some (RBool True, A1(key_of k' \<mapsto> add_copy j c b))
                  else Some (RBool False, A1)))"
| "spec_mut (CheckSwitchWmetaArray k w) A =
     (case A (key_of k) of
        None \<Rightarrow> Some (RInt (-1), A)
      | Some a \<Rightarrow>
          if w = -1 then Some (RInt (enc (rw_mode a)), A(key_of k \<mapsto> a\<lparr>rw_mode := None\<rparr>))
          else if rw_mode a = None then Some (RInt w, A(key_of k \<mapsto> a\<lparr>rw_mode := Some w\<rparr>))
          else Some (RInt (-1), A))"
| "spec_mut (DummyLog k) A = Some (RVoid, A)"

definition spec_get :: "block_id \<Rightarrow> adir \<Rightarrow> aentry" where
  "spec_get k A = (case A (key_of k) of Some a \<Rightarrow> a | None \<Rightarrow> \<lparr>rw_mode = None, copies = Map.empty\<rparr>)"

section \<open>Decoding the responses\<close>

text \<open>
  How the foreign functions turn the response of an operation into their result. The two array
  operations without write metadata have no foreign function of their own.
\<close>

fun decode :: "modify \<Rightarrow> option_gcd_response \<Rightarrow> ret" where
  "decode (CheckPut _ _) r = RBool (r \<noteq> None)"
| "decode (Delete _) r = RInt (case r of Some v \<Rightarrow> wmeta_idx (resp_value v) | None \<Rightarrow> -2)"
| "decode (Swap _ _ _) r = RBool True"
| "decode (CheckPutArray _ _ _) r = RBool (r \<noteq> None)"
| "decode (CheckPutArrayWmeta _ _ _ _) r =
     RInt (case r of Some v \<Rightarrow> if block_id_eq (resp_key v) null_BlockId then 2 else 0 | None \<Rightarrow> 1)"
| "decode (CheckPutSwapArray _ _ _ _) r = RBool (r \<noteq> None)"
| "decode (InvalidateExceptArrayUpdateWmeta _ _ _) r =
     RInt (case r of Some v \<Rightarrow> if block_id_eq (resp_key v) null_BlockId then 2 else 0 | None \<Rightarrow> 1)"
| "decode (CheckMoveLocalArray _ _ _) r = RInt (if r = None then -1 else 0)"
| "decode (DeleteArray _ _) r = RBool (r \<noteq> None)"
| "decode (DeleteIfArray _ _) r =
     RInt (case r of
             Some v \<Rightarrow> if block_id_eq (resp_key v) null_BlockId
                       then if resp_value v = init_empty_gcd_entry then 3 else 1 else 0
           | None \<Rightarrow> 2)"
| "decode (CheckSwapArray _ _ _ _ _) r = RBool (r \<noteq> None)"
| "decode (CheckSwitchWmetaArray _ _) r = RInt (case r of Some v \<Rightarrow> wmeta_idx (resp_value v) | None \<Rightarrow> -1)"
| "decode _ r = RVoid"

section \<open>Invariant\<close>

definition entry_ok :: "gcd_entry \<Rightarrow> bool" where
  "entry_ok e \<longleftrightarrow> length (cn_array e) = LOGICAL_NODE_NUM + 1
     \<and> (\<forall>s\<in>set (cn_array e). invalidate s \<longrightarrow> cn_slot s \<noteq> -1)"

definition dir_wf :: "nr_hash_map \<Rightarrow> bool" where
  "dir_wf m \<longleftrightarrow> (\<forall>k e. storage m k = Some e \<longrightarrow> entry_ok e)"

text \<open>The arguments a client may pass: existing nodes, a slot for every copy, a proper block.\<close>

fun op_ok :: "modify \<Rightarrow> bool" where
  "op_ok (Put k v) = entry_ok v"
| "op_ok (CheckPut k v) = entry_ok v"
| "op_ok (Swap k k' v) = entry_ok v"
| "op_ok (PutArray k c i) = (c \<noteq> -1 \<and> i \<le> LOGICAL_NODE_NUM)"
| "op_ok (PutArrayWmeta k c i w) = (c \<noteq> -1 \<and> i \<le> LOGICAL_NODE_NUM)"
| "op_ok (CheckPutArray k c i) = (c \<noteq> -1 \<and> i \<le> LOGICAL_NODE_NUM)"
| "op_ok (CheckPutArrayWmeta k c i w) = (c \<noteq> -1 \<and> i \<le> LOGICAL_NODE_NUM \<and> \<not> block_id_eq k null_BlockId)"
| "op_ok (CheckPutSwapArray k c i j) = (c \<noteq> -1 \<and> i \<le> LOGICAL_NODE_NUM \<and> j \<le> LOGICAL_NODE_NUM)"
| "op_ok (InvalidateArray k i) = (i \<le> LOGICAL_NODE_NUM)"
| "op_ok (InvalidateExceptArrayUpdateWmeta k i w) = (\<not> block_id_eq k null_BlockId)"
| "op_ok (CheckMoveLocalArray k c i) = (c \<noteq> -1 \<and> i \<le> LOGICAL_NODE_NUM)"
| "op_ok (DeleteArray k i) = (i \<le> LOGICAL_NODE_NUM)"
| "op_ok (DeleteIfArray k i) = (i \<le> LOGICAL_NODE_NUM \<and> \<not> block_id_eq k null_BlockId)"
| "op_ok (CheckSwapArray k k' c i j) = (c \<noteq> -1 \<and> i \<le> LOGICAL_NODE_NUM \<and> j \<le> LOGICAL_NODE_NUM)"
| "op_ok _ = True"

section \<open>The encoding of entries\<close>

lemma enc_dec [simp]: "enc (dec x) = x"
  by (simp add: enc_def dec_def)

lemma enc_simps [simp]: "enc None = -1" "enc (Some x) = x"
  by (simp_all add: enc_def)

lemma dec_simps [simp]: "dec (-1) = None" "dec x = None \<longleftrightarrow> x = -1"
  by (simp_all add: dec_def)

lemma abs_copy_simps [simp]:
  "abs_copy null_CNStatus = None" "c \<noteq> -1 \<Longrightarrow> abs_copy (valid_cn c) = Some (c, False)"
  "abs_copy s = None \<longleftrightarrow> cn_slot s = -1"
  by (simp_all add: abs_copy_def null_CNStatus_def valid_cn_def)

lemma abs_copy_stale:
  "cn_slot s \<noteq> -1 \<Longrightarrow> abs_copy (s\<lparr>invalidate := True\<rparr>) = map_option (\<lambda>(c, _). (c, True)) (abs_copy s)"
  by (simp add: abs_copy_def)

lemma abs_entry_sel [simp]:
  "rw_mode (abs_entry e) = dec (wmeta_idx e)"
  "copies (abs_entry e) i = (if i < length (cn_array e) then abs_copy (cn_array e ! i) else None)"
  by (simp_all add: abs_entry_def)

lemma abs_entry_wmeta [simp]: "abs_entry (e\<lparr>wmeta_idx := w\<rparr>) = (abs_entry e)\<lparr>rw_mode := dec w\<rparr>"
  by (simp add: abs_entry_def cong: if_cong)

lemma abs_entry_cn:
  assumes "i < length (cn_array e)"
  shows "abs_entry (e\<lparr>cn_array := (cn_array e)[i := s]\<rparr>) = (abs_entry e)\<lparr>copies := (copies (abs_entry e))(i := abs_copy s)\<rparr>"
  using assms by (simp add: abs_entry_def fun_eq_iff nth_list_update cong: if_cong)

lemma abs_entry_ops:
  assumes "i < length (cn_array e)"
  shows "c \<noteq> -1 \<Longrightarrow> abs_entry (e\<lparr>cn_array := (cn_array e)[i := valid_cn c]\<rparr>) = add_copy i c (abs_entry e)"
    and "abs_entry (e\<lparr>cn_array := (cn_array e)[i := null_CNStatus]\<rparr>) = drop_copy i (abs_entry e)"
    and "cn_slot (cn_array e ! i) \<noteq> -1 \<Longrightarrow>
      abs_entry (e\<lparr>cn_array := (cn_array e)[i := (cn_array e ! i)\<lparr>invalidate := True\<rparr>]\<rparr>) = stale_copy i (abs_entry e)"
    and "cn_slot (cn_array e ! i) = -1 \<Longrightarrow> stale_copy i (abs_entry e) = abs_entry e"
  using assms unfolding abs_entry_cn [OF assms]
  by (simp_all add: add_copy_def drop_copy_def stale_copy_def abs_copy_stale abs_entry_def fun_eq_iff cong: if_cong)
    (simp add: abs_copy_def)

lemma abs_init:
  "c \<noteq> -1 \<Longrightarrow> i \<le> LOGICAL_NODE_NUM \<Longrightarrow> abs_entry (init_gcd_entry c i) = fresh_entry i c None"
  "abs_entry init_empty_gcd_entry = \<lparr>rw_mode = None, copies = Map.empty\<rparr>"
  by (auto simp: abs_entry_def init_gcd_entry_def init_empty_gcd_entry_def fresh_entry_def nth_list_update fun_eq_iff
      valid_cn_def [symmetric] Let_def)

lemma no_copies_abs: "no_copies e \<longleftrightarrow> copies (abs_entry e) = Map.empty"
  by (auto simp: no_copies_def list_all_length fun_eq_iff)

lemma entry_ok_nth: "entry_ok e \<Longrightarrow> i < length (cn_array e) \<Longrightarrow> invalidate (cn_array e ! i) \<Longrightarrow> cn_slot (cn_array e ! i) \<noteq> -1"
  by (simp add: entry_ok_def)

lemma entry_ok_null: "entry_ok e \<Longrightarrow> i < length (cn_array e) \<Longrightarrow> cn_array e ! i = null_CNStatus \<longleftrightarrow> cn_slot (cn_array e ! i) = -1"
  using entry_ok_nth [of e i] by (cases "cn_array e ! i") (auto simp: null_CNStatus_def)

lemma entry_ok_length: "entry_ok e \<Longrightarrow> length (cn_array e) = LOGICAL_NODE_NUM + 1"
  by (simp add: entry_ok_def)

lemma entry_ok_wmeta [simp]: "entry_ok (e\<lparr>wmeta_idx := w\<rparr>) = entry_ok e"
  by (simp add: entry_ok_def)

lemma entry_ok_cn:
  "entry_ok e \<Longrightarrow> invalidate s \<longrightarrow> cn_slot s \<noteq> -1 \<Longrightarrow> entry_ok (e\<lparr>cn_array := (cn_array e)[i := s]\<rparr>)"
  by (auto simp: entry_ok_def dest!: set_update_subset_insert [THEN subsetD])

lemma entry_ok_ops:
  assumes "entry_ok e"
  shows "entry_ok (e\<lparr>cn_array := (cn_array e)[i := valid_cn c]\<rparr>)"
    "entry_ok (e\<lparr>cn_array := (cn_array e)[i := null_CNStatus]\<rparr>)"
    "cn_slot s \<noteq> -1 \<Longrightarrow> entry_ok (e\<lparr>cn_array := (cn_array e)[i := s\<lparr>invalidate := True\<rparr>]\<rparr>)"
  using assms by (auto intro!: entry_ok_cn simp: valid_cn_def null_CNStatus_def)

lemma entry_ok_init [simp]: "entry_ok (init_gcd_entry c i)" "entry_ok init_empty_gcd_entry"
  by (auto simp: entry_ok_def init_gcd_entry_def init_empty_gcd_entry_def null_CNStatus_def Let_def
      dest!: set_update_subset_insert [THEN subsetD])

subsection \<open>Invalidating the other copies\<close>

definition stale_status :: "nat \<Rightarrow> nat \<Rightarrow> cn_status \<Rightarrow> cn_status" where
  "stale_status idx i s = (if cn_slot s \<noteq> -1 \<and> idx \<noteq> i then s\<lparr>invalidate := True\<rparr> else s)"

lemma invalidate_others_loop:
  assumes "a \<le> length (cn_array e)"
  shows "invalidate_others idx [a..<length (cn_array e)] e = Inr (e\<lparr>cn_array :=
    map (\<lambda>i. if a \<le> i then stale_status idx i (cn_array e ! i) else cn_array e ! i) [0..<length (cn_array e)]\<rparr>)"
  using assms
proof (induction "length (cn_array e) - a" arbitrary: a e)
  case 0
  then have "a = length (cn_array e)" by simp
  moreover have "map (\<lambda>i. if length xs \<le> i then f i else xs ! i) [0..<length xs] = xs" for xs :: "cn_status list" and f
    by (rule nth_equalityI) auto
  ultimately show ?case by simp
next
  case (Suc k)
  then have a: "a < length (cn_array e)" by simp
  let ?s = "cn_array e ! a"
  define e1 where "e1 = e\<lparr>cn_array := (cn_array e)[a := stale_status idx a ?s]\<rparr>"
  have len: "length (cn_array e1) = length (cn_array e)" by (simp add: e1_def)
  have "e = e\<lparr>cn_array := (cn_array e)[a := ?s]\<rparr>" by simp
  then have "invalidate_others idx [a..<length (cn_array e)] e = invalidate_others idx [Suc a..<length (cn_array e1)] e1"
    using a by (simp add: upt_conv_Cons len cn_get_def cn_set_def array_get_def e1_def stale_status_def)
  also have "\<dots> = Inr (e1\<lparr>cn_array := map (\<lambda>i. if Suc a \<le> i then stale_status idx i (cn_array e1 ! i) else cn_array e1 ! i)
      [0..<length (cn_array e1)]\<rparr>)"
    using Suc by (intro Suc.hyps(1)) (simp_all add: len)
  also have "e1\<lparr>cn_array := map (\<lambda>i. if Suc a \<le> i then stale_status idx i (cn_array e1 ! i) else cn_array e1 ! i)
      [0..<length (cn_array e1)]\<rparr> = e\<lparr>cn_array :=
        map (\<lambda>i. if a \<le> i then stale_status idx i (cn_array e ! i) else cn_array e ! i) [0..<length (cn_array e)]\<rparr>"
    using a by (auto simp: e1_def nth_list_update le_eq_less_or_eq intro!: arg_cong [where f = "\<lambda>xs. e\<lparr>cn_array := xs\<rparr>"])
  finally show ?case .
qed

lemma invalidate_others_ok:
  assumes "entry_ok e"
  shows "\<exists>e'. invalidate_others idx [0..<LOGICAL_NODE_NUM + 1] e = Inr e' \<and> entry_ok e'
    \<and> wmeta_idx e' = wmeta_idx e \<and> abs_entry e' = stale_others idx (abs_entry e)"
proof -
  let ?e = "e\<lparr>cn_array := map (\<lambda>i. stale_status idx i (cn_array e ! i)) [0..<length (cn_array e)]\<rparr>"
  have len: "length (cn_array e) = LOGICAL_NODE_NUM + 1" using assms by (rule entry_ok_length)
  have "invalidate_others idx [0..<LOGICAL_NODE_NUM + 1] e = Inr ?e"
    using invalidate_others_loop [of 0 e idx] by (simp add: len)
  moreover have "entry_ok ?e" using assms by (auto simp: entry_ok_def stale_status_def)
  moreover have "abs_entry ?e = stale_others idx (abs_entry e)"
    by (auto simp: abs_entry_def stale_others_def stale_status_def abs_copy_stale fun_eq_iff abs_copy_def)
  ultimately show ?thesis by (intro exI [of _ ?e]) simp
qed

section \<open>Refinement\<close>

lemma abs_dir_get: "abs_dir m (key_of k) = map_option abs_entry (hm_get k m)"
  by (simp add: abs_dir_def hm_get_def)

lemma abs_dir_update [simp]:
  "abs_dir (hm_insert k e m) = (abs_dir m)(key_of k \<mapsto> abs_entry e)"
  "abs_dir (hm_remove k m) = (abs_dir m)(key_of k := None)"
  by (simp_all add: abs_dir_def fun_eq_iff)

lemma abs_dir_keep [simp]: "abs_dir (store_or_remove k e m) = keep (key_of k) (abs_entry e) (abs_dir m)"
  by (simp add: store_or_remove_def keep_def no_copies_abs Let_def)

lemma dir_wf_get: "dir_wf m \<Longrightarrow> hm_get k m = Some e \<Longrightarrow> entry_ok e"
  unfolding dir_wf_def hm_get_def by blast

lemma dir_wf_update [simp]:
  "dir_wf m \<Longrightarrow> entry_ok e \<Longrightarrow> dir_wf (hm_insert k e m)" "dir_wf m \<Longrightarrow> dir_wf (hm_remove k m)"
  "dir_wf m \<Longrightarrow> entry_ok e \<Longrightarrow> dir_wf (store_or_remove k e m)"
  by (auto simp: dir_wf_def store_or_remove_def Let_def simp del: split_paired_All)

definition refines :: "modify \<Rightarrow> nr_hash_map \<Rightarrow> gcd_run \<Rightarrow> bool" where
  "refines oper m out =
     (case out of
        Inr (resp, m') \<Rightarrow> dir_wf m' \<and> spec_mut oper (abs_dir m) = Some (decode oper resp, abs_dir m')
      | Inl f \<Rightarrow> spec_mut oper (abs_dir m) = None)"

lemmas gcd_unfold = refines_def respond_def no_response_def abs_dir_get cn_get_def cn_set_def array_get_def
  entry_ok_length entry_ok_ops abs_entry_ops abs_init Let_def

lemma refines_simple:
  assumes "dir_wf m"
  shows "entry_ok v \<Longrightarrow> refines (Put k v) m (put k v m)"
    "entry_ok v \<Longrightarrow> refines (CheckPut k v) m (check_put k v m)"
    "refines (Delete k) m (delete k m)"
    "entry_ok v \<Longrightarrow> refines (Swap k k' v) m (swap_block k k' v m)"
    "refines (DummyLog k) m (dummy_log k m)"
    "refines (CheckSwitchWmetaArray k w) m (check_switch_wmeta_array k w m)"
  using assms dir_wf_get [OF assms, of k]
  by (auto simp: gcd_unfold put_def check_put_def delete_def swap_block_def dummy_log_def check_switch_wmeta_array_def
      init_empty_gcd_entry_with_wmeta_idx_def dec_def split: option.splits)

lemma refines_put:
  assumes "dir_wf m" "c \<noteq> -1" "i \<le> LOGICAL_NODE_NUM"
  shows "refines (PutArray k c i) m (put_array k c i m)"
    "refines (PutArrayWmeta k c i w) m (put_array_wmeta k c i w m)"
    "refines (CheckPutArray k c i) m (check_put_array k c i m)"
  using assms dir_wf_get [OF assms(1), of k]
  by (cases "hm_get k m"; auto simp: gcd_unfold put_array_def put_array_wmeta_def check_put_array_def fresh_entry_def)+

lemma refines_check_put_wmeta:
  assumes "dir_wf m" "c \<noteq> -1" "i \<le> LOGICAL_NODE_NUM" "\<not> block_id_eq k null_BlockId"
  shows "refines (CheckPutArrayWmeta k c i w) m (check_put_array_wmeta k c i w m)"
proof (cases "hm_get k m")
  case None
  then show ?thesis using assms by (simp add: gcd_unfold check_put_array_wmeta_def fresh_entry_def)
next
  case (Some e)
  have e: "entry_ok e" "i < length (cn_array e)" using dir_wf_get [OF assms(1) Some] assms(3) by (simp_all add: entry_ok_length)
  note n = entry_ok_nth [OF e]
  have null: "block_id_eq null_BlockId null_BlockId" by (simp add: block_id_eq_def)
  show ?thesis
    using assms Some e n null by (auto simp: gcd_unfold check_put_array_wmeta_def)
qed

lemma refines_swap:
  assumes "dir_wf m" "c \<noteq> -1" "i \<le> LOGICAL_NODE_NUM" "j \<le> LOGICAL_NODE_NUM"
  shows "refines (CheckPutSwapArray k c i j) m (check_put_swap_array k c i j m)"
proof (cases "hm_get k m")
  case None
  then show ?thesis using assms by (simp add: gcd_unfold check_put_swap_array_def)
next
  case (Some e)
  let ?e = "e\<lparr>cn_array := (cn_array e)[j := null_CNStatus]\<rparr>"
  have e: "entry_ok e" "i < length (cn_array e)" "j < length (cn_array e)"
    using dir_wf_get [OF assms(1) Some] assms(3,4) by (simp_all add: entry_ok_length)
  have e1: "entry_ok ?e" "i < length (cn_array ?e)" "abs_entry ?e = drop_copy j (abs_entry e)"
    using e by (simp_all add: entry_ok_ops abs_entry_ops)
  show ?thesis
    using assms Some e e1(1,2) abs_entry_ops(1) [OF e1(2) assms(2)] entry_ok_ops(1) [OF e1(1)]
    by (auto simp: refines_def respond_def no_response_def abs_dir_get cn_get_def cn_set_def array_get_def
        check_put_swap_array_def Let_def simp flip: e1(3))
qed

lemma refines_invalidate:
  assumes "dir_wf m"
  shows "i \<le> LOGICAL_NODE_NUM \<Longrightarrow> refines (InvalidateArray k i) m (invalidate_array k i m)"
    "refines (InvalidateExceptArray k i) m (invalidate_except_array k i m)"
    "\<not> block_id_eq k null_BlockId \<Longrightarrow>
       refines (InvalidateExceptArrayUpdateWmeta k i w) m (invalidate_except_array_update_wmeta k i w m)"
proof -
  show "refines (InvalidateArray k i) m (invalidate_array k i m)" if "i \<le> LOGICAL_NODE_NUM"
    using assms that dir_wf_get [OF assms, of k]
    by (cases "hm_get k m") (auto simp: gcd_unfold invalidate_array_def fun_upd_idem_iff)
  show "refines (InvalidateExceptArray k i) m (invalidate_except_array k i m)"
    using assms dir_wf_get [OF assms, of k] invalidate_others_ok [of "the (hm_get k m)" i]
    by (cases "hm_get k m") (auto simp: refines_def no_response_def abs_dir_get invalidate_except_array_def)
  have null: "block_id_eq null_BlockId null_BlockId" by (simp add: block_id_eq_def)
  show "refines (InvalidateExceptArrayUpdateWmeta k i w) m (invalidate_except_array_update_wmeta k i w m)"
    if "\<not> block_id_eq k null_BlockId"
    using assms that null dir_wf_get [OF assms, of k] invalidate_others_ok [of "the (hm_get k m)" i]
    by (cases "hm_get k m") (auto simp: refines_def no_response_def respond_def abs_dir_get invalidate_except_array_update_wmeta_def Let_def)
qed

lemma refines_move:
  assumes "dir_wf m" "c \<noteq> -1" "i \<le> LOGICAL_NODE_NUM"
  shows "refines (CheckMoveLocalArray k c i) m (check_move_local_array k c i m)"
proof (cases "hm_get k m")
  case None
  then show ?thesis by (simp add: gcd_unfold check_move_local_array_def)
next
  case (Some e)
  have e: "entry_ok e" "i < length (cn_array e)" "0 < length (cn_array e)"
    using dir_wf_get [OF assms(1) Some] assms(3) by (simp_all add: entry_ok_length)
  let ?e1 = "e\<lparr>cn_array := (cn_array e)[i := valid_cn c]\<rparr>"
  let ?e = "?e1\<lparr>wmeta_idx := -1\<rparr>"
  have e1: "entry_ok ?e" "0 < length (cn_array ?e)" "abs_entry ?e = (add_copy i c (abs_entry e))\<lparr>rw_mode := None\<rparr>"
    using e assms(2) entry_ok_ops(1) [OF e(1)] abs_entry_ops(1) [OF e(2) assms(2)] by simp_all
  have e2: "entry_ok (?e\<lparr>cn_array := (cn_array ?e)[0 := null_CNStatus]\<rparr>)"
    "abs_entry (?e\<lparr>cn_array := (cn_array ?e)[0 := null_CNStatus]\<rparr>) = drop_copy 0 (abs_entry ?e)"
    using entry_ok_ops(2) [OF e1(1)] abs_entry_ops(2) [OF e1(2)] by simp_all
  have stale: "(\<exists>x. copies (abs_entry e) i = Some (x, True)) \<longleftrightarrow> invalidate (cn_array e ! i)"
    using e entry_ok_nth [OF e(1,2)] by (auto simp: abs_copy_def)
  show ?thesis
  proof (cases "i = 0 \<or> \<not> (cn_slot (cn_array e ! i) = -1 \<or> invalidate (cn_array e ! i))")
    case True
    then show ?thesis using assms Some e stale
      by (auto simp: refines_def no_response_def abs_dir_get cn_get_def array_get_def check_move_local_array_def)
  next
    case False
    then have out: "check_move_local_array k c i m = Inr (Some \<lparr>resp_key = k, resp_value = init_gcd_entry (cn_slot (cn_array ?e ! 0)) 0\<rparr>,
        hm_insert k (?e\<lparr>cn_array := (cn_array ?e)[0 := null_CNStatus]\<rparr>) m)"
      using Some e by (simp add: respond_def cn_get_def cn_set_def array_get_def check_move_local_array_def Let_def)
    have "spec_mut (CheckMoveLocalArray k c i) (abs_dir m) =
        Some (RInt 0, (abs_dir m)(key_of k \<mapsto> drop_copy 0 ((add_copy i c (abs_entry e))\<lparr>rw_mode := None\<rparr>)))"
      using False Some e stale by (auto simp: abs_dir_get)
    then show ?thesis unfolding refines_def out using assms(1) e2 e1(3) by simp
  qed
qed

lemma refines_delete:
  assumes "dir_wf m" "i \<le> LOGICAL_NODE_NUM"
  shows "refines (DeleteArray k i) m (delete_array k i m)"
    "\<not> block_id_eq k null_BlockId \<Longrightarrow> refines (DeleteIfArray k i) m (delete_if_array k i m)"
proof -
  note ok = dir_wf_get [OF assms(1), of k]
  show "refines (DeleteArray k i) m (delete_array k i m)"
    using assms ok by (cases "hm_get k m") (auto simp: gcd_unfold delete_array_def)
  assume k: "\<not> block_id_eq k null_BlockId"
  have null: "block_id_eq null_BlockId null_BlockId" by (simp add: block_id_eq_def)
  have "cn_slot (cn_array (init_gcd_entry 2 (NUMA_MEM + 1)) ! 1) \<noteq> cn_slot (cn_array init_empty_gcd_entry ! 1)"
    by (simp add: init_gcd_entry_def init_empty_gcd_entry_def NUMA_MEM_def LOGICAL_NODE_NUM_def null_CNStatus_def Let_def)
  then have two: "init_gcd_entry 2 (NUMA_MEM + 1) \<noteq> init_empty_gcd_entry" by metis
  show "refines (DeleteIfArray k i) m (delete_if_array k i m)"
  proof (cases "hm_get k m")
    case None
    then show ?thesis using assms by (simp add: gcd_unfold delete_if_array_def)
  next
    case (Some e)
    have e: "entry_ok e" "i < length (cn_array e)" using ok Some assms(2) by (simp_all add: entry_ok_length)
    show ?thesis
      using assms k null two Some e entry_ok_null [OF e]
      by (auto simp: gcd_unfold delete_if_array_def abs_copy_def split: if_splits)
  qed
qed

lemma refines_check_swap:
  assumes "dir_wf m" "c \<noteq> -1" "i \<le> LOGICAL_NODE_NUM" "j \<le> LOGICAL_NODE_NUM"
  shows "refines (CheckSwapArray k k' c i j) m (check_swap_array k k' c i j m)"
proof (cases "hm_get k m")
  case None
  then show ?thesis using assms by (simp add: gcd_unfold check_swap_array_def)
next
  case (Some e)
  define e1 where "e1 = e\<lparr>cn_array := (cn_array e)[i := null_CNStatus]\<rparr>"
  have e: "entry_ok e" "i < length (cn_array e)" using dir_wf_get [OF assms(1) Some] assms(3) by (simp_all add: entry_ok_length)
  have e1: "entry_ok e1" "abs_entry e1 = drop_copy i (abs_entry e)" using e by (simp_all add: e1_def entry_ok_ops abs_entry_ops)
  define m1 where "m1 = store_or_remove k e1 m"
  have m1: "dir_wf m1" "abs_dir m1 = keep (key_of k) (drop_copy i (abs_entry e)) (abs_dir m)" using assms(1) e1 by (simp_all add: m1_def)
  have "check_swap_array k k' c i j m = (case check_put_array k' c j m1 of Inl f \<Rightarrow> Inl f | Inr x \<Rightarrow> Inr x)"
    using Some e by (cases "hm_get k' m1")
      (simp_all add: check_swap_array_def check_put_array_def cn_set_def e1_def m1_def Let_def split: sum.split)
  moreover have "refines (CheckPutArray k' c j) m1 (check_put_array k' c j m1)" using refines_put(3) [OF m1(1) assms(2,4)] .
  ultimately show ?thesis using Some m1
    by (auto simp: refines_def abs_dir_get [of m k] split: sum.splits option.splits)
qed

lemma gcd_dispatch_refines: "dir_wf m \<Longrightarrow> op_ok oper \<Longrightarrow> refines oper m (gcd_dispatch_mut oper m)"
  by (cases oper) (simp_all add: refines_simple refines_put refines_check_put_wmeta refines_swap refines_invalidate
      refines_move refines_delete refines_check_swap)

section \<open>Exclusive writers\<close>

text \<open>
  While a block is shared for writing, the only copy that is not invalidated is the one in shared
  memory. The client keeps to the operations of \<open>protocol_op\<close> (\<open>GlobalCacheDirectoryHandleNr\<close> without
  \<open>SwitchToRWShared\<close>, which skips the invalidation).
\<close>

definition excl_entry :: "aentry \<Rightarrow> bool" where
  "excl_entry a \<longleftrightarrow> rw_mode a = None \<or> (\<forall>i c. i \<noteq> NUMA_MEM \<longrightarrow> copies a i \<noteq> Some (c, False))"

definition exclusive :: "adir \<Rightarrow> bool" where
  "exclusive A \<longleftrightarrow> (\<forall>k a. A k = Some a \<longrightarrow> excl_entry a)"

fun protocol_op :: "modify \<Rightarrow> bool" where
  "protocol_op (CheckPutArrayWmeta k c i w) = (i \<noteq> NUMA_MEM \<or> w = -1)"
| "protocol_op (PutArrayWmeta k c i w) = (w = -1)"
| "protocol_op (InvalidateExceptArrayUpdateWmeta k i w) = (i = NUMA_MEM)"
| "protocol_op (CheckSwitchWmetaArray k w) = (w = -1)"
| "protocol_op (CheckMoveLocalArray k c i) = True"
| "protocol_op (Delete k) = True"
| "protocol_op (DeleteArray k i) = True"
| "protocol_op (DeleteIfArray k i) = True"
| "protocol_op (InvalidateArray k i) = True"
| "protocol_op (InvalidateExceptArray k i) = True"
| "protocol_op (DummyLog k) = True"
| "protocol_op _ = False"

lemma exclusiveD: "exclusive A \<Longrightarrow> A k = Some a \<Longrightarrow> excl_entry a"
  unfolding exclusive_def by blast

lemma exclusive_update:
  "exclusive A \<Longrightarrow> excl_entry a \<Longrightarrow> exclusive (A(k \<mapsto> a))" "exclusive A \<Longrightarrow> exclusive (A(k := None))"
  "exclusive A \<Longrightarrow> excl_entry a \<Longrightarrow> exclusive (keep k a A)"
  unfolding exclusive_def keep_def by (auto simp del: split_paired_All)

lemma excl_entry_ops:
  "rw_mode a = None \<Longrightarrow> excl_entry a" "excl_entry a \<Longrightarrow> excl_entry (drop_copy i a)" "excl_entry a \<Longrightarrow> excl_entry (stale_copy i a)"
  "excl_entry a \<Longrightarrow> excl_entry (stale_others i a)" "excl_entry ((stale_others NUMA_MEM a)\<lparr>rw_mode := w\<rparr>)"
  "excl_entry (fresh_entry i c None)" "rw_mode a = None \<Longrightarrow> excl_entry (add_copy i c a)"
  "excl_entry (a\<lparr>rw_mode := None\<rparr>)" "excl_entry (drop_copy i (a\<lparr>rw_mode := None\<rparr>))"
  by (auto simp: excl_entry_def drop_copy_def stale_copy_def stale_others_def fresh_entry_def add_copy_def)

lemma exclusive_spec:
  assumes "exclusive A" "protocol_op oper" "spec_mut oper A = Some (r, A')"
  shows "exclusive A'"
  using assms
  by (cases oper) (auto split: option.splits if_splits intro!: exclusive_update intro: excl_entry_ops exclusiveD excl_entry_ops(2) [OF exclusiveD])

lemma spec_delete_if: "exclusive A \<Longrightarrow> spec_mut (DeleteIfArray k i) A \<noteq> None"
  using exclusiveD [of A "key_of k"] by (auto simp: excl_entry_def split: option.splits)

section \<open>Properties\<close>

text \<open>
  C9. Every operation of the directory refines its specification: on a well-formed directory and
  proper arguments \<open>dispatch_mut\<close> keeps the directory well-formed, the decoded response and the
  next directory are exactly those of the abstract operation, and it panics exactly when the
  abstract operation has no result.
\<close>

theorem directory_refines_spec:
  assumes "dir_wf m" "op_ok oper"
  shows "case gcd_dispatch_mut oper m of
      Inr (resp, m') \<Rightarrow> dir_wf m' \<and> spec_mut oper (abs_dir m) = Some (decode oper resp, abs_dir m')
    | Inl f \<Rightarrow> spec_mut oper (abs_dir m) = None"
  using gcd_dispatch_refines [OF assms] by (simp add: refines_def)

theorem directory_refines_spec_witness:
  "spec_mut (DeleteIfArray \<lparr>server_id = 1, inode = 5, offset = 0\<rparr> 1) (abs_dir (nr_hash_map_new 8))
     = Some (RInt 2, abs_dir (nr_hash_map_new 8))"
proof -
  let ?k = "\<lparr>server_id = 1, inode = 5, offset = 0\<rparr>"
  have wf: "dir_wf (nr_hash_map_new 8)" by (simp add: dir_wf_def nr_hash_map_new_def)
  have ok: "op_ok (DeleteIfArray ?k 1)" by (simp add: block_id_eq_def null_BlockId_def LOGICAL_NODE_NUM_def)
  have "gcd_dispatch_mut (DeleteIfArray ?k 1) (nr_hash_map_new 8) = Inr (None, nr_hash_map_new 8)"
    by (simp add: delete_if_array_def hm_get_def nr_hash_map_new_def no_response_def)
  with directory_refines_spec [OF wf ok] show ?thesis by simp
qed



end
