(* ===== verification/Machine_Topology.thy ===== *)
theory Machine_Topology
  imports Nr_Prelude "HOL-Library.Product_Lexorder" "HOL-Library.Multiset"
begin

text \<open>
  The topology of the machine and the placement of threads, \<open>ffi/topology.rs\<close> (the copy in
  \<open>bench_utils/src/topology.rs\<close> is the same code). The library \<open>hwloc2\<close> delivers the processing units, each
  with the chain of the objects above it; these lists are arguments of the model. So is the function
  \<open>interleave\<close> of the crate \<open>itertools\<close>, with its documented behaviour as the predicate \<open>interleaves\<close>.
\<close>

section \<open>Types\<close>

datatype thread_mapping = MapNone | Sequential | Interleave | MapNUMA

fun thread_mapping_display :: "thread_mapping \<Rightarrow> string" where
  "thread_mapping_display MapNone = ''None''"
| "thread_mapping_display Sequential = ''Sequential''"
| "thread_mapping_display Interleave = ''Interleave''"
| "thread_mapping_display MapNUMA = ''NUMA''"

fun thread_mapping_debug :: "thread_mapping \<Rightarrow> string" where
  "thread_mapping_debug MapNone = ''TM=None''"
| "thread_mapping_debug Sequential = ''TM=Sequential''"
| "thread_mapping_debug Interleave = ''TM=Interleave''"
| "thread_mapping_debug MapNUMA = ''TM=NUMA''"

record node_info =
  ni_node :: nat
  ni_memory :: nat

record cpu_info =
  ci_node :: "node_info option"
  ci_socket :: nat
  ci_core :: nat
  ci_cpu :: nat
  ci_l1 :: nat
  ci_l2 :: nat
  ci_l3 :: nat

record machine_topology =
  cpu_data :: "cpu_info list"

section \<open>Discovery\<close>

text \<open>An object of \<open>hwloc2\<close>; the depth of a cache is absent where the library has no cache attributes for the object.\<close>

datatype object_type = PU | Core | L1Cache | L2Cache | L3Cache | NUMANode | OtherObject

record hw_object =
  object_type :: object_type
  cache_depth :: "nat option"
  os_index :: nat
  logical_index :: nat
  total_memory :: nat

text \<open>The loops that climb from an object to the next one of a type; the result starts with that object.\<close>

fun climb :: "object_type \<Rightarrow> hw_object list \<Rightarrow> hw_object list" where
  "climb ty [] = []"
| "climb ty (ob # up) = (if object_type ob \<noteq> ty then climb ty up else ob # up)"

fun climb_cache :: "object_type \<Rightarrow> nat \<Rightarrow> hw_object list \<Rightarrow> hw_object list run" where
  "climb_cache ty d [] = Inr []"
| "climb_cache ty d (ob # up) =
     (if object_type ob \<noteq> ty then climb_cache ty d up
      else (case cache_depth ob of
              None \<Rightarrow> Inl unwrap_panic
            | Some n \<Rightarrow> if n < d then climb_cache ty d up else Inr (ob # up)))"

definition expect_first :: "string \<Rightarrow> 'a list \<Rightarrow> 'a run" where
  "expect_first msg xs = (case xs of [] \<Rightarrow> Inl (Panic msg) | x # _ \<Rightarrow> Inr x)"

definition discover_cpu :: "hw_object \<times> hw_object list \<Rightarrow> cpu_info run" where
  "discover_cpu p =
     (case p of (unit, ancestors) \<Rightarrow>
        let up = climb Core ancestors
        in bind_run (expect_first ''PU has no Core?'' up) (\<lambda>core.
           bind_run (climb_cache L1Cache 1 up) (\<lambda>up1.
           bind_run (expect_first ''Core doesn't have a L1 cache?'' up1) (\<lambda>l1.
           bind_run (climb_cache L2Cache 2 up1) (\<lambda>up2.
           bind_run (expect_first ''Core doesn't have a L2 cache?'' up2) (\<lambda>l2.
           bind_run (climb_cache L3Cache 3 up2) (\<lambda>up3.
           bind_run (expect_first ''Core doesn't have a L3 cache (socket)?'' up3) (\<lambda>socket.
             let numa_node = (case climb NUMANode up3 of
                                [] \<Rightarrow> None
                              | n # _ \<Rightarrow> Some \<lparr>ni_node = os_index n, ni_memory = total_memory n\<rparr>)
             in Inr \<lparr>ci_node = numa_node, ci_socket = logical_index socket, ci_core = logical_index core,
                     ci_cpu = os_index unit, ci_l1 = logical_index l1, ci_l2 = logical_index l2,
                     ci_l3 = logical_index socket\<rparr>))))))))"

fun discover_cpus :: "(hw_object \<times> hw_object list) list \<Rightarrow> cpu_info list run" where
  "discover_cpus [] = Inr []"
| "discover_cpus (p # ps) =
     bind_run (discover_cpu p) (\<lambda>c. bind_run (discover_cpus ps) (\<lambda>cs. Inr (c # cs)))"

text \<open>\<open>units\<close>: \<open>None\<close> when there is no topology, \<open>Some None\<close> when the library has no processing units.\<close>

definition topology_new :: "(hw_object \<times> hw_object list) list option option \<Rightarrow> machine_topology run" where
  "topology_new units =
     (case units of
        None \<Rightarrow> Inl (Panic ''Can't retrieve Topology'')
      | Some None \<Rightarrow> Inl (Panic ''Can't find CPUs'')
      | Some (Some ps) \<Rightarrow> bind_run (discover_cpus ps) (\<lambda>cs. Inr \<lparr>cpu_data = cs\<rparr>))"

section \<open>Queries\<close>

definition cores :: "machine_topology \<Rightarrow> nat" where
  "cores t = length (cpu_data t)"

definition sockets :: "machine_topology \<Rightarrow> nat list" where
  "sockets t = remdups_adj (sort (map ci_socket (cpu_data t)))"

definition nodes :: "machine_topology \<Rightarrow> nat list" where
  "nodes t = remdups_adj (sort (map (\<lambda>c. case ci_node c of None \<Rightarrow> 0 | Some n \<Rightarrow> ni_node n) (cpu_data t)))"

definition cpus_on_node :: "machine_topology \<Rightarrow> nat \<Rightarrow> cpu_info list" where
  "cpus_on_node t node = filter (\<lambda>c. ci_socket c = node) (cpu_data t)"

definition cpus_on_socket :: "machine_topology \<Rightarrow> nat \<Rightarrow> cpu_info list" where
  "cpus_on_socket t socket = filter (\<lambda>c. ci_socket c = socket) (cpu_data t)"

section \<open>Allocation\<close>

text \<open>\<open>Vec::dedup_by\<close> drops an element when the test holds for it and the last element it kept.\<close>

fun dedup_from :: "('a \<Rightarrow> 'a \<Rightarrow> bool) \<Rightarrow> 'a \<Rightarrow> 'a list \<Rightarrow> 'a list" where
  "dedup_from same b [] = []"
| "dedup_from same b (a # as) = (if same a b then dedup_from same b as else a # dedup_from same a as)"

fun dedup_by :: "('a \<Rightarrow> 'a \<Rightarrow> bool) \<Rightarrow> 'a list \<Rightarrow> 'a list" where
  "dedup_by same [] = []"
| "dedup_by same (a # as) = a # dedup_from same a as"

definition interleaves :: "('a list \<Rightarrow> 'a list \<Rightarrow> 'a list) \<Rightarrow> bool" where
  "interleaves il \<longleftrightarrow>
     (\<forall>ys. il [] ys = ys) \<and> (\<forall>xs. il xs [] = xs) \<and> (\<forall>x xs y ys. il (x # xs) (y # ys) = x # y # il xs ys)"

definition candidates :: "machine_topology \<Rightarrow> bool \<Rightarrow> cpu_info list" where
  "candidates t use_ht =
     (if use_ht then cpu_data t
      else dedup_by (\<lambda>a b. ci_core a = ci_core b) (sort_key ci_core (cpu_data t)))"

definition allocate :: "(cpu_info list \<Rightarrow> cpu_info list \<Rightarrow> cpu_info list) \<Rightarrow> machine_topology \<Rightarrow> thread_mapping \<Rightarrow> nat \<Rightarrow> bool
    \<Rightarrow> cpu_info list" where
  "allocate interleave t strategy how_many use_ht =
     (let cpus = candidates t use_ht
      in case strategy of
           MapNone \<Rightarrow> []
         | Interleave \<Rightarrow>
             let ht1 = dedup_by (\<lambda>a b. ci_socket a \<noteq> ci_socket b) (sort_key ci_core cpus);
                 ht2 = sort_key ci_core (filter (\<lambda>c. c \<notin> set ht1) cpus)
             in take how_many (interleave ht1 ht2)
         | Sequential \<Rightarrow> take how_many (sort_key (\<lambda>c. (ci_socket c, ci_cpu c)) cpus)
         | MapNUMA \<Rightarrow>
             let ht1 = sort_key ci_core cpus
             in take how_many (drop (length ht1 div 2) ht1))"

section \<open>Lemmas\<close>

lemma dedup_other_socket: "dedup_from (\<lambda>a b. f a \<noteq> f b) x xs = filter (\<lambda>y. f y = f x) xs"
  by (induction xs arbitrary: x) auto

lemma dedup_by_first: "dedup_by (\<lambda>a b. f a \<noteq> f b) xs = filter (\<lambda>y. f y = f (hd xs)) xs"
  by (cases xs) (simp_all add: dedup_other_socket)

lemma dedup_from_subseq: "set (dedup_from same b xs) \<subseteq> set xs" "distinct xs \<Longrightarrow> distinct (dedup_from same b xs)"
  by (induction same b xs rule: dedup_from.induct) auto

lemma dedup_by_subseq: "set (dedup_by same xs) \<subseteq> set xs" "distinct xs \<Longrightarrow> distinct (dedup_by same xs)"
  using dedup_from_subseq by (cases xs; fastforce)+

lemma dedup_from_key: "f b # map f (dedup_from (\<lambda>a b. f a = f b) b xs) = remdups_adj (f b # map f xs)"
proof (induction xs arbitrary: b)
  case (Cons a xs)
  show ?case using Cons.IH [of a] Cons.IH [of b] by (cases "f a = f b") simp_all
qed simp

lemma dedup_by_key: "map f (dedup_by (\<lambda>a b. f a = f b) xs) = remdups_adj (map f xs)"
  using dedup_from_key [of f "hd xs" "tl xs"] by (cases xs) simp_all

lemma interleaves_mset: "interleaves il \<Longrightarrow> mset (il xs ys) = mset xs + mset ys"
proof (induction xs arbitrary: ys)
  case (Cons x xs)
  then show ?case by (cases ys) (auto simp: interleaves_def)
qed (simp add: interleaves_def)

lemma interleaves_nth:
  "interleaves il \<Longrightarrow> i < 2 * min (length xs) (length ys) \<Longrightarrow> il xs ys ! i = (if even i then xs ! (i div 2) else ys ! (i div 2))"
proof (induction xs arbitrary: ys i)
  case (Cons x xs)
  then obtain y ys' where ys: "ys = y # ys'" by (cases ys) auto
  have il: "il (x # xs) (y # ys') = x # y # il xs ys'" using Cons.prems(1) by (simp add: interleaves_def ys)
  show ?case
  proof (cases "i < 2")
    case False
    then obtain j where "i = Suc (Suc j)" by (metis add_2_eq_Suc le_Suc_ex not_less)
    then show ?thesis using Cons.IH [of j ys'] Cons.prems by (simp add: il ys)
  qed (auto simp: il ys less_2_cases_iff)
qed simp

lemma candidates_distinct: "distinct (cpu_data t) \<Longrightarrow> distinct (candidates t ht)" "set (candidates t ht) \<subseteq> set (cpu_data t)"
  using dedup_by_subseq [where same = "\<lambda>a b. ci_core a = ci_core b" and xs = "sort_key ci_core (cpu_data t)"]
  by (auto simp: candidates_def)

lemma sorted_dedup: "sorted xs \<Longrightarrow> distinct (remdups_adj xs)"
  by (induction xs rule: remdups_adj.induct) fastforce+

lemma candidates_length: "length (candidates t ht) = (if ht then length (cpu_data t) else card (ci_core ` set (cpu_data t)))"
proof (cases ht)
  case False
  let ?ks = "map ci_core (sort_key ci_core (cpu_data t))"
  have "length (candidates t ht) = length (remdups_adj ?ks)"
    using False dedup_by_key [of ci_core "sort_key ci_core (cpu_data t)"] by (simp add: candidates_def flip: length_map [of ci_core])
  moreover have "distinct (remdups_adj ?ks)" by (rule sorted_dedup) simp
  ultimately show ?thesis using False distinct_card [of "remdups_adj ?ks"] by simp
qed (simp add: candidates_def)

lemma interleave_parts:
  assumes "distinct cpus"
  defines "ht1 \<equiv> dedup_by (\<lambda>a b. ci_socket a \<noteq> ci_socket b) (sort_key ci_core cpus)"
  defines "ht2 \<equiv> sort_key ci_core (filter (\<lambda>c. c \<notin> set ht1) cpus)"
  shows "mset ht1 + mset ht2 = mset cpus"
    "set ht1 = {c \<in> set cpus. ci_socket c = ci_socket (hd (sort_key ci_core cpus))}"
    "set ht2 = {c \<in> set cpus. ci_socket c \<noteq> ci_socket (hd (sort_key ci_core cpus))}"
proof -
  let ?s = "ci_socket (hd (sort_key ci_core cpus))"
  have 1: "ht1 = filter (\<lambda>c. ci_socket c = ?s) (sort_key ci_core cpus)" unfolding ht1_def by (rule dedup_by_first)
  then show "set ht1 = {c \<in> set cpus. ci_socket c = ?s}" by auto
  then have "filter (\<lambda>c. c \<notin> set ht1) cpus = filter (\<lambda>c. ci_socket c \<noteq> ?s) cpus" by (auto intro: filter_cong)
  then have 2: "ht2 = sort_key ci_core (filter (\<lambda>c. ci_socket c \<noteq> ?s) cpus)" by (simp add: ht2_def)
  then show "set ht2 = {c \<in> set cpus. ci_socket c \<noteq> ?s}" by auto
  show "mset ht1 + mset ht2 = mset cpus" unfolding 1 2
    by (simp add: mset_filter)
qed

lemma mset_part: "mset xs + mset ys = mset zs \<Longrightarrow> distinct zs \<Longrightarrow> length (xs @ ys) = length zs \<and> distinct (xs @ ys) \<and> set (xs @ ys) = set zs"
  by (metis mset_append mset_eq_imp_distinct_iff mset_eq_length mset_eq_setD)

lemma allocated:
  assumes "interleaves il" "distinct (cpu_data t)"
  shows "distinct (allocate il t m n ht) \<and> set (allocate il t m n ht) \<subseteq> set (cpu_data t)
    \<and> length (allocate il t m n ht) =
        (let avail = (if ht then length (cpu_data t) else card (ci_core ` set (cpu_data t)))
         in min n (case m of MapNone \<Rightarrow> 0 | MapNUMA \<Rightarrow> avail - avail div 2 | _ \<Rightarrow> avail))"
proof -
  let ?cpus = "candidates t ht"
  note C = candidates_distinct [of t] candidates_length [of t ht]
  have d: "distinct ?cpus" using C(1) assms(2) by blast
  let ?ht1 = "dedup_by (\<lambda>a b. ci_socket a \<noteq> ci_socket b) (sort_key ci_core ?cpus)"
  let ?ht2 = "sort_key ci_core (filter (\<lambda>c. c \<notin> set ?ht1) ?cpus)"
  have "mset (il ?ht1 ?ht2) + mset [] = mset ?cpus"
    using interleaves_mset [OF assms(1), of ?ht1 ?ht2] interleave_parts(1) [OF d] by simp
  note I = mset_part [OF this d, simplified]
  have part: "distinct (take n xs) \<and> set (take n xs) \<subseteq> set (cpu_data t)" if "distinct xs" "set xs \<subseteq> set ?cpus" for xs
    using that C(2) set_take_subset [of n xs] by (auto dest: subsetD)
  show ?thesis
  proof (cases m)
    case Interleave
    then show ?thesis using part [of "il ?ht1 ?ht2"] I C(3) by (simp add: allocate_def Let_def)
  next
    case Sequential
    then show ?thesis using part [of "sort_key (\<lambda>c. (ci_socket c, ci_cpu c)) ?cpus"] d C(3) by (simp add: allocate_def Let_def)
  next
    case MapNUMA
    then show ?thesis using part [of "drop (length ?cpus div 2) (sort_key ci_core ?cpus)"] d C(3) set_drop_subset [of "length ?cpus div 2" "sort_key ci_core ?cpus"]
      by (simp add: allocate_def Let_def)
  qed (simp add: allocate_def Let_def)
qed

section \<open>Properties\<close>

text \<open>
  C39. Placing \<open>n\<close> threads never puts two of them on one processor and uses only processors of the machine.
  Threads are left out only when there are not enough processors: all of them count, or one per core
  without hyper-threads, for the sequential and the interleaved mapping; the NUMA mapping uses the upper
  half; the mapping \<open>None\<close> places no thread at all.
\<close>

theorem allocate_places:
  assumes "interleaves il" "distinct (cpu_data t)"
  shows "distinct (allocate il t m n ht) \<and> set (allocate il t m n ht) \<subseteq> set (cpu_data t)
    \<and> length (allocate il t m n ht) =
        (let avail = (if ht then length (cpu_data t) else card (ci_core ` set (cpu_data t)))
         in min n (case m of MapNone \<Rightarrow> 0 | MapNUMA \<Rightarrow> avail - avail div 2 | _ \<Rightarrow> avail))"
  using allocated [OF assms] .

text \<open>A machine with two sockets of two cores with two hyper-threads each.\<close>

definition small_machine :: machine_topology where
  "small_machine = \<lparr>cpu_data = map (\<lambda>(s, c, i). \<lparr>ci_node = None, ci_socket = s, ci_core = c, ci_cpu = i, ci_l1 = c, ci_l2 = c, ci_l3 = s\<rparr>)
     [(0, 0, 0), (0, 1, 1), (1, 2, 2), (1, 3, 3), (0, 0, 4), (0, 1, 5), (1, 2, 6), (1, 3, 7)]\<rparr>"

lemma splice_interleaves: "interleaves splice"
  by (simp add: interleaves_def)

lemma small_machine_cpus: "distinct (cpu_data small_machine)" "length (cpu_data small_machine) = 8"
  by (simp_all add: small_machine_def)

theorem allocate_places_witness:
  "distinct (allocate splice small_machine MapNUMA 3 True) \<and> length (allocate splice small_machine MapNUMA 3 True) = 3
    \<and> length (allocate splice small_machine Interleave 9 True) = 8"
  using allocate_places [OF splice_interleaves small_machine_cpus(1), of MapNUMA 3 True]
    allocate_places [OF splice_interleaves small_machine_cpus(1), of Interleave 9 True] small_machine_cpus(2) by simp

text \<open>
  The order of placement. The sequential mapping fills the sockets one after the other, each by processor
  number. The interleaved mapping alternates: threads with an even number go to the socket of the
  first core and the others to the other sockets, for as long as both have processors left.
\<close>

lemma allocate_order:
  assumes "interleaves il" "distinct (cpu_data t)"
  shows "sorted (map (\<lambda>c. (ci_socket c, ci_cpu c)) (allocate il t Sequential n ht))
    \<and> (i < n \<and> i < 2 * min (length (filter (\<lambda>c. ci_socket c = s) (candidates t ht))) (length (filter (\<lambda>c. ci_socket c \<noteq> s) (candidates t ht)))
        \<and> s = ci_socket (hd (sort_key ci_core (candidates t ht)))
       \<longrightarrow> (ci_socket (allocate il t Interleave n ht ! i) = s \<longleftrightarrow> even i))"
proof (intro conjI impI)
  show "sorted (map (\<lambda>c. (ci_socket c, ci_cpu c)) (allocate il t Sequential n ht))"
    by (simp add: allocate_def Let_def flip: take_map)
next
  let ?cpus = "candidates t ht"
  assume i: "i < n \<and> i < 2 * min (length (filter (\<lambda>c. ci_socket c = s) ?cpus)) (length (filter (\<lambda>c. ci_socket c \<noteq> s) ?cpus))
    \<and> s = ci_socket (hd (sort_key ci_core ?cpus))"
  let ?ht1 = "dedup_by (\<lambda>a b. ci_socket a \<noteq> ci_socket b) (sort_key ci_core ?cpus)"
  let ?ht2 = "sort_key ci_core (filter (\<lambda>c. c \<notin> set ?ht1) ?cpus)"
  have d: "distinct ?cpus" using candidates_distinct(1) assms(2) by blast
  note P = interleave_parts [OF d]
  have M: "distinct ?ht1" "distinct ?ht2" using mset_part [OF P(1) d] by simp_all
  have len: "length ?ht1 = length (filter (\<lambda>c. ci_socket c = s) ?cpus)" "length ?ht2 = length (filter (\<lambda>c. ci_socket c \<noteq> s) ?cpus)"
    using P(2,3) i d distinct_card [OF M(1)] distinct_card [OF M(2)] by (simp_all add: distinct_card [symmetric] flip: set_filter)
  have socket: "c \<in> set ?ht1 \<Longrightarrow> ci_socket c = s" "c \<in> set ?ht2 \<Longrightarrow> ci_socket c \<noteq> s" for c using P(2,3) i by blast+
  have in_range: "i div 2 < length ?ht1" "i div 2 < length ?ht2" unfolding len using i by auto
  have "allocate il t Interleave n ht ! i = il ?ht1 ?ht2 ! i" using i by (simp add: allocate_def Let_def)
  also have "\<dots> = (if even i then ?ht1 ! (i div 2) else ?ht2 ! (i div 2))"
    by (rule interleaves_nth [OF assms(1)]) (unfold len, use i in blast)
  finally show "ci_socket (allocate il t Interleave n ht ! i) = s \<longleftrightarrow> even i"
    using socket(1) [OF nth_mem [OF in_range(1)]] socket(2) [OF nth_mem [OF in_range(2)]] by (cases "even i") (simp_all only: if_True if_False simp_thms)
qed

end
