(* ===== verification/Nr_Ffi.thy ===== *)
theory Nr_Ffi
  imports Nr_Theorems Gcd_Spec Machine_Topology
begin

text \<open>
  The foreign-function interface of \<open>ffi/ffi_nr_hashmap.rs\<close>: placement of threads on NUMA nodes,
  creation and registration, and the extern functions of the directory, each a call of the
  replicated object followed by the decoding of its response. A pointer that may be null is an
  option; the object behind the reference-counted pointers is the state.
\<close>

section \<open>Placement\<close>

text \<open>
  The loop that fills an array with \<open>n\<close> execution nodes, skipping the memory node.
\<close>

function generate_loop :: "nat \<Rightarrow> nat \<Rightarrow> nat \<Rightarrow> nat \<Rightarrow> nat list \<Rightarrow> nat list" where
  "generate_loop mem n filled candidate arr =
     (if filled < n
      then if candidate = mem then generate_loop mem n filled (candidate + 1) arr
           else generate_loop mem n (filled + 1) (candidate + 1) (arr[filled := candidate])
      else arr)"
  by pat_completeness auto
termination
  by (relation "measures [\<lambda>(mem, n, filled, candidate, arr). n - filled, \<lambda>(mem, n, filled, candidate, arr). mem + 1 - candidate]") auto

declare generate_loop.simps [simp del]

definition generate_array :: "nat list" where
  "generate_array = generate_loop NUMA_MEM NUM_EXEC 0 0 (replicate NUM_EXEC 0)"

definition NUMA_EXEC :: "nat list" where
  "NUMA_EXEC = generate_array"

text \<open>
  The thread as the operating system sees it: the processor it runs on and the processors it may
  run on. \<open>topo\<close> is \<open>MACHINE_TOPOLOGY\<close>, \<open>cpu_ok\<close> tells which processors fit into a
  processor set, and \<open>mask_ok\<close> which sets the system accepts.
\<close>

record os_thread =
  cur_cpu :: nat
  cpu_mask :: "nat list"

definition set_affinity :: "(nat \<Rightarrow> bool) \<Rightarrow> (nat list \<Rightarrow> bool) \<Rightarrow> string \<Rightarrow> nat list \<Rightarrow> os_thread \<Rightarrow> os_thread run" where
  "set_affinity cpu_ok mask_ok msg cpus t =
     (if \<not> list_all cpu_ok cpus then Inl (Panic ''Can't toggle CPU in cpu_set'')
      else if \<not> mask_ok cpus then Inl (Panic msg)
      else Inr (t\<lparr>cpu_mask := cpus\<rparr>))"

definition rid_numa :: "nat \<Rightarrow> nat" where
  "rid_numa r = (if r = MAX_USIZE then NUMA_MEM else NUMA_EXEC ! (r mod NUM_EXEC))"

fun linux_chg_affinity :: "machine_topology \<Rightarrow> (nat \<Rightarrow> bool) \<Rightarrow> (nat list \<Rightarrow> bool) \<Rightarrow> affinity_change \<Rightarrow> os_thread
    \<Rightarrow> (nat \<times> os_thread) run" where
  "linux_chg_affinity topo cpu_ok mask_ok (AffReplica r) t =
     bind_run (set_affinity cpu_ok mask_ok ''Can't change thread affinity'' (map ci_cpu (cpus_on_node topo r)) t) (\<lambda>t'. Inr (cur_cpu t, t'))"
| "linux_chg_affinity topo cpu_ok mask_ok (AffRevert core_id) t =
     bind_run (set_affinity cpu_ok mask_ok ''Can't reset thread affinity'' [core_id] t) (\<lambda>t'. Inr (0xdead, t'))"

fun linux_chg_affinity_numa :: "machine_topology \<Rightarrow> (nat \<Rightarrow> bool) \<Rightarrow> (nat list \<Rightarrow> bool) \<Rightarrow> affinity_change \<Rightarrow> os_thread
    \<Rightarrow> (nat \<times> os_thread) run" where
  "linux_chg_affinity_numa topo cpu_ok mask_ok (AffReplica r) t =
     bind_run (set_affinity cpu_ok mask_ok ''Can't change thread affinity'' (map ci_cpu (cpus_on_node topo (rid_numa r))) t) (\<lambda>t'. Inr (cur_cpu t, t'))"
| "linux_chg_affinity_numa topo cpu_ok mask_ok (AffRevert core_id) t =
     bind_run (set_affinity cpu_ok mask_ok ''Can't reset thread affinity'' [core_id] t) (\<lambda>t'. Inr (0xdead, t'))"

section \<open>Creation and registration\<close>

text \<open>
  The constructors pass \<open>linux_chg_affinity\<close> and \<open>linux_chg_affinity_numa\<close> on; these act on the calling
  thread and not on the object, which sees only their results, the function \<open>af\<close>.
\<close>

type_synonym nrht = "(nr_hash_map, modify, option_gcd_response) node_replicated"

record nr_rapper =
  wrapped :: nrht
  thread_handle :: "unit run option"
  stop_signal :: bool

record nr_meta =
  ttkn :: thread_token

definition wrap :: "nr_error + nrht \<Rightarrow> nr_rapper run" where
  "wrap r = (case r of Inl _ \<Rightarrow> Inl unwrap_panic | Inr nr \<Rightarrow> Inr \<lparr>wrapped = nr, thread_handle = None, stop_signal = False\<rparr>)"

definition create_node_replicated :: "affinity_fn \<Rightarrow> (nat \<Rightarrow> bool) \<Rightarrow> nat \<Rightarrow> nat \<Rightarrow> nat \<Rightarrow> nr_rapper run" where
  "create_node_replicated af mem esize cap num_replica =
     bind_run (nr_new_with_data num_replica af mem esize (nr_hash_map_new cap)) wrap"

definition create_node_replicated_numa :: "affinity_fn \<Rightarrow> (nat \<Rightarrow> bool) \<Rightarrow> nat \<Rightarrow> nat \<Rightarrow> nat \<Rightarrow> nat \<Rightarrow> nat \<Rightarrow> nat \<Rightarrow> nat
    \<Rightarrow> nr_rapper run" where
  "create_node_replicated_numa af mem esize cap num_replica addr ssize numa_mem numa_num =
     (if num_replica \<noteq> LOGICAL_NODE_NUM then Inl (Panic ''assertion failed: usize::from(num_replica) == LOGICAL_NODE_NUM'')
      else if numa_mem \<noteq> NUMA_MEM then Inl (Panic ''assertion failed: numa_mem == NUMA_MEM'')
      else if numa_num \<noteq> NUM_EXEC + 1 then Inl (Panic ''assertion failed: numa_num == NUM_EXEC + 1'')
      else bind_run (nr_new_with_data_and_base_addr_numa num_replica af mem esize (nr_hash_map_new cap) addr ssize) wrap)"

text \<open>
  Freeing stops the background thread if there is one and joins it (\<open>thread_handle\<close> holds the outcome
  of the thread); the result is the wrapper as it is dropped.
\<close>

definition free_node_replicated :: "nr_rapper option \<Rightarrow> nr_rapper option run" where
  "free_node_replicated p =
     (case p of
        None \<Rightarrow> Inr None
      | Some w \<Rightarrow>
          (case thread_handle w of
             None \<Rightarrow> Inr (Some w)
           | Some handle \<Rightarrow>
               (case handle of
                  Inl (Panic _) \<Rightarrow> Inl unwrap_panic
                | Inl Hang \<Rightarrow> Inl Hang
                | Inr _ \<Rightarrow> Inr (Some (w\<lparr>thread_handle := None, stop_signal := True\<rparr>)))))"

text \<open>The decimal digits of a number, as the panic message of the registration shows the replica.\<close>

fun decimal :: "nat \<Rightarrow> string" where
  "decimal n = (if n < 10 then [char_of (48 + n)] else decimal (n div 10) @ [char_of (48 + n mod 10)])"

declare decimal.simps [simp del]

definition register_node_replicated :: "nr_rapper option \<Rightarrow> nat \<Rightarrow> (nr_meta option \<times> nr_rapper option) run" where
  "register_node_replicated p idx =
     (case p of
        None \<Rightarrow> Inr (None, None)
      | Some w \<Rightarrow>
          (case nr_register idx (wrapped w) of
             (None, _) \<Rightarrow> Inl (Panic (''Unable to register thread with replica '' @ decimal idx))
           | (Some log_token, nr) \<Rightarrow> Inr (Some \<lparr>ttkn = log_token\<rparr>, Some (w\<lparr>wrapped := nr\<rparr>))))"

section \<open>The extern functions\<close>

text \<open>
  The build and the environment of a call: whether \<open>scr\<close> is on, the affinity function, the outcomes
  of the weak compare-and-exchanges, and the fuel of the inner and the outer loops.
\<close>

record nr_config =
  cfg_scr :: bool
  cfg_af :: affinity_fn
  cfg_env :: "nat \<Rightarrow> env"
  cfg_inner :: nat
  cfg_outer :: nat

definition call_mut :: "nr_config \<Rightarrow> modify \<Rightarrow> nr_meta \<Rightarrow> nrht \<Rightarrow> (option_gcd_response \<times> nrht) run" where
  "call_mut cfg oper meta nr =
     execute_mut (cfg_scr cfg) (cfg_af cfg) (cfg_env cfg) gcd_dispatcher (cfg_inner cfg) (cfg_outer cfg) oper (ttkn meta) nr"

definition call_get :: "nr_config \<Rightarrow> access \<Rightarrow> nr_meta \<Rightarrow> nrht \<Rightarrow> (option_gcd_response \<times> nrht) run" where
  "call_get cfg ro meta nr =
     execute (cfg_scr cfg) (cfg_af cfg) (cfg_env cfg) gcd_dispatcher (cfg_inner cfg) (cfg_outer cfg) ro (ttkn meta) nr"

definition Put_ffi :: "nr_config \<Rightarrow> nr_meta \<Rightarrow> block_id \<Rightarrow> gcd_entry \<Rightarrow> nrht \<Rightarrow> (unit \<times> nrht) run" where
  "Put_ffi cfg meta key val nr = bind_run (call_mut cfg (Put key val) meta nr) (\<lambda>(_, nr'). Inr ((), nr'))"

definition PutArray_ffi :: "nr_config \<Rightarrow> nr_meta \<Rightarrow> block_id \<Rightarrow> isize \<Rightarrow> nat \<Rightarrow> isize \<Rightarrow> nrht \<Rightarrow> (unit \<times> nrht) run" where
  "PutArray_ffi cfg meta key cn idx wmeta nr =
     bind_run (call_mut cfg (PutArrayWmeta key cn idx wmeta) meta nr) (\<lambda>(_, nr'). Inr ((), nr'))"

definition Delete_ffi :: "nr_config \<Rightarrow> nr_meta \<Rightarrow> block_id \<Rightarrow> nrht \<Rightarrow> (isize \<times> nrht) run" where
  "Delete_ffi cfg meta key nr =
     bind_run (call_mut cfg (Delete key) meta nr) (\<lambda>(response, nr').
       Inr (case response of Some value \<Rightarrow> wmeta_idx (resp_value value) | None \<Rightarrow> -2, nr'))"

definition DeleteArray_ffi :: "nr_config \<Rightarrow> nr_meta \<Rightarrow> block_id \<Rightarrow> nat \<Rightarrow> nrht \<Rightarrow> (bool \<times> nrht) run" where
  "DeleteArray_ffi cfg meta key idx nr =
     bind_run (call_mut cfg (DeleteArray key idx) meta nr) (\<lambda>(response, nr').
       Inr (case response of Some _ \<Rightarrow> True | None \<Rightarrow> False, nr'))"

definition DeleteIfArray_ffi :: "nr_config \<Rightarrow> nr_meta \<Rightarrow> block_id \<Rightarrow> nat \<Rightarrow> nrht \<Rightarrow> (nat \<times> nrht) run" where
  "DeleteIfArray_ffi cfg meta key idx nr =
     bind_run (call_mut cfg (DeleteIfArray key idx) meta nr) (\<lambda>(response, nr').
       Inr (case response of
              Some value \<Rightarrow>
                if block_id_eq (resp_key value) null_BlockId
                then if resp_value value = init_empty_gcd_entry then 3 else 1
                else 0
            | None \<Rightarrow> 2, nr'))"

definition InvalidateArray_ffi :: "nr_config \<Rightarrow> nr_meta \<Rightarrow> block_id \<Rightarrow> nat \<Rightarrow> nrht \<Rightarrow> (unit \<times> nrht) run" where
  "InvalidateArray_ffi cfg meta key idx nr =
     bind_run (call_mut cfg (InvalidateArray key idx) meta nr) (\<lambda>(_, nr'). Inr ((), nr'))"

definition InvalidateExceptArray_ffi :: "nr_config \<Rightarrow> nr_meta \<Rightarrow> block_id \<Rightarrow> nat \<Rightarrow> nrht \<Rightarrow> (unit \<times> nrht) run" where
  "InvalidateExceptArray_ffi cfg meta key idx nr =
     bind_run (call_mut cfg (InvalidateExceptArray key idx) meta nr) (\<lambda>(_, nr'). Inr ((), nr'))"

definition InvalidateExceptArrayUpdateWmeta_ffi :: "nr_config \<Rightarrow> nr_meta \<Rightarrow> block_id \<Rightarrow> nat \<Rightarrow> isize \<Rightarrow> nrht \<Rightarrow> (nat \<times> nrht) run" where
  "InvalidateExceptArrayUpdateWmeta_ffi cfg meta key idx wmeta nr =
     bind_run (call_mut cfg (InvalidateExceptArrayUpdateWmeta key idx wmeta) meta nr) (\<lambda>(response, nr').
       Inr (case response of
              Some value \<Rightarrow> if block_id_eq (resp_key value) null_BlockId then 2 else 0
            | None \<Rightarrow> 1, nr'))"

definition CheckPut_ffi :: "nr_config \<Rightarrow> nr_meta \<Rightarrow> block_id \<Rightarrow> gcd_entry \<Rightarrow> nrht \<Rightarrow> (bool \<times> nrht) run" where
  "CheckPut_ffi cfg meta key val nr =
     bind_run (call_mut cfg (CheckPut key val) meta nr) (\<lambda>(response, nr').
       Inr (case response of Some _ \<Rightarrow> True | None \<Rightarrow> False, nr'))"

definition CheckPutArray_ffi :: "nr_config \<Rightarrow> nr_meta \<Rightarrow> block_id \<Rightarrow> isize \<Rightarrow> nat \<Rightarrow> isize \<Rightarrow> nrht \<Rightarrow> (nat \<times> nrht) run" where
  "CheckPutArray_ffi cfg meta key cn idx wmeta nr =
     bind_run (call_mut cfg (CheckPutArrayWmeta key cn idx wmeta) meta nr) (\<lambda>(response, nr').
       Inr (case response of
              Some value \<Rightarrow> if block_id_eq (resp_key value) null_BlockId then 2 else 0
            | None \<Rightarrow> 1, nr'))"

definition CheckSwitchWmetaArray_ffi :: "nr_config \<Rightarrow> nr_meta \<Rightarrow> block_id \<Rightarrow> isize \<Rightarrow> nrht \<Rightarrow> (isize \<times> nrht) run" where
  "CheckSwitchWmetaArray_ffi cfg meta key wmeta nr =
     bind_run (call_mut cfg (CheckSwitchWmetaArray key wmeta) meta nr) (\<lambda>(response, nr').
       Inr (case response of Some value \<Rightarrow> wmeta_idx (resp_value value) | None \<Rightarrow> -1, nr'))"

definition CheckMoveLocalArray_ffi :: "nr_config \<Rightarrow> nr_meta \<Rightarrow> block_id \<Rightarrow> isize \<Rightarrow> nat \<Rightarrow> nrht \<Rightarrow> (isize \<times> nrht) run" where
  "CheckMoveLocalArray_ffi cfg meta key cn idx nr =
     bind_run (call_mut cfg (CheckMoveLocalArray key cn idx) meta nr) (\<lambda>(response, nr').
       Inr (case response of Some _ \<Rightarrow> 0 | None \<Rightarrow> -1, nr'))"

definition CheckPutSwapArray_ffi :: "nr_config \<Rightarrow> nr_meta \<Rightarrow> block_id \<Rightarrow> isize \<Rightarrow> nat \<Rightarrow> nat \<Rightarrow> nrht \<Rightarrow> (bool \<times> nrht) run" where
  "CheckPutSwapArray_ffi cfg meta key cn new_idx old_idx nr =
     bind_run (call_mut cfg (CheckPutSwapArray key cn new_idx old_idx) meta nr) (\<lambda>(response, nr').
       Inr (case response of Some _ \<Rightarrow> True | None \<Rightarrow> False, nr'))"

definition Swap_ffi :: "nr_config \<Rightarrow> nr_meta \<Rightarrow> block_id \<Rightarrow> block_id \<Rightarrow> gcd_entry \<Rightarrow> nrht \<Rightarrow> (bool \<times> nrht) run" where
  "Swap_ffi cfg meta to_remove to_insert val nr =
     bind_run (call_mut cfg (Swap to_remove to_insert val) meta nr) (\<lambda>(_, nr'). Inr (True, nr'))"

definition CheckSwapArray_ffi :: "nr_config \<Rightarrow> nr_meta \<Rightarrow> block_id \<Rightarrow> block_id \<Rightarrow> isize \<Rightarrow> nat \<Rightarrow> nat \<Rightarrow> nrht \<Rightarrow> (bool \<times> nrht) run" where
  "CheckSwapArray_ffi cfg meta to_remove to_insert cn new_idx old_idx nr =
     bind_run (call_mut cfg (CheckSwapArray to_remove to_insert cn new_idx old_idx) meta nr) (\<lambda>(response, nr').
       Inr (case response of Some _ \<Rightarrow> True | None \<Rightarrow> False, nr'))"

definition DummyEvent_ffi :: "nr_config \<Rightarrow> nr_meta \<Rightarrow> block_id \<Rightarrow> nrht \<Rightarrow> (unit \<times> nrht) run" where
  "DummyEvent_ffi cfg meta key nr = bind_run (call_mut cfg (DummyLog key) meta nr) (\<lambda>(_, nr'). Inr ((), nr'))"

definition response_entry :: "option_gcd_response \<Rightarrow> gcd_entry" where
  "response_entry response = (case response of Some value \<Rightarrow> resp_value value | None \<Rightarrow> init_empty_gcd_entry)"

definition Get_ffi :: "nr_config \<Rightarrow> nr_meta \<Rightarrow> block_id \<Rightarrow> nrht \<Rightarrow> (gcd_entry \<times> nrht) run" where
  "Get_ffi cfg meta key nr = bind_run (call_get cfg (Get key) meta nr) (\<lambda>(response, nr'). Inr (response_entry response, nr'))"

definition GetAnchor_ffi :: "nr_config \<Rightarrow> nr_meta \<Rightarrow> block_id \<Rightarrow> nrht \<Rightarrow> (gcd_entry \<times> nrht) run" where
  "GetAnchor_ffi cfg meta key nr =
     bind_run (execute_anchor (cfg_scr cfg) (cfg_af cfg) (cfg_env cfg) gcd_dispatcher (cfg_inner cfg) (cfg_outer cfg)
         (Get key) (ttkn meta) nr) (\<lambda>(response, nr'). Inr (response_entry response, nr'))"

definition GetAsync_ffi :: "nr_config \<Rightarrow> nr_meta \<Rightarrow> block_id \<Rightarrow> nrht \<Rightarrow> (gcd_entry \<times> nrht) run" where
  "GetAsync_ffi cfg meta key nr =
     bind_run (execute_loose (cfg_scr cfg) (cfg_af cfg) (cfg_env cfg) gcd_dispatcher (cfg_inner cfg) (cfg_outer cfg)
         (Get key) (ttkn meta) nr) (\<lambda>(response, nr'). Inr (response_entry response, nr'))"

definition CheckCoherence_ffi :: "nr_config \<Rightarrow> nr_meta \<Rightarrow> block_id \<Rightarrow> nrht \<Rightarrow> (bool \<times> nrht) run" where
  "CheckCoherence_ffi cfg meta key nr =
     bind_run (call_get cfg (Get key) meta nr) (\<lambda>(wrapper, nr').
       case wrapper of
         Some value \<Rightarrow>
           if cn_slot (cn_array (resp_value value) ! 0) = -1 then Inr (False, nr')
           else nr_check_coherence gcd_dispatcher wrapper (ttkn meta) nr'
       | None \<Rightarrow> Inr (False, nr'))"

definition CheckCoherenceSlot_ffi :: "nr_meta \<Rightarrow> isize \<Rightarrow> nrht \<Rightarrow> (bool \<times> nrht) run" where
  "CheckCoherenceSlot_ffi meta slot nr =
     (if slot = -1 then Inr (False, nr)
      else nr_check_coherence gcd_dispatcher
             (Some \<lparr>resp_key = null_BlockId, resp_value = init_gcd_entry slot NUMA_MEM\<rparr>) (ttkn meta) nr)"

definition ResetCoherence_ffi :: "nr_config \<Rightarrow> nr_meta \<Rightarrow> block_id \<Rightarrow> nrht \<Rightarrow> (unit \<times> nrht) run" where
  "ResetCoherence_ffi cfg meta key nr =
     bind_run (call_get cfg (Get key) meta nr) (\<lambda>(wrapper, nr').
       if wrapper \<noteq> None then nr_reset_coherence gcd_dispatcher wrapper (ttkn meta) nr' else Inr ((), nr'))"

definition CheckCoherenceReset_ffi :: "nr_config \<Rightarrow> nr_meta \<Rightarrow> block_id \<Rightarrow> nrht \<Rightarrow> (bool \<times> nrht) run" where
  "CheckCoherenceReset_ffi cfg meta key nr =
     bind_run (call_get cfg (Get key) meta nr) (\<lambda>(wrapper, nr').
       case wrapper of
         Some _ \<Rightarrow> nr_check_coherence_reset gcd_dispatcher wrapper (ttkn meta) nr'
       | None \<Rightarrow> Inr (True, nr'))"

definition CheckNotificationReset_ffi :: "nr_meta \<Rightarrow> nrht \<Rightarrow> (bool \<times> nrht) run" where
  "CheckNotificationReset_ffi meta nr = nr_check_notification_reset (ttkn meta) nr"

section \<open>The interface as one object\<close>

datatype ext_call =
    EPut block_id gcd_entry | EPutArray block_id isize nat isize | EDelete block_id | EDeleteArray block_id nat
  | EDeleteIfArray block_id nat | EInvalidateArray block_id nat | EInvalidateExceptArray block_id nat
  | EInvalidateExceptArrayUpdateWmeta block_id nat isize | ECheckPut block_id gcd_entry
  | ECheckPutArray block_id isize nat isize | ECheckSwitchWmetaArray block_id isize
  | ECheckMoveLocalArray block_id isize nat | ECheckPutSwapArray block_id isize nat nat
  | ESwap block_id block_id gcd_entry | ECheckSwapArray block_id block_id isize nat nat | EDummyEvent block_id

datatype ext_read = EGet block_id | EGetAnchor block_id

definition returns :: "('a \<Rightarrow> ret) \<Rightarrow> ('a \<times> nrht) run \<Rightarrow> (ret \<times> nrht) run" where
  "returns f c = bind_run c (\<lambda>(x, nr). Inr (f x, nr))"

fun ext_run :: "nr_config \<Rightarrow> ext_call \<Rightarrow> nr_meta \<Rightarrow> nrht \<Rightarrow> (ret \<times> nrht) run" where
  "ext_run cfg (EPut k v) t nr = returns (\<lambda>_. RVoid) (Put_ffi cfg t k v nr)"
| "ext_run cfg (EPutArray k c i w) t nr = returns (\<lambda>_. RVoid) (PutArray_ffi cfg t k c i w nr)"
| "ext_run cfg (EDelete k) t nr = returns RInt (Delete_ffi cfg t k nr)"
| "ext_run cfg (EDeleteArray k i) t nr = returns RBool (DeleteArray_ffi cfg t k i nr)"
| "ext_run cfg (EDeleteIfArray k i) t nr = returns (RInt \<circ> int) (DeleteIfArray_ffi cfg t k i nr)"
| "ext_run cfg (EInvalidateArray k i) t nr = returns (\<lambda>_. RVoid) (InvalidateArray_ffi cfg t k i nr)"
| "ext_run cfg (EInvalidateExceptArray k i) t nr = returns (\<lambda>_. RVoid) (InvalidateExceptArray_ffi cfg t k i nr)"
| "ext_run cfg (EInvalidateExceptArrayUpdateWmeta k i w) t nr =
     returns (RInt \<circ> int) (InvalidateExceptArrayUpdateWmeta_ffi cfg t k i w nr)"
| "ext_run cfg (ECheckPut k v) t nr = returns RBool (CheckPut_ffi cfg t k v nr)"
| "ext_run cfg (ECheckPutArray k c i w) t nr = returns (RInt \<circ> int) (CheckPutArray_ffi cfg t k c i w nr)"
| "ext_run cfg (ECheckSwitchWmetaArray k w) t nr = returns RInt (CheckSwitchWmetaArray_ffi cfg t k w nr)"
| "ext_run cfg (ECheckMoveLocalArray k c i) t nr = returns RInt (CheckMoveLocalArray_ffi cfg t k c i nr)"
| "ext_run cfg (ECheckPutSwapArray k c i j) t nr = returns RBool (CheckPutSwapArray_ffi cfg t k c i j nr)"
| "ext_run cfg (ESwap k k' v) t nr = returns RBool (Swap_ffi cfg t k k' v nr)"
| "ext_run cfg (ECheckSwapArray k k' c i j) t nr = returns RBool (CheckSwapArray_ffi cfg t k k' c i j nr)"
| "ext_run cfg (EDummyEvent k) t nr = returns (\<lambda>_. RVoid) (DummyEvent_ffi cfg t k nr)"

fun ext_get :: "nr_config \<Rightarrow> ext_read \<Rightarrow> nr_meta \<Rightarrow> nrht \<Rightarrow> (ret \<times> nrht) run" where
  "ext_get cfg (EGet k) t nr = returns (REntry \<circ> abs_entry) (Get_ffi cfg t k nr)"
| "ext_get cfg (EGetAnchor k) t nr = returns (REntry \<circ> abs_entry) (GetAnchor_ffi cfg t k nr)"

text \<open>The operation each function stands for, and the abstract directory as a sequential structure.\<close>

fun ext_op :: "ext_call \<Rightarrow> modify" where
  "ext_op (EPut k v) = Put k v"
| "ext_op (EPutArray k c i w) = PutArrayWmeta k c i w"
| "ext_op (EDelete k) = Delete k"
| "ext_op (EDeleteArray k i) = DeleteArray k i"
| "ext_op (EDeleteIfArray k i) = DeleteIfArray k i"
| "ext_op (EInvalidateArray k i) = InvalidateArray k i"
| "ext_op (EInvalidateExceptArray k i) = InvalidateExceptArray k i"
| "ext_op (EInvalidateExceptArrayUpdateWmeta k i w) = InvalidateExceptArrayUpdateWmeta k i w"
| "ext_op (ECheckPut k v) = CheckPut k v"
| "ext_op (ECheckPutArray k c i w) = CheckPutArrayWmeta k c i w"
| "ext_op (ECheckSwitchWmetaArray k w) = CheckSwitchWmetaArray k w"
| "ext_op (ECheckMoveLocalArray k c i) = CheckMoveLocalArray k c i"
| "ext_op (ECheckPutSwapArray k c i j) = CheckPutSwapArray k c i j"
| "ext_op (ESwap k k' v) = Swap k k' v"
| "ext_op (ECheckSwapArray k k' c i j) = CheckSwapArray k k' c i j"
| "ext_op (EDummyEvent k) = DummyLog k"

definition spec_dispatch :: "adir \<Rightarrow> ext_read \<Rightarrow> ret run" where
  "spec_dispatch A ro = Inr (REntry (spec_get (case ro of EGet k \<Rightarrow> k | EGetAnchor k \<Rightarrow> k) A))"

definition spec_dispatch_mut :: "ext_call \<Rightarrow> adir \<Rightarrow> (ret \<times> adir) run" where
  "spec_dispatch_mut c A =
     (if op_ok (ext_op c)
      then case spec_mut (ext_op c) A of Some (r, A') \<Rightarrow> Inr (r, A') | None \<Rightarrow> Inl (Panic ''the directory panics'')
      else Inl (Panic ''outside the contract''))"

definition dir_spec :: "(adir, ext_read, ext_call, ret) dispatcher" where
  "dir_spec = \<lparr>dispatch = spec_dispatch, dispatch_mut = spec_dispatch_mut, cn_idx = (\<lambda>_. -1), resp_eq = (=)\<rparr>"

text \<open>The replicated object stands for the abstract directory \<open>A\<close>.\<close>

definition stands_for :: "nr_config \<Rightarrow> adir \<Rightarrow> nrht \<Rightarrow> bool" where
  "stands_for cfg A nr \<longleftrightarrow>
     (\<exists>cap d. represents (cfg_scr cfg) (cfg_env cfg) gcd_dispatcher (nr_hash_map_new cap) (cfg_inner cfg) (cfg_outer cfg) d nr
        \<and> dir_wf d \<and> abs_dir d = A)"

fun register_clients :: "nat list \<Rightarrow> nr_rapper \<Rightarrow> (nr_meta option list \<times> nr_rapper option) run" where
  "register_clients [] w = Inr ([], Some w)"
| "register_clients (i # is) w =
     bind_run (register_node_replicated (Some w) i) (\<lambda>(t, p).
       case p of
         None \<Rightarrow> Inr ([t], None)
       | Some w1 \<Rightarrow> bind_run (register_clients is w1) (\<lambda>(ts, q). Inr (t # ts, q)))"

section \<open>Lemmas\<close>

lemma ext_run_decode:
  "ext_run cfg c t nr = returns (decode (ext_op c)) (call_mut cfg (ext_op c) t nr)"
  by (cases c; cases "call_mut cfg (ext_op c) t nr")
    (auto simp: returns_def Put_ffi_def PutArray_ffi_def Delete_ffi_def DeleteArray_ffi_def DeleteIfArray_ffi_def
      InvalidateArray_ffi_def InvalidateExceptArray_ffi_def InvalidateExceptArrayUpdateWmeta_ffi_def CheckPut_ffi_def
      CheckPutArray_ffi_def CheckSwitchWmetaArray_ffi_def CheckMoveLocalArray_ffi_def CheckPutSwapArray_ffi_def
      Swap_ffi_def CheckSwapArray_ffi_def DummyEvent_ffi_def split: option.splits)

lemma abs_response_entry:
  "abs_entry (response_entry (map_option (\<lambda>value. \<lparr>resp_key = k, resp_value = value\<rparr>) (hm_get k d))) = spec_get k (abs_dir d)"
  by (auto simp: response_entry_def spec_get_def abs_dir_get abs_init split: option.splits)

lemma spec_dispatch_mut_run:
  assumes "dir_wf d" "spec_dispatch_mut c (abs_dir d) = Inr (r, A')"
  shows "\<exists>resp d'. gcd_dispatch_mut (ext_op c) d = Inr (resp, d') \<and> r = decode (ext_op c) resp \<and> dir_wf d' \<and> abs_dir d' = A'"
proof -
  from assms(2) have "op_ok (ext_op c)" and s: "spec_mut (ext_op c) (abs_dir d) = Some (r, A')"
    by (auto simp: spec_dispatch_mut_def split: if_splits option.splits)
  with gcd_dispatch_refines [OF assms(1)] have "refines (ext_op c) d (gcd_dispatch_mut (ext_op c) d)" by simp
  with s show ?thesis by (auto simp: refines_def split: sum.splits)
qed

lemma stands_forI:
  assumes "represents (cfg_scr cfg) (cfg_env cfg) gcd_dispatcher (nr_hash_map_new cap) (cfg_inner cfg) (cfg_outer cfg) d nr" "dir_wf d"
  shows "stands_for cfg (abs_dir d) nr"
  unfolding stands_for_def using assms by blast

lemma stands_for_write:
  assumes "stands_for cfg A nr" "token_ok (ttkn t) nr" "spec_dispatch_mut c A = Inr (r, A')"
  shows "\<exists>nr'. ext_run cfg c t nr = Inr (r, nr') \<and> stands_for cfg A' nr' \<and> (\<forall>u. token_ok u nr \<longrightarrow> token_ok u nr')"
proof -
  from assms(1) obtain cap d where rep: "represents (cfg_scr cfg) (cfg_env cfg) gcd_dispatcher (nr_hash_map_new cap)
      (cfg_inner cfg) (cfg_outer cfg) d nr" and d: "dir_wf d" "abs_dir d = A"
    by (auto simp: stands_for_def)
  from spec_dispatch_mut_run [OF d(1)] assms(3) d(2) obtain resp d' where
    e: "dispatch_mut gcd_dispatcher (ext_op c) d = Inr (resp, d')" "r = decode (ext_op c) resp" "dir_wf d'" "abs_dir d' = A'"
    by fastforce
  from represents_write [OF rep assms(2) e(1), of "cfg_af cfg"] e(2-4) show ?thesis
    by (auto simp: ext_run_decode call_mut_def returns_def intro: stands_forI)
qed

lemma stands_for_read:
  assumes "stands_for cfg A nr" "token_ok (ttkn t) nr" "spec_dispatch A ro = Inr r"
  shows "\<exists>nr'. ext_get cfg ro t nr = Inr (r, nr') \<and> stands_for cfg A nr' \<and> (\<forall>u. token_ok u nr \<longrightarrow> token_ok u nr')"
proof -
  from assms(1) obtain cap d where rep: "represents (cfg_scr cfg) (cfg_env cfg) gcd_dispatcher (nr_hash_map_new cap)
      (cfg_inner cfg) (cfg_outer cfg) d nr" and d: "dir_wf d" "abs_dir d = A"
    by (auto simp: stands_for_def)
  let ?resp = "\<lambda>k. map_option (\<lambda>value. \<lparr>resp_key = k, resp_value = value\<rparr>) (hm_get k d)"
  have get: "dispatch gcd_dispatcher d (Get k) = Inr (?resp k)" for k by simp
  show ?thesis
  proof (cases ro)
    case (EGet k)
    from nro.rd_ok [OF rep assms(2) get, of "cfg_af cfg" k] EGet d assms(3) show ?thesis
      by (auto simp: Get_ffi_def call_get_def returns_def spec_dispatch_def abs_response_entry intro: stands_forI)
  next
    case (EGetAnchor k)
    from nra.rd_ok [OF rep assms(2) get, of "cfg_af cfg" k] EGetAnchor d assms(3) show ?thesis
      by (auto simp: GetAnchor_ffi_def returns_def spec_dispatch_def abs_response_entry intro: stands_forI)
  qed
qed

text \<open>The interface keeps the contract of a replicated object, with the abstract directory as its data.\<close>

interpretation ffi: replicated_object dir_spec "stands_for cfg" "\<lambda>t. token_ok (ttkn t)" "ext_run cfg" "ext_get cfg"
proof (unfold_locales, goal_cases)
  case (1 A nr t c r A')
  then show ?case using stands_for_write [of cfg A nr t c r A'] by (auto simp: dir_spec_def)
next
  case (2 A nr t ro r)
  then show ?case using stands_for_read [of cfg A nr t ro r] by (auto simp: dir_spec_def)
qed

lemma register_clients_all:
  "register_all is (wrapped w) = (map Some tkns, nr) \<Longrightarrow>
   register_clients is w = Inr (map (\<lambda>t. Some \<lparr>ttkn = t\<rparr>) tkns, Some (w\<lparr>wrapped := nr\<rparr>))"
proof (induction "is" arbitrary: w tkns nr)
  case (Cons i "is")
  then obtain tkn tkns' nr1 where "nr_register i (wrapped w) = (Some tkn, nr1)" "register_all is nr1 = (map Some tkns', nr)" "tkns = tkn # tkns'"
    by (auto split: prod.splits simp: Cons_eq_map_conv)
  with Cons.IH [of "w\<lparr>wrapped := nr1\<rparr>" tkns' nr] show ?case by (simp add: register_node_replicated_def)
qed simp

lemma fresh_registered:
  assumes "fresh_object scr D d0 num nr0" "\<forall>i\<in>set is. i < num" "length is \<le> MAX_THREADS_PER_REPLICA"
  shows "\<exists>tkns nr. register_all is nr0 = (map Some tkns, nr) \<and> nr_inv scr D d0 [] nr \<and> nr_quiet nr
    \<and> length (replicas nr) = num \<and> length tkns = length is \<and> (\<forall>t\<in>set tkns. token_ok t nr)"
proof -
  have F: "nr_inv scr D d0 [] nr0" "nr_quiet nr0" "length (replicas nr0) = num"
    "\<forall>j<length (replicas nr0). rep_next (replicas nr0 ! j) + length is \<le> MAX_THREADS_PER_REPLICA + 1"
    using assms(1,3) by (simp_all add: fresh_object_def)
  from register_all_ok [OF F(1,2) _ F(4)] assms(2) F(3) obtain tkns nr where
    "register_all is nr0 = (map Some tkns, nr)" "nr_inv scr D d0 [] nr" "nr_quiet nr" "length (replicas nr) = num" "map rid tkns = is"
    "\<forall>t\<in>set tkns. token_ok t nr" by fastforce
  then show ?thesis using length_map [of rid tkns] by (intro exI [of _ tkns] exI [of _ nr]) simp
qed

lemma create_numa_fresh:
  assumes "\<forall>i. mem i"
  shows "\<exists>nr0. create_node_replicated_numa af mem esize cap LOGICAL_NODE_NUM addr ssize NUMA_MEM (NUM_EXEC + 1)
      = Inr \<lparr>wrapped = nr0, thread_handle = None, stop_signal = False\<rparr>
    \<and> fresh_object scr D (nr_hash_map_new cap) LOGICAL_NODE_NUM nr0"
proof -
  have "LOGICAL_NODE_NUM < MAX_REPLICAS_PER_LOG" by (simp add: LOGICAL_NODE_NUM_def MAX_REPLICAS_PER_LOG_def)
  from construct_ok [where numa = True and bytes = DEFAULT_LOG_BYTES and scr = scr and D = D and af = af and esize = esize,
      OF this fresh_with_data(2) [of "nr_hash_map_new cap" addr ssize] assms]
  show ?thesis by (auto simp: create_node_replicated_numa_def nr_new_with_data_and_base_addr_numa_def
      with_log_size_and_struct_and_base_addr_numa_def wrap_def)
qed

lemma empty_directory: "dir_wf (nr_hash_map_new cap)" "abs_dir (nr_hash_map_new cap) = Map.empty"
  by (simp_all add: dir_wf_def abs_dir_def nr_hash_map_new_def fun_eq_iff)

lemma generate_loop_fill:
  assumes "length arr = n" "filled \<le> n" "candidate = (if filled < mem then filled else filled + 1) \<or> candidate = mem \<and> filled = mem"
    and "\<forall>i<filled. arr ! i = (if i < mem then i else i + 1)"
  shows "generate_loop mem n filled candidate arr = map (\<lambda>i. if i < mem then i else i + 1) [0..<n]"
  using assms
proof (induction mem n filled candidate arr rule: generate_loop.induct)
  case (1 mem n filled candidate arr)
  show ?case
  proof (cases "filled < n")
    case False
    with 1(3-6) show ?thesis by (subst generate_loop.simps) (auto intro: nth_equalityI)
  next
    case True
    show ?thesis
    proof (cases "candidate = mem")
      case m: True
      with 1(5) have "filled = mem" by (auto split: if_splits)
      with 1(1) [OF True m] 1(3-6) True m show ?thesis by (subst generate_loop.simps) simp
    next
      case m: False
      with 1(5) have c: "candidate = (if filled < mem then filled else filled + 1)" by auto
      have "candidate + 1 = (if filled + 1 < mem then filled + 1 else filled + 1 + 1) \<or> candidate + 1 = mem \<and> filled + 1 = mem"
        using c by auto
      moreover have "\<forall>i<filled + 1. (arr[filled := candidate]) ! i = (if i < mem then i else i + 1)"
        using 1(3,6) c True by (auto simp: nth_list_update less_Suc_eq)
      ultimately show ?thesis using 1(2) [OF True m] 1(3) True m by (subst generate_loop.simps) simp
    qed
  qed
qed

lemma generate_loop_array: "generate_loop mem n 0 0 (replicate n 0) = map (\<lambda>i. if i < mem then i else i + 1) [0..<n]"
  by (rule generate_loop_fill) auto

lemma NUMA_EXEC_nth: "i < NUM_EXEC \<Longrightarrow> NUMA_EXEC ! i = (if i < NUMA_MEM then i else i + 1)"
  by (simp add: NUMA_EXEC_def generate_array_def generate_loop_array)

section \<open>Properties\<close>

text \<open>
  C2. The foreign-function interface implements the abstract directory. Create the object with
  \<open>create_node_replicated_numa\<close>, register clients with any replicas, and let them issue any sequence of
  calls of the directory interface, one after the other and without lost compare-and-exchanges. If
  the abstract directory answers the sequence, every call returns, on every replica and for both
  ways of publishing log entries, exactly what the abstract directory returns, and the object
  stands for the resulting abstract directory.
\<close>

theorem ffi_implements_directory:
  assumes "\<forall>i. mem i" "\<forall>i\<in>set is. i < LOGICAL_NODE_NUM" "length is \<le> MAX_THREADS_PER_REPLICA"
    and "uncontended (cfg_env cfg)" "0 < cfg_inner cfg" "2 * LOGICAL_NODE_NUM < cfg_outer cfg"
    and "\<forall>c\<in>set cs. call_token c < length is" "seq_run dir_spec cs Map.empty = Inr (rs, A)"
  shows "\<exists>w0 metas w nr. create_node_replicated_numa af mem esize cap LOGICAL_NODE_NUM addr ssize NUMA_MEM (NUM_EXEC + 1) = Inr w0
    \<and> register_clients is w0 = Inr (map Some metas, Some w)
    \<and> obj_run (ext_run cfg) (ext_get cfg) (map (map_call id id ((!) metas)) cs) (wrapped w) = Inr (rs, nr)
    \<and> stands_for cfg A nr"
proof -
  let ?d0 = "nr_hash_map_new cap"
  obtain nr0 where c: "create_node_replicated_numa af mem esize cap LOGICAL_NODE_NUM addr ssize NUMA_MEM (NUM_EXEC + 1)
      = Inr \<lparr>wrapped = nr0, thread_handle = None, stop_signal = False\<rparr>" (is "_ = Inr ?w0")
    and f: "fresh_object (cfg_scr cfg) gcd_dispatcher ?d0 LOGICAL_NODE_NUM nr0"
    using create_numa_fresh [OF assms(1)] by blast
  obtain tkns nr where r: "register_all is nr0 = (map Some tkns, nr)" "nr_inv (cfg_scr cfg) gcd_dispatcher ?d0 [] nr" "nr_quiet nr"
    "length (replicas nr) = LOGICAL_NODE_NUM" "length tkns = length is" "\<forall>t\<in>set tkns. token_ok t nr"
    using fresh_registered [OF f assms(2,3)] by blast
  let ?metas = "map (\<lambda>t. \<lparr>ttkn = t\<rparr>) tkns"
  have reg: "register_clients is ?w0 = Inr (map Some ?metas, Some (?w0\<lparr>wrapped := nr\<rparr>))"
    using register_clients_all [of "is" ?w0 tkns nr] r(1) by (simp add: comp_def)
  have "3 \<le> cfg_outer cfg" using assms(6) by (simp add: LOGICAL_NODE_NUM_def)
  then have "represents (cfg_scr cfg) (cfg_env cfg) gcd_dispatcher ?d0 (cfg_inner cfg) (cfg_outer cfg) ?d0 nr"
    unfolding represents_def using r(2-4) assms(4-6) by (intro conjI exI [of _ "[]"]) simp_all
  from stands_forI [OF this empty_directory(1)] have st: "stands_for cfg Map.empty nr" by (simp add: empty_directory(2))
  have "\<forall>c\<in>set (map (map_call id id ((!) ?metas)) cs). token_ok (ttkn (call_token c)) nr"
    using assms(7) r(5,6) by simp
  from ffi.run_refines [OF st this, of rs A] assms(8) obtain nr' where
    "obj_run (ext_run cfg) (ext_get cfg) (map (map_call id id ((!) ?metas)) cs) nr = Inr (rs, nr')" "stands_for cfg A nr'"
    by (auto simp: seq_run_tokens)
  then show ?thesis using c reg
    by (intro exI [of _ ?w0] exI [of _ ?metas] exI [of _ "?w0\<lparr>wrapped := nr\<rparr>"] exI [of _ nr']) simp
qed

theorem ffi_implements_directory_witness:
  "\<exists>w0 metas w nr. create_node_replicated_numa (\<lambda>_ _. 0) (\<lambda>_. True) 64 16 LOGICAL_NODE_NUM 4096 64 NUMA_MEM (NUM_EXEC + 1) = Inr w0
    \<and> register_clients [0, 2] w0 = Inr (map Some metas, Some w)
    \<and> obj_run (ext_run \<lparr>cfg_scr = True, cfg_af = \<lambda>_ _. 0, cfg_env = calm, cfg_inner = 1, cfg_outer = 7\<rparr>)
        (ext_get \<lparr>cfg_scr = True, cfg_af = \<lambda>_ _. 0, cfg_env = calm, cfg_inner = 1, cfg_outer = 7\<rparr>)
        (map (map_call id id ((!) metas))
          [Write (ECheckPut \<lparr>server_id = 1, inode = 5, offset = 0\<rparr> (init_gcd_entry 7 1)) 0,
           Write (ECheckSwitchWmetaArray \<lparr>server_id = 1, inode = 5, offset = 0\<rparr> 4) 1,
           Write (EDelete \<lparr>server_id = 1, inode = 5, offset = 0\<rparr>) 0,
           Read (EGet \<lparr>server_id = 1, inode = 5, offset = 0\<rparr>) 1]) (wrapped w)
      = Inr ([RBool True, RInt 4, RInt 4, REntry \<lparr>rw_mode = None, copies = Map.empty\<rparr>], nr)"
proof -
  let ?k = "\<lparr>server_id = 1, inode = 5, offset = 0\<rparr>"
  let ?cfg = "\<lparr>cfg_scr = True, cfg_af = \<lambda>_ _. 0, cfg_env = calm, cfg_inner = 1, cfg_outer = 7\<rparr>"
  let ?cs = "[Write (ECheckPut ?k (init_gcd_entry 7 1)) 0, Write (ECheckSwitchWmetaArray ?k 4) 1, Write (EDelete ?k) 0,
    Read (EGet ?k) 1] :: (ext_call, ext_read, nat) call list"
  let ?rs = "[RBool True, RInt 4, RInt 4, REntry \<lparr>rw_mode = None, copies = Map.empty\<rparr>]"
  have "entry_ok (init_gcd_entry 7 1)" by (simp add: entry_ok_ops)
  then have seq: "seq_run dir_spec ?cs Map.empty = Inr (?rs, Map.empty)"
    by (simp add: dir_spec_def spec_dispatch_mut_def spec_dispatch_def spec_get_def abs_init LOGICAL_NODE_NUM_def fresh_entry_def enc_def)
  have ok: "\<forall>i::nat. True" "\<forall>i\<in>set [0, 2]. i < LOGICAL_NODE_NUM" "length [0, 2 :: nat] \<le> MAX_THREADS_PER_REPLICA"
    "uncontended (cfg_env ?cfg)" "0 < cfg_inner ?cfg" "2 * LOGICAL_NODE_NUM < cfg_outer ?cfg"
    "\<forall>c\<in>set ?cs. call_token c < length [0, 2 :: nat]"
    by (simp_all add: LOGICAL_NODE_NUM_def MAX_THREADS_PER_REPLICA_def uncontended_calm)
  from ffi_implements_directory [OF ok seq, of "\<lambda>_ _. 0" 64 16 4096 64] show ?thesis by blast
qed

text \<open>
  C35. The extern \<open>CheckSwapArray\<close> exchanges its two node indices. Asked to replace the copy of
  \<open>to_remove\<close> at node \<open>old_idx\<close> by a copy of \<open>to_insert\<close> at node \<open>new_idx\<close>, it removes the copy of
  \<open>to_remove\<close> at \<open>new_idx\<close> and records the new copy at \<open>old_idx\<close>: the stale copy stays in the directory.
\<close>

theorem check_swap_array_exchanges_nodes:
  assumes "stands_for cfg A nr" "token_ok (ttkn t) nr" "c \<noteq> -1" "new_idx \<le> LOGICAL_NODE_NUM" "old_idx \<le> LOGICAL_NODE_NUM"
    and "A (key_of k) = Some a" "copies a old_idx = Some s" "new_idx \<noteq> old_idx" "A (key_of k') = None"
  shows "\<exists>nr' A'. CheckSwapArray_ffi cfg t k k' c new_idx old_idx nr = Inr (True, nr') \<and> stands_for cfg A' nr'
    \<and> A' (key_of k) = Some (drop_copy new_idx a) \<and> A' (key_of k') = Some (fresh_entry old_idx c None)"
proof -
  let ?c = "ECheckSwapArray k k' c new_idx old_idx"
  let ?A = "A(key_of k \<mapsto> drop_copy new_idx a, key_of k' \<mapsto> fresh_entry old_idx c None)"
  have ne: "key_of k' \<noteq> key_of k" using assms(6,9) by auto
  have "copies (drop_copy new_idx a) \<noteq> Map.empty" using assms(7,8) by (auto simp: drop_copy_def fun_eq_iff)
  then have "spec_dispatch_mut ?c A = Inr (RBool True, ?A)"
    using assms(3-6,9) ne by (simp add: spec_dispatch_mut_def keep_def Let_def)
  from stands_for_write [OF assms(1,2) this] obtain nr' where "ext_run cfg ?c t nr = Inr (RBool True, nr')" "stands_for cfg ?A nr'"
    by blast
  then show ?thesis using ne by (intro exI [of _ nr'] exI [of _ ?A]) (auto simp: returns_def bind_run_Inr)
qed

theorem check_swap_array_exchanges_nodes_witness:
  "\<exists>cfg t nr nr' A'. CheckSwapArray_ffi cfg t \<lparr>server_id = 1, inode = 5, offset = 0\<rparr> \<lparr>server_id = 1, inode = 6, offset = 0\<rparr> 9 2 1 nr
       = Inr (True, nr')
     \<and> stands_for cfg A' nr' \<and> A' (key_of \<lparr>server_id = 1, inode = 6, offset = 0\<rparr>) = Some (fresh_entry 1 9 None)"
proof -
  let ?k = "\<lparr>server_id = 1, inode = 5, offset = 0\<rparr>" and ?k' = "\<lparr>server_id = 1, inode = 6, offset = 0\<rparr>"
  let ?cfg = "\<lparr>cfg_scr = True, cfg_af = \<lambda>_ _. 0, cfg_env = calm, cfg_inner = 1, cfg_outer = 7\<rparr>"
  let ?A = "[key_of ?k \<mapsto> fresh_entry 1 7 None]"
  obtain nr t0 where n: "nr_inv True gcd_dispatcher (nr_hash_map_new 0) [] nr" "nr_quiet nr" "length (replicas nr) = 2" "token_ok t0 nr"
    using two_replicas by blast
  have "represents (cfg_scr ?cfg) (cfg_env ?cfg) gcd_dispatcher (nr_hash_map_new 0) (cfg_inner ?cfg) (cfg_outer ?cfg) (nr_hash_map_new 0) nr"
    unfolding represents_def using n by (intro conjI exI [of _ "[]"]) (simp_all add: uncontended_calm)
  from stands_forI [OF this empty_directory(1)] have st: "stands_for ?cfg Map.empty nr" by (simp add: empty_directory(2))
  have "spec_dispatch_mut (EPutArray ?k 7 1 (-1)) Map.empty = Inr (RVoid, ?A)"
    by (simp add: spec_dispatch_mut_def LOGICAL_NODE_NUM_def dec_def)
  from stands_for_write [OF st, of "\<lparr>ttkn = t0\<rparr>", OF _ this] n(4) obtain nr1 where s1: "stands_for ?cfg ?A nr1" "token_ok t0 nr1" by auto
  have "copies (fresh_entry 1 7 None) 1 = Some (7, False)" "key_of ?k' \<noteq> key_of ?k" by (simp_all add: fresh_entry_def key_of_def)
  then show ?thesis
    using check_swap_array_exchanges_nodes [OF s1(1), of "\<lparr>ttkn = t0\<rparr>" 9 2 1 ?k "fresh_entry 1 7 None" "(7, False)" ?k'] s1(2)
    by (fastforce simp: LOGICAL_NODE_NUM_def)
qed


text \<open>
  Switching a thread to replica \<open>r\<close> binds it to the processors of the socket that has the number of the
  replica's node, since \<open>cpus_on_node\<close> compares sockets. Switching back does not restore its processor
  set: the thread is bound to the one processor it ran on before, whatever set it had.
\<close>

lemma affinity_revert_pins:
  fixes topo r defines "cpus \<equiv> map ci_cpu (cpus_on_socket topo (rid_numa r))"
  assumes "list_all cpu_ok cpus" "mask_ok cpus" "cpu_ok (cur_cpu t)" "mask_ok [cur_cpu t]"
  shows "linux_chg_affinity_numa topo cpu_ok mask_ok (AffReplica r) t = Inr (cur_cpu t, t\<lparr>cpu_mask := cpus\<rparr>)
    \<and> linux_chg_affinity_numa topo cpu_ok mask_ok (AffRevert (cur_cpu t)) (t\<lparr>cpu_mask := cpus\<rparr>) = Inr (0xdead, t\<lparr>cpu_mask := [cur_cpu t]\<rparr>)"
  using assms by (simp add: set_affinity_def cpus_on_node_def cpus_on_socket_def)

end
