(* ===== verification/Log_Steps.thy ===== *)
theory Log_Steps
  imports Nr_Log Transition_System
begin

text \<open>
  The log under concurrency, built with the feature \<open>scr\<close>: one combiner per replica runs \<open>append\<close>, \<open>exec\<close>
  and \<open>advance_head\<close> of \<open>nr/log.rs\<close>, and the steps of the replicas interleave at every access to shared
  state. The entries of the log live in memory that the caches of the replicas do not keep
  coherent: a store stays in the cache of the writer until the line is written back, which may
  happen at any time and has happened after \<open>flush_object\<close> and the fence, and a load may return an
  old line until the reader has flushed its copy. The counters are coherent and their accesses
  sequentially consistent.

  The ghost state is the history \<open>hist\<close> of all reserved operations with the token of their replica
  and, for each replica, the calls \<open>applied\<close> of its closure. After a failed attempt a combiner
  starts again from \<open>Idle\<close>, with the same or with other operations. All replicas are registered.
\<close>

section \<open>State\<close>

type_synonym 'op line = "'op option \<times> nat"

datatype 'op pc =
    Idle
  | Loaded "'op list" nat
  | Ready "'op list" nat
  | WriteOp "'op list" nat nat
  | WriteRep "'op list" nat nat
  | Fence "'op list" nat
  | Publish nat nat
  | ExecH nat
  | Inval nat
  | Replay nat nat
  | Done nat
  | Scan nat nat nat
  | StoreHead nat
  | Crashed

record 'op csys =
  cmem :: "nat \<Rightarrow> 'op line"
  cache :: "nat \<Rightarrow> nat \<Rightarrow> ('op line \<times> bool) option"
  chead :: nat
  ctl :: nat
  ccommit :: nat
  cctail :: nat
  cltails :: "nat \<Rightarrow> nat"
  pcs :: "nat \<Rightarrow> 'op pc"
  hist :: "('op \<times> nat) list"
  applied :: "nat \<Rightarrow> ('op \<times> bool) list"

text \<open>What a load of replica \<open>r\<close> returns, and flushing the lines of some slots followed by a fence.\<close>

definition view :: "'op csys \<Rightarrow> nat \<Rightarrow> nat \<Rightarrow> 'op line" where
  "view s r p = (case cache s r p of Some (v, _) \<Rightarrow> v | None \<Rightarrow> cmem s p)"

definition flush_mem :: "'op csys \<Rightarrow> nat \<Rightarrow> nat set \<Rightarrow> nat \<Rightarrow> 'op line" where
  "flush_mem s r P p = (if p \<in> P then (case cache s r p of Some (v, True) \<Rightarrow> v | _ \<Rightarrow> cmem s p) else cmem s p)"

definition flush_cache :: "'op csys \<Rightarrow> nat \<Rightarrow> nat set \<Rightarrow> nat \<Rightarrow> nat \<Rightarrow> ('op line \<times> bool) option" where
  "flush_cache s r P = (cache s)(r := (\<lambda>p. if p \<in> P then None else cache s r p))"

definition slots :: "nat \<Rightarrow> nat \<Rightarrow> nat \<Rightarrow> nat set" where
  "slots N a b = (\<lambda>q. q mod N) ` {a..<b}"

definition next_write :: "'op list \<Rightarrow> nat \<Rightarrow> nat \<Rightarrow> 'op pc" where
  "next_write ops st i = (if i < length ops then WriteOp ops st i else Fence ops st)"

abbreviation goto :: "'op csys \<Rightarrow> nat \<Rightarrow> 'op pc \<Rightarrow> 'op csys" where
  "goto s r c \<equiv> s\<lparr>pcs := (pcs s)(r := c)\<rparr>"

section \<open>Steps\<close>

inductive log_step :: "nat \<Rightarrow> nat \<Rightarrow> 'op csys \<Rightarrow> 'op csys \<Rightarrow> bool" for k N where
  load_tail: "r < k \<Longrightarrow> pcs s r = Idle \<Longrightarrow> length ops \<le> GC_FROM_HEAD \<Longrightarrow> log_step k N s (goto s r (Loaded ops (ctl s)))"
| load_head: "r < k \<Longrightarrow> pcs s r = Loaded ops t \<Longrightarrow>
    log_step k N s (goto s r (if t > chead s + N - GC_FROM_HEAD then Idle else Ready ops t))"
| cas_fail: "r < k \<Longrightarrow> pcs s r = Ready ops t \<Longrightarrow> log_step k N s (goto s r Idle)"
| cas_ok: "r < k \<Longrightarrow> pcs s r = Ready ops t \<Longrightarrow> ctl s = t \<Longrightarrow>
    log_step k N s (s\<lparr>ctl := t + length ops, hist := hist s @ map (\<lambda>oper. (oper, r + 1)) ops,
                      pcs := (pcs s)(r := next_write ops t 0)\<rparr>)"
| write_op: "r < k \<Longrightarrow> pcs s r = WriteOp ops st i \<Longrightarrow> p = (st + i) mod N \<Longrightarrow>
    log_step k N s (s\<lparr>cache := (cache s)(r := (cache s r)(p \<mapsto> ((Some (ops ! i), snd (view s r p)), True))),
                      pcs := (pcs s)(r := WriteRep ops st i)\<rparr>)"
| write_rep: "r < k \<Longrightarrow> pcs s r = WriteRep ops st i \<Longrightarrow> p = (st + i) mod N \<Longrightarrow>
    log_step k N s (s\<lparr>cache := (cache s)(r := (cache s r)(p \<mapsto> ((fst (view s r p), r + 1), True))),
                      pcs := (pcs s)(r := next_write ops st (i + 1))\<rparr>)"
| fence: "r < k \<Longrightarrow> pcs s r = Fence ops st \<Longrightarrow> P = slots N st (st + length ops) \<Longrightarrow>
    log_step k N s (s\<lparr>cmem := flush_mem s r P, cache := flush_cache s r P,
                      pcs := (pcs s)(r := Publish st (length ops))\<rparr>)"
| publish_none: "r < k \<Longrightarrow> pcs s r = Publish st 0 \<Longrightarrow> log_step k N s (goto s r Idle)"
| publish_batch: "r < k \<Longrightarrow> pcs s r = Publish st n \<Longrightarrow> n \<noteq> 0 \<Longrightarrow> ccommit s = st \<Longrightarrow>
    log_step k N s (s\<lparr>ccommit := st + n, pcs := (pcs s)(r := Idle)\<rparr>)"
| exec_tail: "r < k \<Longrightarrow> pcs s r = Idle \<Longrightarrow>
    log_step k N s (goto s r (if cltails s r = ccommit s then Idle else ExecH (ccommit s)))"
| exec_head: "r < k \<Longrightarrow> pcs s r = ExecH gt \<Longrightarrow>
    log_step k N s (goto s r (if cltails s r > gt \<or> cltails s r < chead s then Crashed else Inval gt))"
| inval: "r < k \<Longrightarrow> pcs s r = Inval gt \<Longrightarrow> P = slots N (cltails s r) gt \<Longrightarrow>
    log_step k N s (s\<lparr>cmem := flush_mem s r P, cache := flush_cache s r P,
                      pcs := (pcs s)(r := Replay gt (cltails s r))\<rparr>)"
| replay_none: "r < k \<Longrightarrow> pcs s r = Replay gt i \<Longrightarrow> i < gt \<Longrightarrow> fst (view s r (i mod N)) = None \<Longrightarrow>
    log_step k N s (goto s r Crashed)"
| replay_some: "r < k \<Longrightarrow> pcs s r = Replay gt i \<Longrightarrow> i < gt \<Longrightarrow> view s r (i mod N) = (Some oper, q) \<Longrightarrow>
    log_step k N s (s\<lparr>applied := (applied s)(r := applied s r @ [(oper, q = r + 1)]),
                      pcs := (pcs s)(r := Replay gt (i + 1))\<rparr>)"
| replay_end: "r < k \<Longrightarrow> pcs s r = Replay gt gt \<Longrightarrow>
    log_step k N s (s\<lparr>cctail := max (cctail s) gt, pcs := (pcs s)(r := Done gt)\<rparr>)"
| store_ltail: "r < k \<Longrightarrow> pcs s r = Done gt \<Longrightarrow>
    log_step k N s (s\<lparr>cltails := (cltails s)(r := gt), pcs := (pcs s)(r := Idle)\<rparr>)"
| scan_start: "r < k \<Longrightarrow> pcs s r = Idle \<Longrightarrow> log_step k N s (goto s r (Scan (chead s) 0 (cltails s 0)))"
| scan_next: "r < k \<Longrightarrow> pcs s r = Scan h j m \<Longrightarrow> j < k \<Longrightarrow>
    log_step k N s (goto s r (Scan h (j + 1) (if cltails s j < m then cltails s j else m)))"
| scan_end: "r < k \<Longrightarrow> pcs s r = Scan h k m \<Longrightarrow> log_step k N s (goto s r (if m = h then Idle else StoreHead m))"
| store_head: "r < k \<Longrightarrow> pcs s r = StoreHead m \<Longrightarrow> log_step k N s (s\<lparr>chead := m, pcs := (pcs s)(r := Idle)\<rparr>)"
| fetch: "r < k \<Longrightarrow> cache s r p = None \<Longrightarrow>
    log_step k N s (s\<lparr>cache := (cache s)(r := (cache s r)(p \<mapsto> (cmem s p, False)))\<rparr>)"
| evict: "r < k \<Longrightarrow> cache s r p = Some (v, d) \<Longrightarrow>
    log_step k N s (s\<lparr>cmem := (if d then (cmem s)(p := v) else cmem s), cache := (cache s)(r := (cache s r)(p := None))\<rparr>)"

definition log_start :: "nat \<Rightarrow> nat \<Rightarrow> 'op csys \<Rightarrow> bool" where
  "log_start k N s \<longleftrightarrow> 0 < k \<and> 2 * GC_FROM_HEAD \<le> N \<and> cmem s = (\<lambda>_. (None, 0)) \<and> cache s = (\<lambda>_ _. None)
     \<and> chead s = 0 \<and> ctl s = 0 \<and> ccommit s = 0 \<and> cctail s = 0 \<and> cltails s = (\<lambda>_. 0)
     \<and> pcs s = (\<lambda>_. Idle) \<and> hist s = [] \<and> applied s = (\<lambda>_. [])"

section \<open>Invariant\<close>

definition line_of :: "'op \<times> nat \<Rightarrow> 'op line" where
  "line_of e = (Some (fst e), snd e)"

text \<open>The reserved batch of a combiner that has not published it, and how far a replica has executed.\<close>

fun batch :: "'op pc \<Rightarrow> nat set" where
  "batch (WriteOp ops st i) = {st..<st + length ops}"
| "batch (WriteRep ops st i) = {st..<st + length ops}"
| "batch (Fence ops st) = {st..<st + length ops}"
| "batch (Publish st n) = {st..<st + n}"
| "batch _ = {}"

fun executed :: "'op pc \<Rightarrow> nat \<Rightarrow> nat" where
  "executed (Replay gt i) _ = i"
| "executed (Done gt) _ = gt"
| "executed _ lt = lt"

text \<open>\<open>own_batch\<close>: the batch of \<open>r\<close> is reserved for its operations, of which the first \<open>i\<close> are written.\<close>

definition own_batch :: "nat \<Rightarrow> 'op csys \<Rightarrow> nat \<Rightarrow> 'op list \<Rightarrow> nat \<Rightarrow> nat \<Rightarrow> bool" where
  "own_batch N s r ops st i \<longleftrightarrow> st + length ops \<le> ctl s \<and> (ops \<noteq> [] \<longrightarrow> ccommit s \<le> st)
     \<and> (\<forall>j<length ops. hist s ! (st + j) = (ops ! j, r + 1))
     \<and> (\<forall>j<i. view s r ((st + j) mod N) = line_of (hist s ! (st + j)))"

fun pc_ok :: "nat \<Rightarrow> nat \<Rightarrow> 'op csys \<Rightarrow> nat \<Rightarrow> 'op pc \<Rightarrow> bool" where
  "pc_ok k N s r (Loaded ops t) = (length ops \<le> GC_FROM_HEAD)"
| "pc_ok k N s r (Ready ops t) = (\<forall>q<k. t + length ops \<le> cltails s q + N)"
| "pc_ok k N s r (WriteOp ops st i) = (i < length ops \<and> own_batch N s r ops st i)"
| "pc_ok k N s r (WriteRep ops st i) =
     (i < length ops \<and> own_batch N s r ops st i \<and> fst (view s r ((st + i) mod N)) = Some (ops ! i))"
| "pc_ok k N s r (Fence ops st) = own_batch N s r ops st (length ops)"
| "pc_ok k N s r (Publish st n) =
     (n = 0 \<or> st + n \<le> ctl s \<and> ccommit s \<le> st \<and> (\<forall>q\<in>{st..<st + n}. cmem s (q mod N) = line_of (hist s ! q)))"
| "pc_ok k N s r (ExecH gt) = (cltails s r \<le> gt \<and> gt \<le> ccommit s)"
| "pc_ok k N s r (Inval gt) = (cltails s r \<le> gt \<and> gt \<le> ccommit s)"
| "pc_ok k N s r (Replay gt i) =
     (cltails s r \<le> i \<and> i \<le> gt \<and> gt \<le> ccommit s \<and> (\<forall>q\<in>{i..<gt}. view s r (q mod N) = line_of (hist s ! q)))"
| "pc_ok k N s r (Done gt) = (cltails s r \<le> gt \<and> gt \<le> cctail s)"
| "pc_ok k N s r (Scan h j m) = (\<forall>q<j. m \<le> cltails s q)"
| "pc_ok k N s r (StoreHead m) = (\<forall>q<k. m \<le> cltails s q)"
| "pc_ok k N s r Crashed = False"
| "pc_ok k N s r Idle = True"

definition counters_ok :: "nat \<Rightarrow> nat \<Rightarrow> 'op csys \<Rightarrow> bool" where
  "counters_ok k N s \<longleftrightarrow> 0 < k \<and> 2 * GC_FROM_HEAD \<le> N \<and> length (hist s) = ctl s \<and> ccommit s \<le> ctl s \<and> cctail s \<le> ccommit s
     \<and> (\<forall>r<k. chead s \<le> cltails s r \<and> cltails s r \<le> cctail s \<and> ctl s \<le> cltails s r + N)"

definition content_ok :: "nat \<Rightarrow> 'op csys \<Rightarrow> bool" where
  "content_ok N s \<longleftrightarrow> (\<forall>q<ccommit s. ctl s \<le> q + N \<longrightarrow> cmem s (q mod N) = line_of (hist s ! q))"

definition dirty_ok :: "nat \<Rightarrow> 'op csys \<Rightarrow> nat \<Rightarrow> 'op pc \<Rightarrow> bool" where
  "dirty_ok N s r c \<longleftrightarrow> (\<forall>p v. cache s r p = Some (v, True) \<longrightarrow> p \<in> (\<lambda>q. q mod N) ` batch c \<and> \<not> (\<exists>st n. c = Publish st n))"

definition batches_ok :: "nat \<Rightarrow> 'op csys \<Rightarrow> bool" where
  "batches_ok k s \<longleftrightarrow> (\<forall>r<k. \<forall>r'<k. r \<noteq> r' \<longrightarrow> batch (pcs s r) \<inter> batch (pcs s r') = {})
     \<and> {ccommit s..<ctl s} \<subseteq> (\<Union>r<k. batch (pcs s r))"

definition applied_ok :: "'op csys \<Rightarrow> nat \<Rightarrow> bool" where
  "applied_ok s r \<longleftrightarrow>
     applied s r = map (\<lambda>(oper, q). (oper, q = r + 1)) (take (executed (pcs s r) (cltails s r)) (hist s))"

text \<open>The positions whose lines the invariant of a program counter speaks about.\<close>

fun need :: "'op pc \<Rightarrow> nat set" where
  "need (WriteOp ops st i) = {st..<st + i}"
| "need (WriteRep ops st i) = {st..<st + i + 1}"
| "need (Replay gt i) = {i..<gt}"
| "need c = batch c"

text \<open>A clean copy of such a line agrees with the memory.\<close>

definition settled :: "nat \<Rightarrow> 'op csys \<Rightarrow> nat \<Rightarrow> 'op pc \<Rightarrow> bool" where
  "settled N s r c \<longleftrightarrow> (\<forall>q\<in>need c. \<forall>v. cache s r (q mod N) = Some (v, False) \<longrightarrow> cmem s (q mod N) = v)"

definition conc_inv :: "nat \<Rightarrow> nat \<Rightarrow> 'op csys \<Rightarrow> bool" where
  "conc_inv k N s \<longleftrightarrow> counters_ok k N s \<and> content_ok N s \<and> batches_ok k s
     \<and> (\<forall>r<k. pc_ok k N s r (pcs s r) \<and> dirty_ok N s r (pcs s r) \<and> settled N s r (pcs s r) \<and> applied_ok s r)"

section \<open>Preservation\<close>

declare split_paired_All [simp del] split_paired_Ex [simp del]

lemma slot_neq: "a < b \<Longrightarrow> b < a + N \<Longrightarrow> a mod N \<noteq> b mod (N :: nat)"
proof
  assume ab: "a < b" "b < a + N" and "a mod N = b mod N"
  then have "N dvd b - a" using mod_eq_dvd_iff_nat [of a b N] by simp
  with ab show False using dvd_imp_le [of N "b - a"] by simp
qed

lemma conc_invD:
  assumes "conc_inv k N s" "r < k"
  shows "pc_ok k N s r (pcs s r)" "dirty_ok N s r (pcs s r)" "applied_ok s r" "chead s \<le> cltails s r" "cltails s r \<le> cctail s"
    "ctl s \<le> cltails s r + N" "settled N s r (pcs s r)"
  using assms by (simp_all add: conc_inv_def counters_ok_def)

lemma conc_invG:
  assumes "conc_inv k N s"
  shows "0 < k" "2 * GC_FROM_HEAD \<le> N" "length (hist s) = ctl s" "ccommit s \<le> ctl s" "cctail s \<le> ccommit s"
    "content_ok N s" "batches_ok k s" "counters_ok k N s"
  using assms by (simp_all add: conc_inv_def counters_ok_def)

lemma batch_window: "pc_ok k N s r c \<Longrightarrow> q \<in> batch c \<Longrightarrow> ccommit s \<le> q \<and> q < ctl s"
  by (cases c) (auto simp: own_batch_def)

lemma need_cases: "pc_ok k N s r c \<Longrightarrow> q \<in> need c \<Longrightarrow> q \<in> batch c \<or> cltails s r \<le> q \<and> q < ccommit s"
  by (cases c) auto

lemma batch_separate:
  assumes inv: "conc_inv k N s" and r: "r < k" "q \<in> batch (pcs s r)" and q': "q' < ctl s" "ctl s \<le> q' + N" "q' \<noteq> q"
  shows "q' mod N \<noteq> q mod N"
proof -
  have w: "ccommit s \<le> q" "q < ctl s" using batch_window [OF conc_invD(1) [OF inv r(1)] r(2)] by auto
  have "ctl s \<le> ccommit s + N" using conc_invD(5,6) [OF inv r(1)] conc_invG(5) [OF inv] by simp
  then show ?thesis using slot_neq [of q q' N] slot_neq [of q' q N] w q' by (cases "q' < q") (auto simp: nat_neq_iff)
qed

lemma batch_need:
  assumes inv: "conc_inv k N s" and r: "r < k" "q \<in> batch (pcs s r)" and r': "r' < k" "r' \<noteq> r" "q' \<in> need (pcs s r')"
  shows "q' mod N \<noteq> q mod N"
proof -
  note P = conc_invD [OF inv r'(1)]
  have w: "ccommit s \<le> q" using batch_window [OF conc_invD(1) [OF inv r(1)] r(2)] by simp
  have "q' \<noteq> q \<and> cltails s r' \<le> q' \<and> q' < ctl s"
  proof (cases "q' \<in> batch (pcs s r')")
    case True
    then show ?thesis using batch_window [OF P(1) True] conc_invG(5,7) [OF inv] P(5) r r'(1,2) by (auto simp: batches_ok_def)
  next
    case False
    then show ?thesis using need_cases [OF P(1) r'(3)] w conc_invG(4) [OF inv] by auto
  qed
  then show ?thesis using batch_separate [OF inv r, of q'] P(6) by simp
qed

lemma pc_ok_frame:
  assumes "pc_ok k N s r c" "\<forall>q\<in>need c. view s' r (q mod N) = view s r (q mod N)"
    and "(\<exists>st n. c = Publish st n) \<longrightarrow> (\<forall>q\<in>need c. cmem s' (q mod N) = cmem s (q mod N))"
    and "hist s' = hist s @ xs" "length (hist s) = ctl s" "ctl s \<le> ctl s'" "ccommit s \<le> ctl s" "ccommit s \<le> ccommit s'"
    and "cctail s \<le> cctail s'" "\<forall>q. cltails s q \<le> cltails s' q" "cltails s' r = cltails s r" "\<forall>q\<in>batch c. ccommit s' \<le> q"
  shows "pc_ok k N s' r c"
proof -
  note v = assms(2)
  have h: "hist s' ! q = hist s ! q" if "q < ctl s" for q using assms(4,5) that by (simp add: nth_append)
  have own: "own_batch N s' r ops st i" if "own_batch N s r ops st i" "i \<le> length ops" "{st..<st + i} \<subseteq> need c" "batch c = {st..<st + length ops}"
    for ops st i
  proof -
    have "ops \<noteq> [] \<Longrightarrow> ccommit s' \<le> st" using assms(12) that(4) by (cases ops) auto
    then show ?thesis using that h v assms(6) by (auto simp: own_batch_def subset_iff)
  qed
  show ?thesis
  proof (cases c)
    case (Ready ops t)
    then show ?thesis using assms(1,10) by (auto intro: order_trans)
  next
    case (Publish st n)
    have "n \<noteq> 0 \<Longrightarrow> ccommit s' \<le> st" using assms(12) Publish by simp
    then show ?thesis using Publish assms(1,3,6) h by auto
  next
    case (Replay gt i)
    then show ?thesis using assms(1,7,8,11) h v by auto
  next
    case (Scan h j m)
    then show ?thesis using assms(1,10) by (auto intro: order_trans)
  next
    case (StoreHead m)
    then show ?thesis using assms(1,10) by (auto intro: order_trans)
  qed (use assms own v in auto)
qed

lemma view_irrelevant [simp]:
  "view (s\<lparr>pcs := f\<rparr>) = view s" "view (s\<lparr>hist := h\<rparr>) = view s" "view (s\<lparr>ctl := n\<rparr>) = view s" "view (s\<lparr>ccommit := n\<rparr>) = view s"
  "view (s\<lparr>applied := g\<rparr>) = view s" "view (s\<lparr>cctail := n\<rparr>) = view s" "view (s\<lparr>cltails := t\<rparr>) = view s" "view (s\<lparr>chead := n\<rparr>) = view s"
  by (simp_all add: view_def fun_eq_iff split: option.split)

lemma pcs_irrelevant [simp]:
  "pc_ok k N (s\<lparr>pcs := f\<rparr>) r c = pc_ok k N s r c" "dirty_ok N (s\<lparr>pcs := f\<rparr>) r c = dirty_ok N s r c"
  "settled N (s\<lparr>pcs := f\<rparr>) r c = settled N s r c"
  by (cases c; simp add: own_batch_def) (simp_all add: dirty_ok_def settled_def)

lemma no_dirty: "dirty_ok N s r c \<Longrightarrow> batch c = {} \<Longrightarrow> cache s r p \<noteq> Some (v, True)"
  unfolding dirty_ok_def by blast

lemma clean_ok: "dirty_ok N s r c \<Longrightarrow> batch c = {} \<Longrightarrow> dirty_ok N s r c'"
  by (simp add: dirty_ok_def)

lemma batches_upd:
  assumes "batches_ok k s" "r < k" "batch c = batch (pcs s r)" "ccommit s' = ccommit s" "ctl s' = ctl s" "pcs s' = (pcs s)(r := c)"
  shows "batches_ok k s'"
proof -
  have "batch (pcs s' q) = batch (pcs s q)" for q using assms(3,6) by simp
  then show ?thesis using assms(1,4,5) by (simp add: batches_ok_def)
qed

lemma goto_inv:
  assumes inv: "conc_inv k N s" and "r < k" "batch (pcs s r) = {}" "batch c = {}" "need c = {}" "pc_ok k N s r c"
    and "executed c (cltails s r) = executed (pcs s r) (cltails s r)"
  shows "conc_inv k N (goto s r c)"
proof -
  have "batches_ok k (goto s r c)" using batches_upd [OF conc_invG(7) [OF inv] assms(2)] assms(3,4) by simp
  moreover have "settled N s r c" using assms(5) by (simp add: settled_def)
  ultimately show ?thesis
    using assms clean_ok [OF conc_invD(2) [OF inv assms(2)] assms(3)]
    by (auto simp: conc_inv_def counters_ok_def content_ok_def applied_ok_def)
qed

lemma memory_step:
  assumes inv: "conc_inv k N s" and r: "r < k" and own: "\<forall>p. m p \<noteq> cmem s p \<longrightarrow> p \<in> (\<lambda>q. q mod N) ` batch (pcs s r)"
    and ca: "\<forall>q. q \<noteq> r \<longrightarrow> ca q = cache s q" and c: "batch c = batch (pcs s r)"
    "executed c (cltails s r) = executed (pcs s r) (cltails s r)"
    and s': "s' = s\<lparr>cmem := m, cache := ca, pcs := (pcs s)(r := c)\<rparr>"
    and new: "pc_ok k N s' r c" "dirty_ok N s' r c" "settled N s' r c"
  shows "conc_inv k N s'"
proof -
  have same: "m (q mod N) = cmem s (q mod N)" if "q' \<noteq> r" "q' < k" "q \<in> need (pcs s q')" for q q'
    using own batch_need [OF inv r _ that(2,1,3)] by fastforce
  have "pc_ok k N s' q (pcs s q) \<and> dirty_ok N s' q (pcs s q) \<and> settled N s' q (pcs s q)" if q: "q < k" "q \<noteq> r" for q
  proof (intro conjI)
    note P = conc_invD [OF inv q(1)]
    have "\<forall>x\<in>batch (pcs s q). ccommit s \<le> x" using batch_window [OF P(1)] by blast
    then show "pc_ok k N s' q (pcs s q)"
      using pc_ok_frame [OF P(1), of s' "[]"] same [OF q(2,1)] ca q conc_invG(3,4) [OF inv] by (simp add: s' view_def split: option.split)
    show "dirty_ok N s' q (pcs s q)" "settled N s' q (pcs s q)"
      using P(2,7) ca q same [OF q(2,1)] by (simp_all add: s' dirty_ok_def settled_def)
  qed
  moreover have "content_ok N s'"
  proof -
    have "m (q mod N) = cmem s (q mod N)" if "q < ccommit s" "ctl s \<le> q + N" for q
      using own batch_separate [OF inv r, of _ q] batch_window [OF conc_invD(1) [OF inv r]] that conc_invG(4) [OF inv] by fastforce
    then show ?thesis using conc_invG(6) [OF inv] by (simp add: content_ok_def s')
  qed
  moreover have "batches_ok k s'" using batches_upd [OF conc_invG(7) [OF inv] r c(1)] by (simp add: s')
  ultimately show ?thesis using inv new c(2) by (auto simp: conc_inv_def s' counters_ok_def applied_ok_def)
qed

lemma executed_le:
  assumes "conc_inv k N s" "r < k"
  shows "executed (pcs s r) (cltails s r) \<le> ccommit s"
  using conc_invD(1,5) [OF assms] conc_invG(5) [OF assms(1)] by (cases "pcs s r") auto

lemma batch_next_write [simp]: "batch (next_write ops st i) = {st..<st + length ops}"
  by (simp add: next_write_def)

lemma need_next_write: "i \<le> length ops \<Longrightarrow> need (next_write ops st i) = {st..<st + i}"
  by (auto simp: next_write_def)

lemma pc_ok_next_write: "i \<le> length ops \<Longrightarrow> own_batch N s r ops st i \<Longrightarrow> pc_ok k N s r (next_write ops st i)"
  by (cases "i = length ops") (simp_all add: next_write_def)

lemma executed_next_write [simp]: "executed (next_write ops st i) lt = lt"
  by (simp add: next_write_def)

lemma not_publish_next_write [simp]: "next_write ops st i \<noteq> Publish a b"
  by (simp add: next_write_def)

lemma cas_ok_inv:
  assumes inv: "conc_inv k N s" and r: "r < k" "pcs s r = Ready ops (ctl s)"
    and s': "s' = s\<lparr>ctl := ctl s + length ops, hist := hist s @ map (\<lambda>oper. (oper, r + 1)) ops, pcs := (pcs s)(r := next_write ops (ctl s) 0)\<rparr>"
  shows "conc_inv k N s'"
proof -
  note G = conc_invG [OF inv]
  have win: "\<forall>x\<in>batch (pcs s q). ccommit s \<le> x \<and> x < ctl s" if "q < k" for q using batch_window [OF conc_invD(1) [OF inv that]] by blast
  have "own_batch N s' r ops (ctl s) 0" using G(3,4) by (simp add: own_batch_def s' nth_append)
  then have me: "pc_ok k N s' r (next_write ops (ctl s) 0)" by (simp add: pc_ok_next_write)
  have settled: "settled N s' r (next_write ops (ctl s) 0)" by (simp add: settled_def need_next_write)
  have dirty: "dirty_ok N s' r (next_write ops (ctl s) 0)"
    using clean_ok [OF conc_invD(2) [OF inv r(1)], of "next_write ops (ctl s) 0"] r(2) by (simp add: dirty_ok_def s')
  have others: "pc_ok k N s' q (pcs s q)" if "q < k" for q
    using pc_ok_frame [OF conc_invD(1) [OF inv that], of s' "map (\<lambda>oper. (oper, r + 1)) ops"] win [OF that] G(3,4) by (auto simp: s')
  have app: "applied_ok s' q" if "q < k" for q
    using conc_invD(3) [OF inv that] executed_le [OF inv that] G(3,4) r(2) by (auto simp: applied_ok_def s')
  have "batches_ok k s'"
    unfolding batches_ok_def
  proof (intro conjI allI impI)
    fix q q' assume q: "q < k" "q' < k" "q \<noteq> q'"
    have old: "batch (pcs s q) \<inter> batch (pcs s q') = {}" using G(7) q unfolding batches_ok_def by blast
    have new: "batch (pcs s q) \<inter> {ctl s..<y} = {}" "{ctl s..<y} \<inter> batch (pcs s q') = {}" for y
      using win [OF q(1)] win [OF q(2)] by force+
    show "batch (pcs s' q) \<inter> batch (pcs s' q') = {}"
      using old new q(3) by (cases "q = r"; cases "q' = r") (simp_all add: s')
  next
    have "x \<in> (\<Union>q<k. batch (pcs s' q))" if "x \<in> {ccommit s..<ctl s + length ops}" for x
    proof (cases "x < ctl s")
      case True
      then have "x \<in> {ccommit s..<ctl s}" using that by simp
      then obtain q where "q < k" "x \<in> batch (pcs s q)" using G(7) unfolding batches_ok_def by blast
      then show ?thesis using r(2) by (intro UN_I [of q]) (auto simp: s')
    next
      case False
      then show ?thesis using that r(1) by (intro UN_I [of r]) (auto simp: s')
    qed
    then show "{ccommit s'..<ctl s'} \<subseteq> (\<Union>q<k. batch (pcs s' q))" by (auto simp: s')
  qed
  moreover have "counters_ok k N s'" using G(8) conc_invD(1) [OF inv r(1)] r(2) by (auto simp: counters_ok_def s')
  moreover have "content_ok N s'" using G(3,4,6) by (auto simp: content_ok_def s' nth_append)
  moreover have "dirty_ok N s' q (pcs s q)" "settled N s' q (pcs s q)" if "q < k" for q
    using conc_invD(2,7) [OF inv that] by (simp_all add: dirty_ok_def settled_def s')
  ultimately show ?thesis using me settled dirty others app by (auto simp: conc_inv_def s')
qed

lemma publish_inv:
  assumes inv: "conc_inv k N s" and r: "r < k" "pcs s r = Publish (ccommit s) n" "n \<noteq> 0"
    and s': "s' = s\<lparr>ccommit := ccommit s + n, pcs := (pcs s)(r := Idle)\<rparr>"
  shows "conc_inv k N s'"
proof -
  note G = conc_invG [OF inv]
  have P: "ccommit s + n \<le> ctl s" "\<forall>q\<in>{ccommit s..<ccommit s + n}. cmem s (q mod N) = line_of (hist s ! q)"
    using conc_invD(1) [OF inv r(1)] r(2,3) by auto
  have later: "\<forall>x\<in>batch (pcs s q). ccommit s + n \<le> x" if "q < k" "q \<noteq> r" for q
  proof
    fix x assume x: "x \<in> batch (pcs s q)"
    then have "x \<notin> {ccommit s..<ccommit s + n}" using G(7) that r(1,2) by (fastforce simp: batches_ok_def)
    moreover have "ccommit s \<le> x" using batch_window [OF conc_invD(1) [OF inv that(1)] x] by simp
    ultimately show "ccommit s + n \<le> x" by simp
  qed
  have others: "pc_ok k N s' q (pcs s q)" if "q < k" "q \<noteq> r" for q
    using pc_ok_frame [OF conc_invD(1) [OF inv that(1)], of s' "[]"] later [OF that] G(3,4) by (simp add: s')
  have "batches_ok k s'"
    unfolding batches_ok_def
  proof (intro conjI allI impI)
    fix q q' assume "q < k" "q' < k" "q \<noteq> q'"
    then show "batch (pcs s' q) \<inter> batch (pcs s' q') = {}" using G(7) by (simp add: s' batches_ok_def)
  next
    have "x \<in> (\<Union>q<k. batch (pcs s' q))" if x: "x \<in> {ccommit s + n..<ctl s}" for x
    proof -
      have "x \<in> {ccommit s..<ctl s}" using x by simp
      then obtain q where q: "q < k" "x \<in> batch (pcs s q)" using G(7) unfolding batches_ok_def by blast
      then have "q \<noteq> r" using x r(2) by auto
      then show ?thesis using q by (intro UN_I [of q]) (auto simp: s')
    qed
    then show "{ccommit s'..<ctl s'} \<subseteq> (\<Union>q<k. batch (pcs s' q))" by (auto simp: s')
  qed
  moreover have "counters_ok k N s'" using G(8) P(1) by (auto simp: counters_ok_def s')
  moreover have "content_ok N s'"
    unfolding content_ok_def
  proof (intro allI impI)
    fix q assume "q < ccommit s'" "ctl s' \<le> q + N"
    then show "cmem s' (q mod N) = line_of (hist s' ! q)" using G(6) P(2) by (cases "q < ccommit s") (auto simp: content_ok_def s')
  qed
  moreover have "dirty_ok N s' q (pcs s' q)" "settled N s' q (pcs s' q)" "applied_ok s' q" if "q < k" for q
    using conc_invD(2,3,7) [OF inv that] r(2) by (auto simp: dirty_ok_def settled_def applied_ok_def s')
  ultimately show ?thesis using others by (simp add: conc_inv_def) (simp add: s')
qed

text \<open>Storing into a line of the own batch keeps the lines of the earlier entries.\<close>

lemma store_view:
  assumes "view s' r = (view s r)(p := v)" "p = (st + i) mod N" "\<forall>j<i. (st + j) mod N \<noteq> p"
    and "own_batch N s r ops st i" "ctl s' = ctl s" "ccommit s' = ccommit s" "hist s' = hist s"
  shows "own_batch N s' r ops st i"
  using assms by (simp add: own_batch_def)

lemma view_store [simp]:
  "view (s\<lparr>cache := (cache s)(r := (cache s r)(p \<mapsto> (v, d)))\<rparr>) r = (view s r)(p := v)"
  by (auto simp: view_def fun_eq_iff split: option.split)

lemma batch_slots_differ:
  assumes inv: "conc_inv k N s" and r: "r < k" "batch (pcs s r) = {st..<st + n}" and ij: "j < i" "i < n"
  shows "(st + j) mod N \<noteq> (st + i) mod N"
proof -
  have b: "st + i \<in> batch (pcs s r)" "st + j \<in> batch (pcs s r)" using r(2) ij by auto
  from batch_window [OF conc_invD(1) [OF inv r(1)] b(2)] conc_invD(5,6) [OF inv r(1)] conc_invG(5) [OF inv]
  have "st + j < ctl s" "ctl s \<le> st + j + N" by auto
  then show ?thesis using batch_separate [OF inv r(1) b(1), of "st + j"] ij by simp
qed

lemma own_batch_Suc:
  assumes "own_batch N s r ops st i" "view s r ((st + i) mod N) = line_of (hist s ! (st + i))"
  shows "own_batch N s r ops st (i + 1)"
proof -
  have "view s r ((st + j) mod N) = line_of (hist s ! (st + j))" if "j < i + 1" for j
    using assms that by (cases "j = i") (simp_all add: own_batch_def)
  then show ?thesis using assms(1) by (simp add: own_batch_def)
qed

lemma settled_store:
  assumes "settled N s r c" "{st..<st + i} \<subseteq> need c" "need c' = {st..<st + i + 1}" "p = (st + i) mod N"
    and "s' = s\<lparr>cache := (cache s)(r := (cache s r)(p \<mapsto> (v, True))), pcs := f\<rparr>"
  shows "settled N s' r c'"
  unfolding settled_def
proof (intro ballI allI impI)
  fix q w assume q: "q \<in> need c'" "cache s' r (q mod N) = Some (w, False)"
  then have "q \<noteq> st + i" "cache s r (q mod N) = Some (w, False)" using assms(4) by (auto simp: assms(5) split: if_splits)
  moreover have "q \<in> need c" using calculation(1) q(1) assms(2,3) by auto
  ultimately show "cmem s' (q mod N) = w" using assms(1) unfolding settled_def by (simp add: assms(5))
qed

lemma write_op_inv:
  assumes inv: "conc_inv k N s" and r: "r < k" "pcs s r = WriteOp ops st i" and p: "p = (st + i) mod N"
    and s': "s' = s\<lparr>cache := (cache s)(r := (cache s r)(p \<mapsto> ((Some (ops ! i), snd (view s r p)), True))), pcs := (pcs s)(r := WriteRep ops st i)\<rparr>"
  shows "conc_inv k N s'"
proof (rule memory_step [OF inv r(1), where m = "cmem s"])
  have P: "i < length ops" "own_batch N s r ops st i" using conc_invD(1) [OF inv r(1)] r(2) by simp_all
  have ne: "\<forall>j<i. (st + j) mod N \<noteq> p" using batch_slots_differ [OF inv r(1), of st "length ops"] r(2) P(1) p by simp
  have "view s' r = (view s r)(p := (Some (ops ! i), snd (view s r p)))" by (simp add: s')
  from store_view [OF this p ne P(2)] this show "pc_ok k N s' r (WriteRep ops st i)" using P(1) p by (simp add: s')
  show "dirty_ok N s' r (WriteRep ops st i)" using conc_invD(2) [OF inv r(1)] r(2) P(1) p by (auto simp: dirty_ok_def s')
  show "settled N s' r (WriteRep ops st i)"
    using r(2) by (intro settled_store [OF conc_invD(7) [OF inv r(1)] _ _ p s']) simp_all
qed (use r(2) in \<open>simp_all add: s'\<close>)

lemma write_rep_inv:
  assumes inv: "conc_inv k N s" and r: "r < k" "pcs s r = WriteRep ops st i" and p: "p = (st + i) mod N"
    and s': "s' = s\<lparr>cache := (cache s)(r := (cache s r)(p \<mapsto> ((fst (view s r p), r + 1), True))), pcs := (pcs s)(r := next_write ops st (i + 1))\<rparr>"
  shows "conc_inv k N s'"
proof (rule memory_step [OF inv r(1), where m = "cmem s"])
  have P: "i < length ops" "own_batch N s r ops st i" "fst (view s r p) = Some (ops ! i)"
    using conc_invD(1) [OF inv r(1)] r(2) p by simp_all
  have ne: "\<forall>j<i. (st + j) mod N \<noteq> p" using batch_slots_differ [OF inv r(1), of st "length ops"] r(2) P(1) p by simp
  have v: "view s' r = (view s r)(p := (fst (view s r p), r + 1))" by (simp add: s')
  have ob: "own_batch N s' r ops st i" using store_view [OF v p ne P(2)] by (simp add: s')
  then have "hist s' ! (st + i) = (ops ! i, r + 1)" using P(1) by (simp add: own_batch_def)
  then have "own_batch N s' r ops st (i + 1)" using own_batch_Suc [OF ob] v p P(3) by (simp add: line_of_def)
  then show "pc_ok k N s' r (next_write ops st (i + 1))" using P(1) by (simp add: pc_ok_next_write)
  show "dirty_ok N s' r (next_write ops st (i + 1))" using conc_invD(2) [OF inv r(1)] r(2) P(1) p by (auto simp: dirty_ok_def s')
  show "settled N s' r (next_write ops st (i + 1))"
    using r(2) P(1) by (intro settled_store [OF conc_invD(7) [OF inv r(1)] _ _ p s']) (simp_all add: need_next_write add.assoc)
qed (use r(2) in \<open>simp_all add: s'\<close>)

lemma flush_view:
  assumes "settled N s r c" "q \<in> need c" "q mod N \<in> P"
  shows "flush_mem s r P (q mod N) = view s r (q mod N)"
  using assms by (auto simp: flush_mem_def view_def settled_def split: option.split bool.split)

lemma fence_inv:
  assumes inv: "conc_inv k N s" and r: "r < k" "pcs s r = Fence ops st" and P: "P = slots N st (st + length ops)"
    and s': "s' = s\<lparr>cmem := flush_mem s r P, cache := flush_cache s r P, pcs := (pcs s)(r := Publish st (length ops))\<rparr>"
  shows "conc_inv k N s'"
proof (rule memory_step [OF inv r(1)])
  have ob: "own_batch N s r ops st (length ops)" using conc_invD(1) [OF inv r(1)] r(2) by simp
  have "flush_mem s r P (q mod N) = line_of (hist s ! q)" if "q \<in> {st..<st + length ops}" for q
  proof -
    from that obtain j where "q = st + j" "j < length ops" using nat_le_iff_add by auto
    then show ?thesis using flush_view [OF conc_invD(7) [OF inv r(1)], of q P] r(2) that ob P by (simp add: own_batch_def slots_def)
  qed
  then show "pc_ok k N s' r (Publish st (length ops))" using ob by (auto simp: s' own_batch_def)
  show "\<forall>p. flush_mem s r P p \<noteq> cmem s p \<longrightarrow> p \<in> (\<lambda>q. q mod N) ` batch (pcs s r)"
    using r(2) P by (simp add: flush_mem_def slots_def)
  have "cache s r p = Some (v, True) \<Longrightarrow> p \<in> P" for p v
    using conc_invD(2) [OF inv r(1)] r(2) P by (force simp: dirty_ok_def slots_def)
  then show "dirty_ok N s' r (Publish st (length ops))" by (auto simp: dirty_ok_def s' flush_cache_def)
  show "settled N s' r (Publish st (length ops))" using P by (simp add: settled_def s' flush_cache_def slots_def)
qed (use r(2) in \<open>simp_all add: s' flush_cache_def\<close>)

lemma flush_clean: "dirty_ok N s r c \<Longrightarrow> batch c = {} \<Longrightarrow> flush_mem s r P = cmem s"
  using no_dirty [of N s r c] by (auto simp: flush_mem_def fun_eq_iff split: option.split bool.split)

lemma inval_inv:
  assumes inv: "conc_inv k N s" and r: "r < k" "pcs s r = Inval gt" and P: "P = slots N (cltails s r) gt"
    and s': "s' = s\<lparr>cmem := flush_mem s r P, cache := flush_cache s r P, pcs := (pcs s)(r := Replay gt (cltails s r))\<rparr>"
  shows "conc_inv k N s'"
proof (rule memory_step [OF inv r(1)])
  note I = conc_invD [OF inv r(1)]
  have m: "flush_mem s r P = cmem s" using flush_clean [OF I(2)] r(2) by simp
  have "view s' r (q mod N) = line_of (hist s ! q)" if "q \<in> {cltails s r..<gt}" for q
    using that I(1,6) r(2) conc_invG(6) [OF inv] P m by (simp add: view_def s' flush_cache_def slots_def content_ok_def)
  then show "pc_ok k N s' r (Replay gt (cltails s r))" using I(1) r(2) by (simp add: s')
  show "\<forall>p. flush_mem s r P p \<noteq> cmem s p \<longrightarrow> p \<in> (\<lambda>q. q mod N) ` batch (pcs s r)" using m by simp
  show "dirty_ok N s' r (Replay gt (cltails s r))" using no_dirty [OF I(2)] r(2) by (simp add: dirty_ok_def s' flush_cache_def)
  show "settled N s' r (Replay gt (cltails s r))" using P by (simp add: settled_def s' flush_cache_def slots_def)
qed (use r(2) in \<open>simp_all add: s' flush_cache_def\<close>)

text \<open>A line that is written back or fetched is seen as before, where the invariant speaks of it.\<close>

lemma cache_step:
  assumes inv: "conc_inv k N s" and r: "r < k"
    and own: "\<forall>p. m p \<noteq> cmem s p \<longrightarrow> (\<exists>v. cache s r p = Some (v, True))" and ca: "\<forall>q. q \<noteq> r \<longrightarrow> ca q = cache s q"
    and s': "s' = s\<lparr>cmem := m, cache := ca\<rparr>"
    and view: "\<forall>q\<in>need (pcs s r). view s' r (q mod N) = view s r (q mod N)" and set: "settled N s' r (pcs s r)"
    and dirty: "\<forall>p v. ca r p = Some (v, True) \<longrightarrow> cache s r p = Some (v, True)"
  shows "conc_inv k N s'"
proof (rule memory_step [OF inv r])
  note I = conc_invD [OF inv r]
  have "\<forall>q\<in>need (pcs s r). m (q mod N) = cmem s (q mod N)" if "\<exists>st n. pcs s r = Publish st n"
    using own I(2) that unfolding dirty_ok_def by blast
  moreover have "\<forall>x\<in>batch (pcs s r). ccommit s \<le> x" using batch_window [OF I(1)] by blast
  ultimately show "pc_ok k N s' r (pcs s r)"
    using pc_ok_frame [OF I(1) view, of "[]"] conc_invG(3,4) [OF inv] by (simp add: s')
  show "\<forall>p. m p \<noteq> cmem s p \<longrightarrow> p \<in> (\<lambda>q. q mod N) ` batch (pcs s r)" using own I(2) unfolding dirty_ok_def by blast
  show "dirty_ok N s' r (pcs s r)" using dirty I(2) by (auto simp: dirty_ok_def s')
qed (use ca set in \<open>simp_all add: s'\<close>)

lemma fetch_inv:
  assumes "conc_inv k N s" "r < k" "cache s r p = None"
  shows "conc_inv k N (s\<lparr>cache := (cache s)(r := (cache s r)(p \<mapsto> (cmem s p, False)))\<rparr>)"
proof (rule cache_step [OF assms(1,2), where m = "cmem s"])
  show "settled N (s\<lparr>cache := (cache s)(r := (cache s r)(p \<mapsto> (cmem s p, False)))\<rparr>) r (pcs s r)"
    using conc_invD(7) [OF assms(1,2)] by (simp add: settled_def)
  have "view s r p = cmem s p" using assms(3) by (simp add: view_def)
  then show "\<forall>q\<in>need (pcs s r). view (s\<lparr>cache := (cache s)(r := (cache s r)(p \<mapsto> (cmem s p, False)))\<rparr>) r (q mod N) = view s r (q mod N)"
    by simp
qed (auto split: if_splits)

lemma evict_inv:
  assumes inv: "conc_inv k N s" "r < k" and c: "cache s r p = Some (v, d)"
    and s': "s' = s\<lparr>cmem := (if d then (cmem s)(p := v) else cmem s), cache := (cache s)(r := (cache s r)(p := None))\<rparr>"
  shows "conc_inv k N s'"
proof (rule cache_step [OF inv, OF _ _ s'])
  note S = conc_invD(7) [OF inv, unfolded settled_def]
  show "settled N s' r (pcs s r)" using S by (auto simp: settled_def s')
  show "\<forall>q\<in>need (pcs s r). view s' r (q mod N) = view s r (q mod N)"
  proof
    fix q assume "q \<in> need (pcs s r)"
    then show "view s' r (q mod N) = view s r (q mod N)"
      using S c by (cases "q mod N = p"; cases d) (auto simp: view_def s' split: option.split)
  qed
qed (use c in \<open>auto split: if_splits\<close>)

lemma replay_some_inv:
  assumes inv: "conc_inv k N s" and r: "r < k" "pcs s r = Replay gt i" "i < gt" and v: "view s r (i mod N) = (Some oper, q)"
    and s': "s' = s\<lparr>applied := (applied s)(r := applied s r @ [(oper, q = r + 1)]), pcs := (pcs s)(r := Replay gt (i + 1))\<rparr>"
  shows "conc_inv k N s'"
proof -
  note I = conc_invD [OF inv r(1)] and G = conc_invG [OF inv]
  have lt: "i < length (hist s)" and e: "hist s ! i = (oper, q)" using I(1) r G(3,4) v by (auto simp: line_of_def prod_eq_iff)
  have "applied_ok s' x" if "x < k" for x
    using conc_invD(3) [OF inv that] lt e r(2) by (cases "x = r") (auto simp: applied_ok_def s' take_Suc_conv_app_nth simp flip: Suc_eq_plus1)
  moreover have "pc_ok k N s' x (pcs s' x)" if "x < k" for x
  proof (cases "x = r")
    case True
    then show ?thesis using I(1) r by (auto simp: s')
  next
    case False
    have "\<forall>y\<in>batch (pcs s x). ccommit s \<le> y" using batch_window [OF conc_invD(1) [OF inv that]] by blast
    then show ?thesis using pc_ok_frame [OF conc_invD(1) [OF inv that], of s' "[]"] G(3,4) False by (simp add: s')
  qed
  moreover have "dirty_ok N s' x (pcs s' x)" "settled N s' x (pcs s' x)" if "x < k" for x
    using conc_invD(2,7) [OF inv that] r(2) by (auto simp: dirty_ok_def settled_def s')
  moreover have "batches_ok k s'" using batches_upd [OF G(7) r(1), of "Replay gt (i + 1)" s'] r(2) by (simp add: s')
  ultimately show ?thesis using G(6,8) by (simp add: conc_inv_def) (simp add: s' counters_ok_def content_ok_def)
qed

text \<open>Steps that only move a counter forward, or the head to the slowest replica.\<close>

lemma counter_step:
  assumes inv: "conc_inv k N s" and r: "r < k" "batch (pcs s r) = {}" "batch c = {}" "need c = {}" "pc_ok k N s' r c"
    and s': "s' = s\<lparr>chead := h, cctail := t, cltails := (cltails s)(r := l), pcs := (pcs s)(r := c)\<rparr>"
    and up: "cctail s \<le> t" "t \<le> ccommit s" "cltails s r \<le> l" "l \<le> t" "\<forall>q<k. h \<le> cltails s q"
    and ex: "executed c l = executed (pcs s r) (cltails s r)"
  shows "conc_inv k N s'"
proof -
  note G = conc_invG [OF inv]
  have others: "pc_ok k N s' q (pcs s q)" if "q < k" "q \<noteq> r" for q
  proof -
    have "\<forall>y\<in>batch (pcs s q). ccommit s \<le> y" using batch_window [OF conc_invD(1) [OF inv that(1)]] by blast
    then show ?thesis using pc_ok_frame [OF conc_invD(1) [OF inv that(1)], of s' "[]"] G(3,4) that(2) up(1,3) by (simp add: s')
  qed
  have "counters_ok k N s'" using G(8) up by (fastforce simp: counters_ok_def s')
  moreover have "batches_ok k s'" using batches_upd [OF G(7) r(1)] r(2,3) by (simp add: s')
  moreover have "dirty_ok N s' q (pcs s' q)" "settled N s' q (pcs s' q)" "applied_ok s' q" if "q < k" for q
    using conc_invD(2,3,7) [OF inv that] r(2-4) ex by (auto simp: dirty_ok_def settled_def applied_ok_def s')
  moreover have "content_ok N s'" using G(6) by (simp add: content_ok_def s')
  ultimately show ?thesis using others r(5) by (simp add: conc_inv_def) (simp add: s')
qed

lemma loaded_ready:
  assumes "conc_inv k N s" "r < k" "pcs s r = Loaded ops t" "\<not> t > chead s + N - GC_FROM_HEAD"
  shows "pc_ok k N s r (Ready ops t)"
proof -
  have "length ops \<le> GC_FROM_HEAD" using conc_invD(1) [OF assms(1,2)] assms(3) by simp
  then have "t + length ops \<le> chead s + N" using assms(4) conc_invG(2) [OF assms(1)] by simp
  then show ?thesis using conc_invD(4) [OF assms(1)] by (auto intro: order_trans)
qed

lemma not_crash:
  assumes "conc_inv k N s" "r < k"
  shows "pcs s r = ExecH gt \<Longrightarrow> \<not> (cltails s r > gt \<or> cltails s r < chead s)"
    and "pcs s r = Replay gt i \<Longrightarrow> i < gt \<Longrightarrow> fst (view s r (i mod N)) \<noteq> None"
  using conc_invD(1,4) [OF assms] by (auto simp: line_of_def)

lemma scan_next_ok:
  assumes "conc_inv k N s" "r < k" "pcs s r = Scan h j m"
  shows "pc_ok k N s r (Scan h (j + 1) (if cltails s j < m then cltails s j else m))"
proof -
  have m: "\<forall>q<j. m \<le> cltails s q" using conc_invD(1) [OF assms(1,2)] assms(3) by simp
  have "(if cltails s j < m then cltails s j else m) \<le> cltails s q" if "q < j + 1" for q
    using m that by (cases "q = j") (auto intro: order_trans [OF less_imp_le])
  then show ?thesis by simp
qed

lemma conc_inv_step:
  assumes step: "log_step k N s s'" and inv: "conc_inv k N s"
  shows "conc_inv k N s'"
  using step
proof cases
  case (load_head r ops t)
  then show ?thesis using loaded_ready [OF inv] by (auto intro!: goto_inv [OF inv])
next
  case (cas_ok r ops t)
  then show ?thesis using cas_ok_inv [OF inv, of r ops s'] by simp
next
  case (write_op r ops st i p)
  show ?thesis by (rule write_op_inv [OF inv write_op(2-4,1)])
next
  case (write_rep r ops st i p)
  show ?thesis by (rule write_rep_inv [OF inv write_rep(2-4,1)])
next
  case (fence r ops st P)
  show ?thesis by (rule fence_inv [OF inv fence(2-4,1)])
next
  case (publish_batch r st n)
  then show ?thesis using publish_inv [OF inv, of r n s'] by simp
next
  case (exec_tail r)
  then show ?thesis using conc_invD(5) [OF inv exec_tail(2)] conc_invG(5) [OF inv] by (auto intro!: goto_inv [OF inv])
next
  case (exec_head r gt)
  then show ?thesis using not_crash(1) [OF inv exec_head(2,3)] conc_invD(1) [OF inv exec_head(2)] by (auto intro!: goto_inv [OF inv])
next
  case (inval r gt P)
  show ?thesis by (rule inval_inv [OF inv inval(2-4,1)])
next
  case (replay_none r gt i)
  then show ?thesis using not_crash(2) [OF inv] by blast
next
  case (replay_some r gt i oper q)
  show ?thesis by (rule replay_some_inv [OF inv replay_some(2-5,1)])
next
  case (replay_end r gt)
  then have s': "s' = s\<lparr>chead := chead s, cctail := max (cctail s) gt, cltails := (cltails s)(r := cltails s r), pcs := (pcs s)(r := Done gt)\<rparr>"
    by simp
  show ?thesis
    using replay_end conc_invD [OF inv replay_end(2)] conc_invD(4) [OF inv] conc_invG(5) [OF inv]
    by (intro counter_step [OF inv replay_end(2) _ _ _ _ s']) auto
next
  case (store_ltail r gt)
  then have s': "s' = s\<lparr>chead := chead s, cctail := cctail s, cltails := (cltails s)(r := gt), pcs := (pcs s)(r := Idle)\<rparr>" by simp
  show ?thesis
    using store_ltail conc_invD [OF inv store_ltail(2)] conc_invD(4) [OF inv] conc_invG(5) [OF inv]
    by (intro counter_step [OF inv store_ltail(2) _ _ _ _ s']) auto
next
  case (scan_next r h j m)
  then show ?thesis using scan_next_ok [OF inv scan_next(2,3)] by (auto intro!: goto_inv [OF inv])
next
  case (scan_end r h m)
  then show ?thesis using conc_invD(1) [OF inv scan_end(2)] by (auto intro!: goto_inv [OF inv])
next
  case (store_head r m)
  then have s': "s' = s\<lparr>chead := m, cctail := cctail s, cltails := (cltails s)(r := cltails s r), pcs := (pcs s)(r := Idle)\<rparr>" by simp
  show ?thesis
    using store_head conc_invD [OF inv store_head(2)] conc_invG(5) [OF inv] by (intro counter_step [OF inv store_head(2) _ _ _ _ s']) auto
next
  case (fetch r p)
  then show ?thesis using fetch_inv [OF inv] by simp
next
  case (evict r p v d)
  show ?thesis by (rule evict_inv [OF inv evict(2,3,1)])
qed (auto intro!: goto_inv [OF inv])

interpretation conc: inductive_invariant "log_start k N" "log_step k N" "conc_inv k N"
proof
  fix s :: "'op csys" assume "log_start k N s"
  then show "conc_inv k N s"
    by (simp add: log_start_def conc_inv_def counters_ok_def content_ok_def batches_ok_def dirty_ok_def settled_def applied_ok_def)
qed (rule conc_inv_step)

lemma hist_grows: "(log_step k N)\<^sup>*\<^sup>* s s' \<Longrightarrow> \<exists>xs. hist s' = hist s @ xs"
proof (induction rule: rtranclp_induct)
  case (step s1 s2)
  from step(2) have "\<exists>ys. hist s2 = hist s1 @ ys" by cases auto
  with step(3) show ?case by auto
qed simp

section \<open>Runs\<close>

text \<open>
  One replica reserves an entry while the other has an old copy of its line in the cache; the entry
  is then written, published and executed by the other replica.
\<close>

definition conc_idle :: "nat csys" where
  "conc_idle = \<lparr>cmem = \<lambda>_. (None, 0), cache = \<lambda>_ _. None, chead = 0, ctl = 0, ccommit = 0, cctail = 0, cltails = \<lambda>_. 0,
     pcs = \<lambda>_. Idle, hist = [], applied = \<lambda>_. []\<rparr>"

definition conc_reserved :: "nat csys" where
  "conc_reserved = conc_idle\<lparr>cache := (\<lambda>_ _. None)(1 := [0 \<mapsto> ((None, 0), False)]), ctl := 1, hist := [(7, 1)],
     pcs := (\<lambda>_. Idle)(0 := WriteOp [7] 0 0)\<rparr>"

definition conc_published :: "nat csys" where
  "conc_published = conc_reserved\<lparr>cmem := (\<lambda>_. (None, 0))(0 := (Some 7, 1)), ccommit := 1, pcs := (\<lambda>_. Idle)\<rparr>"

definition conc_finished :: "nat csys" where
  "conc_finished = conc_published\<lparr>cache := (\<lambda>_ _. None), cctail := 1, cltails := (\<lambda>_. 0)(1 := 1),
     applied := (\<lambda>_. [])(1 := [(7, False)])\<rparr>"

lemmas conc_states = conc_idle_def conc_reserved_def conc_published_def conc_finished_def

abbreviation conc_steps :: "nat csys \<Rightarrow> nat csys \<Rightarrow> bool" where
  "conc_steps \<equiv> (log_step 2 (2 * GC_FROM_HEAD))\<^sup>*\<^sup>*"

lemma run_reserve: "conc_steps conc_idle conc_reserved"
proof -
  let ?f = "conc_idle\<lparr>cache := (\<lambda>_ _. None)(1 := [0 \<mapsto> ((None, 0), False)])\<rparr>"
  let ?step = "log_step 2 (2 * GC_FROM_HEAD)"
  have "?step conc_idle ?f" using fetch [of 1 2 conc_idle 0] by (simp add: conc_idle_def)
  moreover have "?step ?f (goto ?f 0 (Loaded [7] 0))" using load_tail [of 0 2 ?f "[7]"] by (simp add: conc_idle_def log_constants)
  moreover have "?step (goto ?f 0 (Loaded [7] 0)) (goto ?f 0 (Ready [7] 0))"
    using load_head [of 0 2 "goto ?f 0 (Loaded [7] 0)" "[7]" 0 "2 * GC_FROM_HEAD"] by (simp add: conc_idle_def)
  moreover have "?step (goto ?f 0 (Ready [7] 0)) conc_reserved"
    using cas_ok [of 0 2 "goto ?f 0 (Ready [7] 0)" "[7]" 0 "2 * GC_FROM_HEAD"] by (simp add: conc_idle_def conc_reserved_def next_write_def One_nat_def)
  ultimately show ?thesis by (meson converse_rtranclp_into_rtranclp rtranclp.rtrancl_refl)
qed

lemma run_publish: "conc_steps conc_reserved conc_published"
proof -
  let ?N = "2 * GC_FROM_HEAD"
  let ?step = "log_step 2 (2 * GC_FROM_HEAD) :: nat csys \<Rightarrow> nat csys \<Rightarrow> bool"
  let ?c = "\<lambda>v. (\<lambda>_ _. None)(0 := [0 \<mapsto> (v, True)], 1 := [0 \<mapsto> ((None, 0), False)])"
  let ?a = "conc_reserved\<lparr>cache := ?c (Some 7, 0), pcs := (\<lambda>_. Idle)(0 := WriteRep [7] 0 0)\<rparr>"
  let ?b = "conc_reserved\<lparr>cache := ?c (Some 7, 1), pcs := (\<lambda>_. Idle)(0 := Fence [7] 0)\<rparr>"
  let ?d = "conc_reserved\<lparr>cmem := (\<lambda>_. (None, 0))(0 := (Some 7, 1)), pcs := (\<lambda>_. Idle)(0 := Publish 0 1)\<rparr>"
  have 1: "?step conc_reserved ?a"
    using write_op [of 0 2 conc_reserved "[7]" 0 0 0 ?N] by (simp add: conc_states view_def fun_upd_twist One_nat_def)
  have 2: "?step ?a ?b"
    using write_rep [of 0 2 ?a "[7]" 0 0 0 ?N] by (simp add: conc_states view_def next_write_def fun_upd_twist One_nat_def)
  have slots: "slots ?N 0 1 = {0}" by (simp add: slots_def One_nat_def)
  have flushed: "flush_mem ?b 0 {0} = (\<lambda>_. (None, 0))(0 := (Some 7, 1))"
    "flush_cache ?b 0 {0} = (\<lambda>_ _. None)(1 := [0 \<mapsto> ((None, 0), False)])"
    by (auto simp: flush_mem_def flush_cache_def conc_states fun_eq_iff)
  have 3: "?step ?b ?d"
    using fence [of 0 2 ?b "[7]" 0 "{0}" ?N, unfolded flushed] slots by (simp add: conc_states One_nat_def)
  have "?step ?d conc_published" using publish_batch [of 0 2 ?d 0 1 ?N] by (simp add: conc_states One_nat_def fun_upd_idem)
  with 1 2 3 show ?thesis by (meson converse_rtranclp_into_rtranclp rtranclp.rtrancl_refl)
qed

lemma run_execute: "conc_steps conc_published conc_finished"
proof -
  let ?N = "2 * GC_FROM_HEAD"
  let ?step = "log_step 2 (2 * GC_FROM_HEAD) :: nat csys \<Rightarrow> nat csys \<Rightarrow> bool"
  let ?p = "conc_published\<lparr>cache := (\<lambda>_ _. None)\<rparr>"
  let ?a = "goto conc_published 1 (ExecH 1)" and ?b = "goto conc_published 1 (Inval 1)" and ?c = "goto ?p 1 (Replay 1 0)"
  let ?d = "?p\<lparr>applied := (\<lambda>_. [])(1 := [(7, False)]), pcs := (\<lambda>_. Idle)(1 := Replay 1 1)\<rparr>"
  let ?e = "?p\<lparr>applied := (\<lambda>_. [])(1 := [(7, False)]), cctail := 1, pcs := (\<lambda>_. Idle)(1 := Done 1)\<rparr>"
  have 1: "?step conc_published ?a" using exec_tail [of 1 2 conc_published ?N] by (simp add: conc_states)
  have 2: "?step ?a ?b" using exec_head [of 1 2 ?a 1 ?N] by (simp add: conc_states)
  have slots: "slots ?N 0 1 = {0}" by (simp add: slots_def One_nat_def)
  have flushed: "flush_mem ?b 1 {0} = (\<lambda>_. (None, 0))(0 := (Some 7, 1))" "flush_cache ?b 1 {0} = (\<lambda>_ _. None)"
    by (auto simp: flush_mem_def flush_cache_def conc_states fun_eq_iff)
  have 3: "?step ?b ?c"
    using inval [of 1 2 ?b 1 "{0}" ?N, unfolded flushed] slots by (simp add: conc_states One_nat_def)
  have 4: "?step ?c ?d" using replay_some [of 1 2 ?c 1 0 ?N 7 1] by (simp add: conc_states view_def)
  have 5: "?step ?d ?e" using replay_end [of 1 2 ?d 1 ?N] by (simp add: conc_states)
  have "?step ?e conc_finished" using store_ltail [of 1 2 ?e 1 ?N] by (simp add: conc_states fun_upd_idem)
  with 1 2 3 4 5 show ?thesis by (meson converse_rtranclp_into_rtranclp rtranclp.rtrancl_refl)
qed

lemma conc_reachable:
  "reachable (log_start 2 (2 * GC_FROM_HEAD)) (log_step 2 (2 * GC_FROM_HEAD)) conc_reserved"
  "reachable (log_start 2 (2 * GC_FROM_HEAD)) (log_step 2 (2 * GC_FROM_HEAD)) conc_published"
  "reachable (log_start 2 (2 * GC_FROM_HEAD)) (log_step 2 (2 * GC_FROM_HEAD)) conc_finished"
proof -
  have "log_start 2 (2 * GC_FROM_HEAD) conc_idle" by (simp add: log_start_def conc_idle_def)
  note start = reach_init [of "log_start 2 (2 * GC_FROM_HEAD)", OF this]
  show r: "reachable (log_start 2 (2 * GC_FROM_HEAD)) (log_step 2 (2 * GC_FROM_HEAD)) conc_reserved"
    by (rule reachable_steps [OF run_reserve start])
  show p: "reachable (log_start 2 (2 * GC_FROM_HEAD)) (log_step 2 (2 * GC_FROM_HEAD)) conc_published"
    by (rule reachable_steps [OF run_publish r])
  show "reachable (log_start 2 (2 * GC_FROM_HEAD)) (log_step 2 (2 * GC_FROM_HEAD)) conc_finished"
    by (rule reachable_steps [OF run_execute p])
qed

section \<open>Properties\<close>

text \<open>
  C4. Replicas agree under every interleaving, on memory that is not coherent. In every reachable
  state no combiner has panicked, and what each replica has executed is a prefix of the one history of
  reserved operations, in order and each once, made of published entries only and marked as its own
  exactly where it appended them.
\<close>

theorem log_replicas_agree:
  assumes "reachable (log_start k N) (log_step k N) s" "r < k"
  shows "pcs s r \<noteq> Crashed \<and> (\<exists>n. cltails s r \<le> n \<and> n \<le> ccommit s
    \<and> applied s r = map (\<lambda>(oper, q). (oper, q = r + 1)) (take n (hist s)))"
proof -
  have inv: "conc_inv k N s" using conc.reachable_inv [OF assms(1)] .
  have "cltails s r \<le> executed (pcs s r) (cltails s r)" using conc_invD(1) [OF inv assms(2)] by (cases "pcs s r") auto
  moreover have "pcs s r \<noteq> Crashed" using conc_invD(1) [OF inv assms(2)] by auto
  ultimately show ?thesis using conc_invD(3) [OF inv assms(2)] executed_le [OF inv assms(2)] unfolding applied_ok_def by blast
qed

theorem log_replicas_agree_witness:
  "applied conc_finished 1 = [(7, False)] \<and> pcs conc_finished 1 \<noteq> Crashed
     \<and> (\<exists>n. n \<le> 1 \<and> [(7, False)] = map (\<lambda>(oper, q). (oper, q = 2)) (take n [(7 :: nat, 1 :: nat)]))"
proof -
  have "applied conc_finished 1 = [(7, False)]" "hist conc_finished = [(7, 1)]" "ccommit conc_finished = 1" by (simp_all add: conc_states)
  then show ?thesis using log_replicas_agree [OF conc_reachable(3), of 1] by auto
qed

text \<open>
  C12. Entries are not overwritten too early: in every reachable state, memory holds each published
  entry that some replica has still to execute.
\<close>

theorem log_keeps_unread:
  assumes "reachable (log_start k N) (log_step k N) s" "r < k" "cltails s r \<le> q" "q < ccommit s"
  shows "cmem s (q mod N) = (Some (fst (hist s ! q)), snd (hist s ! q))"
proof -
  have inv: "conc_inv k N s" using conc.reachable_inv [OF assms(1)] .
  have "ctl s \<le> q + N" using conc_invD(6) [OF inv assms(2)] assms(3) by simp
  then show ?thesis using conc_invG(6) [OF inv] assms(4) by (simp add: content_ok_def line_of_def)
qed

theorem log_keeps_unread_witness: "cmem conc_published 0 = (Some 7, 1)"
  using log_keeps_unread [OF conc_reachable(2), of 0 0] by (simp add: conc_states)

text \<open>
  C13. Publishing cannot deadlock: whenever some reserved entry is unpublished, one appender owns the
  first of them, and its next step is enabled.
\<close>

theorem publish_progress:
  assumes "reachable (log_start k N) (log_step k N) s" "ccommit s < ctl s"
  shows "\<exists>r<k. ccommit s \<in> batch (pcs s r) \<and> (\<exists>s'. log_step k N s s' \<and> pcs s' r \<noteq> pcs s r)"
proof -
  have inv: "conc_inv k N s" using conc.reachable_inv [OF assms(1)] .
  have "ccommit s \<in> {ccommit s..<ctl s}" using assms(2) by simp
  then obtain r where r: "r < k" "ccommit s \<in> batch (pcs s r)" using conc_invG(7) [OF inv] unfolding batches_ok_def by blast
  have "\<exists>s'. log_step k N s s' \<and> pcs s' r \<noteq> pcs s r"
  proof (cases "pcs s r")
    case (WriteOp ops st i)
    then show ?thesis using log_step.write_op [OF r(1) WriteOp refl, of N] by fastforce
  next
    case (WriteRep ops st i)
    have "next_write ops st (i + 1) \<noteq> WriteRep ops st i" by (simp add: next_write_def)
    then show ?thesis using log_step.write_rep [OF r(1) WriteRep refl, of N] WriteRep by fastforce
  next
    case (Fence ops st)
    then show ?thesis using log_step.fence [OF r(1) Fence refl, of N] by fastforce
  next
    case (Publish st n)
    then have "n \<noteq> 0" "ccommit s = st" using r(2) conc_invD(1) [OF inv r(1)] by auto
    then show ?thesis using log_step.publish_batch [OF r(1) Publish, of N] Publish by fastforce
  qed (use r(2) in simp_all)
  with r show ?thesis by blast
qed

theorem publish_progress_witness:
  "\<exists>r<2. ccommit conc_reserved \<in> batch (pcs conc_reserved r)
     \<and> (\<exists>s'. log_step 2 (2 * GC_FROM_HEAD) conc_reserved s' \<and> pcs s' r \<noteq> pcs conc_reserved r)"
  using publish_progress [OF conc_reachable(1)] by (simp add: conc_states)

text \<open>
  C11. Reads see every completed write. Take the completed tail when a read starts, in state \<open>s\<close>. In
  any later state in which the local tail of the reader's replica has reached that value, the
  replica has executed everything that any replica had completed when the read started.
\<close>

theorem read_sees_completed:
  assumes "reachable (log_start k N) (log_step k N) s" "(log_step k N)\<^sup>*\<^sup>* s s'" "r < k" "r' < k" "cctail s \<le> cltails s' r'"
  shows "take (cltails s r) (map fst (applied s' r')) = map fst (take (cltails s r) (hist s))"
proof -
  have inv: "conc_inv k N s" using conc.reachable_inv [OF assms(1)] .
  then have inv': "conc_inv k N s'" using conc.steps_inv [OF assms(2)] by blast
  let ?n = "executed (pcs s' r') (cltails s' r')"
  have "cltails s' r' \<le> ?n" using conc_invD(1) [OF inv' assms(4)] by (cases "pcs s' r'") auto
  then have n: "cltails s r \<le> ?n" using conc_invD(5) [OF inv assms(3)] assms(5) by simp
  have l: "cltails s r \<le> length (hist s)" using conc_invD(5) [OF inv assms(3)] conc_invG(3-5) [OF inv] by simp
  have "map fst (applied s' r') = map fst (take ?n (hist s'))"
    using conc_invD(3) [OF inv' assms(4)] by (auto simp: applied_ok_def)
  then have "take (cltails s r) (map fst (applied s' r')) = map fst (take (cltails s r) (hist s'))"
    using n by (simp add: take_map min_absorb1)
  then show ?thesis using hist_grows [OF assms(2)] l by auto
qed

theorem read_sees_completed_witness:
  "take (cltails conc_finished 1) (map fst (applied conc_finished 1)) = [7]"
  using read_sees_completed [OF conc_reachable(3), of conc_finished 1 1] by (simp add: conc_states)

end
