(* ===== verification/Replica_Steps.thy ===== *)
theory Replica_Steps
  imports Nr_Replica Log_Steps
begin

text \<open>
  The replicated object under concurrency: the threads of all replicas run \<open>execute_mut\<close> and \<open>execute\<close>
  (\<open>nr/mod.rs\<close>, \<open>nr/replica.rs\<close>), and their steps interleave. A thread puts its operation into its context and
  polls for the response; a thread that finds the combiner lock free collects the contexts one by
  one, appends the batch to the log, executes the log and hands out the responses one context at
  a time. The log is the one of \<open>Log_Steps\<close>: every step of \<open>append\<close> and \<open>exec\<close> is a step of that system,
  on memory that is not coherent. Contexts, the closures of \<open>combine\<close> and \<open>exec\<close> and the reader-writer lock are
  those of the sequential model.

  Each access to a context is one step: the owner and the combiner meet only at the counters
  \<open>tail\<close> and \<open>comb\<close>, which are stored last. A read of the data under the read lock is one step, which the exclusion
  of \<open>Rw_Lock\<close> justifies for the threads a combiner has counted; the overlap with a thread that registers later is
  shown there. After a failed append a thread wakes up the replica that the log names; here any replica may be
  woken up at any time, and the assertion of \<open>nr/mod.rs\<close> that it is not the own one is left out. A panic of
  the data structure itself ends the run.
\<close>

section \<open>State\<close>

datatype ('op, 'ro) call = Write 'op | Read 'ro

text \<open>
  A returned call: the replica, the thread and the number of the call, the number of calls that had
  returned when it was issued, the call with its response, and the place in the history of the log
  that explains the response: the position of a write, the length of the prefix a read has seen.
\<close>

record ('op, 'ro, 'r) answered =
  an_id :: "nat \<times> nat \<times> nat"
  an_start :: nat
  an_call :: "('op, 'ro) call"
  an_resp :: 'r
  an_pos :: nat

text \<open>
  Where a thread is in a call. The number is the \<open>an_start\<close> of the call; \<open>Check\<close> and \<open>Locked\<close> hold the completed
  tail that a read waits for, \<open>Locked\<close> together with the combiner lock of an error \<open>NoLogSpace\<close>.
\<close>

datatype ('op, 'ro) tpc =
    Out
  | Put 'op nat
  | Try 'op nat
  | Poll 'op nat
  | Resync 'op nat
  | Begin 'ro nat
  | Check 'ro nat nat
  | Locked 'ro nat nat
  | Panicked

text \<open>
  Where the holder of the combiner lock of a replica is: in \<open>combine\<close>, with the number of threads it
  read first, in \<open>exec\<close> of \<open>try_sync\<close>, or between two attempts after \<open>NoLogSpace\<close>. From \<open>Appended\<close> on the second number is the
  position of the batch in the log; the flag is the outcome \<open>GcFailed\<close>.
\<close>

datatype phase =
    Unlocked
  | Acquired
  | Counted nat
  | Gather nat nat nat
  | Appending nat
  | Appended nat nat
  | Between nat nat bool
  | Executing nat nat bool
  | Unlocking nat nat bool
  | Answering nat nat bool nat nat
  | NoSpace
  | Syncing
  | Synced
  | Broken

record ('d, 'ro, 'op, 'r) nsys =
  sy_log :: "'op csys"
  sy_rep :: "nat \<Rightarrow> ('d, 'op, 'r) nr_replica"
  sy_phase :: "nat \<Rightarrow> phase"
  sy_holder :: "nat \<Rightarrow> nat"
  sy_pc :: "nat \<Rightarrow> nat \<Rightarrow> ('op, 'ro) tpc"
  sy_calls :: "('op, 'ro, 'r) answered list"
  sy_own :: "(nat \<times> nat \<times> nat) list"
  sy_cnt :: "nat \<Rightarrow> nat \<Rightarrow> nat"

text \<open>
  Ghost state: the returned calls, the call behind each entry of the history, and the number of
  calls each thread has made. \<open>sy_holder\<close> is the thread that holds the combiner lock, \<open>0\<close> when it is free or
  a thread of another replica holds it.
\<close>

abbreviation set_pc :: "('d, 'ro, 'op, 'r) nsys \<Rightarrow> nat \<Rightarrow> nat \<Rightarrow> ('op, 'ro) tpc \<Rightarrow> ('d, 'ro, 'op, 'r) nsys" where
  "set_pc s r t p \<equiv> s\<lparr>sy_pc := (sy_pc s)(r := (sy_pc s r)(t := p))\<rparr>"

abbreviation set_rep :: "('d, 'ro, 'op, 'r) nsys \<Rightarrow> nat \<Rightarrow> ('d, 'op, 'r) nr_replica \<Rightarrow> ('d, 'ro, 'op, 'r) nsys" where
  "set_rep s r rep \<equiv> s\<lparr>sy_rep := (sy_rep s)(r := rep)\<rparr>"

abbreviation set_phase :: "('d, 'ro, 'op, 'r) nsys \<Rightarrow> nat \<Rightarrow> phase \<Rightarrow> ('d, 'ro, 'op, 'r) nsys" where
  "set_phase s r ph \<equiv> s\<lparr>sy_phase := (sy_phase s)(r := ph)\<rparr>"

abbreviation set_holder :: "('d, 'ro, 'op, 'r) nsys \<Rightarrow> nat \<Rightarrow> nat \<Rightarrow> ('d, 'ro, 'op, 'r) nsys" where
  "set_holder s r t \<equiv> s\<lparr>sy_holder := (sy_holder s)(r := t)\<rparr>"

abbreviation call_id :: "('d, 'ro, 'op, 'r) nsys \<Rightarrow> nat \<Rightarrow> nat \<Rightarrow> nat \<times> nat \<times> nat" where
  "call_id s r t \<equiv> (r, t, sy_cnt s r t)"

definition return_call :: "('d, 'ro, 'op, 'r) nsys \<Rightarrow> nat \<Rightarrow> nat \<Rightarrow> nat \<Rightarrow> ('op, 'ro) call \<Rightarrow> 'r \<Rightarrow> nat
    \<Rightarrow> ('d, 'ro, 'op, 'r) nsys" where
  "return_call s r t n c resp p =
     (set_pc s r t Out)\<lparr>sy_cnt := (sy_cnt s)(r := (sy_cnt s r)(t := sy_cnt s r t + 1)),
       sy_calls := sy_calls s @ [\<lparr>an_id = call_id s r t, an_start = n, an_call = c, an_resp = resp, an_pos = p\<rparr>]\<rparr>"

text \<open>The position of an element of a list, and the threads of a collected batch.\<close>

definition position :: "'a \<Rightarrow> 'a list \<Rightarrow> nat" where
  "position x xs = length (takeWhile (\<lambda>y. y \<noteq> x) xs)"

definition batch_threads :: "nat list \<Rightarrow> nat list" where
  "batch_threads operations = concat (map (\<lambda>t. replicate (operations ! (t - 1)) t) [1..<length operations + 1])"

section \<open>Steps\<close>

text \<open>How a step of the log moves the combiner: \<open>c\<close> and \<open>c'\<close> are the program counters of the log.\<close>

definition comb_move :: "'op list \<Rightarrow> phase \<Rightarrow> 'op pc \<Rightarrow> 'op pc \<Rightarrow> phase option" where
  "comb_move buf ph c c' =
     (case ph of
        Appending n \<Rightarrow>
          (case c' of
             Loaded ops t \<Rightarrow> if ops = buf then Some ph else None
           | Idle \<Rightarrow> (case c of Publish st m \<Rightarrow> Some (Appended n st) | _ \<Rightarrow> Some ph)
           | _ \<Rightarrow> Some ph)
      | Appended n b \<Rightarrow> (case c' of Loaded ops t \<Rightarrow> None | _ \<Rightarrow> Some ph)
      | Executing n b gc \<Rightarrow>
          (case c' of
             Loaded ops t \<Rightarrow> None
           | Scan h j m \<Rightarrow> None
           | Idle \<Rightarrow> Some (Unlocking n b gc)
           | _ \<Rightarrow> Some ph)
      | _ \<Rightarrow> None)"

definition sync_move :: "'op pc \<Rightarrow> phase option" where
  "sync_move c' =
     (case c' of
        Loaded ops t \<Rightarrow> None
      | Scan h j m \<Rightarrow> None
      | Idle \<Rightarrow> Some Synced
      | _ \<Rightarrow> Some Syncing)"

fun threads_of :: "phase \<Rightarrow> nat" where
  "threads_of (Appending n) = n"
| "threads_of (Appended n b) = n"
| "threads_of (Executing n b gc) = n"
| "threads_of _ = 0"

text \<open>The calls of the closure that a step of the log makes.\<close>

fun feed :: "('op \<Rightarrow> bool \<Rightarrow> 's \<Rightarrow> 's run) \<Rightarrow> ('op \<times> bool) list \<Rightarrow> 's \<Rightarrow> 's run" where
  "feed f [] st = Inr st"
| "feed f ((oper, mine) # xs) st = bind_run (f oper mine st) (feed f xs)"

definition news :: "'op csys \<Rightarrow> 'op csys \<Rightarrow> nat \<Rightarrow> ('op \<times> bool) list" where
  "news l l' r = drop (length (applied l r)) (applied l' r)"

definition poll_context :: "nat \<Rightarrow> ('d, 'op, 'r) nr_replica \<Rightarrow> ('r option \<times> ('d, 'op, 'r) nr_replica) run" where
  "poll_context tid r =
     (if tid = 0 then Inl index_panic
      else bind_run (array_get (contexts r) (tid - 1)) (\<lambda>c.
           bind_run (context_res c) (\<lambda>(resp, c'). Inr (resp, r\<lparr>contexts := (contexts r)[tid - 1 := c']\<rparr>))))"

text \<open>The threads that may take the combiner lock, and where a combiner is after its round.\<close>

fun wants_lock :: "nat \<Rightarrow> ('op, 'ro) tpc \<Rightarrow> bool" where
  "wants_lock lt (Try oper n) = True"
| "wants_lock lt (Poll oper n) = True"
| "wants_lock lt (Check ro n ct) = (lt < ct)"
| "wants_lock lt _ = False"

fun after_round :: "bool \<Rightarrow> nat \<Rightarrow> ('op, 'ro) tpc \<Rightarrow> ('op, 'ro) tpc" where
  "after_round gc lt (Try oper n) = (if gc then Resync oper n else Poll oper n)"
| "after_round gc lt (Poll oper n) = (if gc then Resync oper n else Poll oper n)"
| "after_round gc lt (Check ro n ct) = (if gc then Begin ro n else Check ro n ct)"
| "after_round gc lt (Locked ro n ct) = (if gc then Begin ro n else if ct \<le> lt then Check ro n ct else Panicked)"
| "after_round gc lt p = p"

fun polling :: "('op, 'ro) tpc \<Rightarrow> ('op \<times> nat) option" where
  "polling (Poll oper n) = Some (oper, n)"
| "polling (Resync oper n) = Some (oper, n)"
| "polling _ = None"

definition with_data :: "('d, 'op, 'r) nr_replica \<Rightarrow> ('d, 'r) combine_state \<Rightarrow> ('d, 'op, 'r) nr_replica" where
  "with_data rep st =
     (case st of (d, rs, cn, fl) \<Rightarrow>
        rep\<lparr>rep_data := (rep_data rep)\<lparr>rw_data := d\<rparr>, results := rs, change_notif := cn, flushed := fl\<rparr>)"

definition combine_view :: "('d, 'op, 'r) nr_replica \<Rightarrow> ('d, 'r) combine_state" where
  "combine_view rep = (rw_data (rep_data rep), results rep, change_notif rep, flushed rep)"

text \<open>
  The parameter \<open>race\<close> allows a thread to register between the two loads of the number of threads,
  the one of \<open>combine\<close> and the one of \<open>collect_thread_ops\<close>.
\<close>

inductive nr_step :: "bool \<Rightarrow> nat \<Rightarrow> nat \<Rightarrow> ('d, 'ro, 'op, 'r) dispatcher \<Rightarrow> ('d, 'ro, 'op, 'r) nsys
    \<Rightarrow> ('d, 'ro, 'op, 'r) nsys \<Rightarrow> bool" for race k N D where
  register_step: "r < k \<Longrightarrow> race \<or> (\<forall>n. sy_phase s r \<noteq> Counted n) \<Longrightarrow> replica_register 0 (sy_rep s r) = (Some t, rep) \<Longrightarrow>
    nr_step race k N D s (set_rep s r rep)"
| invoke_mut: "r < k \<Longrightarrow> 0 < t \<Longrightarrow> t < rep_next (sy_rep s r) \<Longrightarrow> sy_pc s r t = Out \<Longrightarrow>
    nr_step race k N D s (set_pc s r t (Put oper (length (sy_calls s))))"
| pend: "r < k \<Longrightarrow> sy_pc s r t = Put oper n \<Longrightarrow> make_pending oper t (sy_rep s r) = Inr (True, rep) \<Longrightarrow>
    nr_step race k N D s (set_pc (set_rep s r rep) r t (Try oper n))"
| pend_panic: "r < k \<Longrightarrow> sy_pc s r t = Put oper n \<Longrightarrow> make_pending oper t (sy_rep s r) = Inl f \<Longrightarrow>
    nr_step race k N D s (set_pc s r t Panicked)"
| no_lock: "r < k \<Longrightarrow> sy_pc s r t = Try oper n \<Longrightarrow> sy_holder s r \<noteq> t \<Longrightarrow> nr_step race k N D s (set_pc s r t (Poll oper n))"
| take_lock: "r < k \<Longrightarrow> wants_lock (cltails (sy_log s) r) (sy_pc s r t) \<Longrightarrow> sy_holder s r \<noteq> t \<Longrightarrow>
    acquire_combiner_lock True (sy_rep s r) = (True, rep) \<Longrightarrow>
    nr_step race k N D s (set_holder (set_phase (set_rep s r rep) r Acquired) r t)"
| count_threads: "r < k \<Longrightarrow> sy_phase s r = Acquired \<Longrightarrow>
    nr_step race k N D s (set_phase (set_rep s r ((sy_rep s r)\<lparr>results := [], buffer := []\<rparr>)) r (Counted (rep_next (sy_rep s r))))"
| collect_start: "r < k \<Longrightarrow> sy_phase s r = Counted n \<Longrightarrow>
    nr_step race k N D s (set_phase s r (Gather n (rep_next (sy_rep s r)) 1))"
| collect_one: "r < k \<Longrightarrow> sy_phase s r = Gather n m i \<Longrightarrow> i < m \<Longrightarrow>
    collect_thread_ops [i] (contexts (sy_rep s r)) (buffer (sy_rep s r)) (inflight (sy_rep s r)) = Inr (buf, operations) \<Longrightarrow>
    nr_step race k N D s (set_phase (set_rep s r ((sy_rep s r)\<lparr>buffer := buf, inflight := operations\<rparr>)) r (Gather n m (i + 1)))"
| collect_panic: "r < k \<Longrightarrow> sy_phase s r = Gather n m i \<Longrightarrow> i < m \<Longrightarrow>
    collect_thread_ops [i] (contexts (sy_rep s r)) (buffer (sy_rep s r)) (inflight (sy_rep s r)) = Inl f \<Longrightarrow>
    nr_step race k N D s (set_phase s r Broken)"
| append_start: "r < k \<Longrightarrow> sy_phase s r = Gather n m i \<Longrightarrow> m \<le> i \<Longrightarrow> rw_write n (rep_data (sy_rep s r)) = Inr lk \<Longrightarrow>
    nr_step race k N D s (set_phase (set_rep s r ((sy_rep s r)\<lparr>rep_data := lk\<rparr>)) r (Appending n))"
| combine_log: "r < k \<Longrightarrow> log_step k N (sy_log s) l \<Longrightarrow> pcs l r \<noteq> pcs (sy_log s) r \<Longrightarrow>
    comb_move (buffer (sy_rep s r)) (sy_phase s r) (pcs (sy_log s) r) (pcs l r) = Some ph \<Longrightarrow>
    feed (combine_op True D (threads_of (sy_phase s r)) (base_addr (sy_rep s r)) (slot_size (sy_rep s r)))
      (news (sy_log s) l r) (combine_view (sy_rep s r)) = Inr st \<Longrightarrow>
    nr_step race k N D s ((set_phase (set_rep s r (with_data (sy_rep s r) st)) r ph)\<lparr>sy_log := l,
      sy_own := sy_own s @ (if hist l = hist (sy_log s) then []
                            else map (call_id s r) (batch_threads (inflight (sy_rep s r))))\<rparr>)"
| append_fails: "r < k \<Longrightarrow> sy_phase s r = Appending n \<Longrightarrow> pcs (sy_log s) r = Idle \<Longrightarrow>
    rw_write_unlock False (rep_data (sy_rep s r)) = Inr lk \<Longrightarrow>
    nr_step race k N D s (set_phase (set_rep s r ((sy_rep s r)\<lparr>rep_data := lk\<rparr>)) r NoSpace)"
| append_done: "r < k \<Longrightarrow> sy_phase s r = Appended n b \<Longrightarrow> pcs (sy_log s) r = Idle \<Longrightarrow>
    rw_write_unlock False (rep_data (sy_rep s r)) = Inr lk \<Longrightarrow>
    nr_step race k N D s (set_phase (set_rep s r ((sy_rep s r)\<lparr>rep_data := lk\<rparr>)) r (Between n b gc))"
| exec_start: "r < k \<Longrightarrow> sy_phase s r = Between n b gc \<Longrightarrow> rw_write n (rep_data (sy_rep s r)) = Inr lk \<Longrightarrow>
    nr_step race k N D s (set_phase (set_rep s r ((sy_rep s r)\<lparr>rep_data := lk\<rparr>)) r (Executing n b gc))"
| exec_nothing: "r < k \<Longrightarrow> sy_phase s r = Executing n b gc \<Longrightarrow> pcs (sy_log s) r = Idle \<Longrightarrow>
    cltails (sy_log s) r = ccommit (sy_log s) \<Longrightarrow> nr_step race k N D s (set_phase s r (Unlocking n b gc))"
| exec_done: "r < k \<Longrightarrow> sy_phase s r = Unlocking n b gc \<Longrightarrow> rw_write_unlock False (rep_data (sy_rep s r)) = Inr lk \<Longrightarrow>
    nr_step race k N D s (set_phase (set_rep s r ((sy_rep s r)\<lparr>rep_data := lk\<rparr>)) r (Answering n b gc 1 0))"
| answer_one: "r < k \<Longrightarrow> sy_phase s r = Answering n b gc i j \<Longrightarrow> i < n \<Longrightarrow>
    distribute [i] (results (sy_rep s r)) j j (inflight (sy_rep s r)) (contexts (sy_rep s r)) = Inr (operations, cs) \<Longrightarrow>
    nr_step race k N D s (set_phase (set_rep s r ((sy_rep s r)\<lparr>inflight := operations, contexts := cs\<rparr>)) r
      (Answering n b gc (i + 1) (j + inflight (sy_rep s r) ! (i - 1))))"
| answer_panic: "r < k \<Longrightarrow> sy_phase s r = Answering n b gc i j \<Longrightarrow> i < n \<Longrightarrow>
    distribute [i] (results (sy_rep s r)) j j (inflight (sy_rep s r)) (contexts (sy_rep s r)) = Inl f \<Longrightarrow>
    nr_step race k N D s (set_phase s r Broken)"
| combine_done: "r < k \<Longrightarrow> sy_phase s r = Answering n b gc i j \<Longrightarrow> n \<le> i \<Longrightarrow> t = sy_holder s r \<Longrightarrow>
    nr_step race k N D s (set_pc (set_holder (set_phase (set_rep s r (combiner_drop (sy_rep s r))) r Unlocked) r 0) r t
      (after_round gc (cltails (sy_log s) r) (sy_pc s r t)))"
| retry_mut: "r < k \<Longrightarrow> sy_phase s r = NoSpace \<Longrightarrow> sy_pc s r (sy_holder s r) \<in> {Try oper n, Poll oper n} \<Longrightarrow>
    nr_step race k N D s (set_phase s r Acquired)"
| retry_load: "r < k \<Longrightarrow> sy_phase s r = NoSpace \<Longrightarrow> t = sy_holder s r \<Longrightarrow> sy_pc s r t \<in> {Check ro n ct, Locked ro n ct} \<Longrightarrow>
    nr_step race k N D s (set_pc s r t (Locked ro n (cctail (sy_log s))))"
| retry_combine: "r < k \<Longrightarrow> sy_phase s r = NoSpace \<Longrightarrow> sy_pc s r (sy_holder s r) = Locked ro n ct \<Longrightarrow>
    cltails (sy_log s) r < ct \<Longrightarrow> nr_step race k N D s (set_phase s r Acquired)"
| retry_read: "r < k \<Longrightarrow> sy_phase s r = NoSpace \<Longrightarrow> t = sy_holder s r \<Longrightarrow> sy_pc s r t = Locked ro n ct \<Longrightarrow>
    ct \<le> cltails (sy_log s) r \<Longrightarrow> read_data D ro t (sy_rep s r) = Inr (resp, rep) \<Longrightarrow>
    nr_step race k N D s (return_call (set_holder (set_phase (set_rep s r (combiner_drop rep)) r Unlocked) r 0) r t n (Read ro) resp
      (length (applied (sy_log s) r)))"
| respond: "r < k \<Longrightarrow> polling (sy_pc s r t) = Some (oper, n) \<Longrightarrow> sy_holder s r \<noteq> t \<Longrightarrow>
    poll_context t (sy_rep s r) = Inr (Some resp, rep) \<Longrightarrow>
    nr_step race k N D s (return_call (set_rep s r rep) r t n (Write oper) resp (position (call_id s r t) (sy_own s)))"
| respond_panic: "r < k \<Longrightarrow> polling (sy_pc s r t) = Some (oper, n) \<Longrightarrow> sy_holder s r \<noteq> t \<Longrightarrow> poll_context t (sy_rep s r) = Inl f \<Longrightarrow>
    nr_step race k N D s (set_pc s r t Panicked)"
| resync_panic: "r < k \<Longrightarrow> sy_pc s r t = Resync oper n \<Longrightarrow> poll_context t (sy_rep s r) = Inr (None, rep) \<Longrightarrow>
    nr_step race k N D s (set_pc s r t Panicked)"
| invoke_read: "r < k \<Longrightarrow> 0 < t \<Longrightarrow> t < rep_next (sy_rep s r) \<Longrightarrow> sy_pc s r t = Out \<Longrightarrow>
    nr_step race k N D s (set_pc s r t (Begin ro (length (sy_calls s))))"
| load_ctail: "r < k \<Longrightarrow> sy_pc s r t = Begin ro n \<Longrightarrow> nr_step race k N D s (set_pc s r t (Check ro n (cctail (sy_log s))))"
| read_step: "r < k \<Longrightarrow> sy_pc s r t = Check ro n ct \<Longrightarrow> sy_holder s r \<noteq> t \<Longrightarrow> ct \<le> cltails (sy_log s) r \<Longrightarrow>
    read_data D ro t (sy_rep s r) = Inr (resp, rep) \<Longrightarrow>
    nr_step race k N D s (return_call (set_rep s r rep) r t n (Read ro) resp (length (applied (sy_log s) r)))"
| sync_start: "r < k \<Longrightarrow> acquire_combiner_lock True (sy_rep s r) = (True, rep) \<Longrightarrow>
    rw_write (rep_next (sy_rep s r)) (rep_data rep) = Inr lk \<Longrightarrow>
    nr_step race k N D s (set_phase (set_rep s r (rep\<lparr>rep_data := lk\<rparr>)) r Syncing)"
| sync_log: "r < k \<Longrightarrow> log_step k N (sy_log s) l \<Longrightarrow> pcs l r \<noteq> pcs (sy_log s) r \<Longrightarrow> sy_phase s r = Syncing \<Longrightarrow>
    sync_move (pcs l r) = Some ph \<Longrightarrow> feed (sync_op D) (news (sy_log s) l r) (rw_data (rep_data (sy_rep s r))) = Inr d \<Longrightarrow>
    nr_step race k N D s ((set_phase (set_rep s r ((sy_rep s r)\<lparr>rep_data := (rep_data (sy_rep s r))\<lparr>rw_data := d\<rparr>\<rparr>)) r ph)\<lparr>sy_log := l\<rparr>)"
| sync_panic: "r < k \<Longrightarrow> log_step k N (sy_log s) l \<Longrightarrow> sy_phase s r = Syncing \<Longrightarrow> (oper, True) \<in> set (news (sy_log s) l r) \<Longrightarrow>
    nr_step race k N D s ((set_phase s r Broken)\<lparr>sy_log := l\<rparr>)"
| sync_nothing: "r < k \<Longrightarrow> sy_phase s r = Syncing \<Longrightarrow> pcs (sy_log s) r = Idle \<Longrightarrow> cltails (sy_log s) r = ccommit (sy_log s) \<Longrightarrow>
    nr_step race k N D s (set_phase s r Synced)"
| sync_done: "r < k \<Longrightarrow> sy_phase s r = Synced \<Longrightarrow> rw_write_unlock False (rep_data (sy_rep s r)) = Inr lk \<Longrightarrow>
    nr_step race k N D s (set_phase (set_rep s r (combiner_drop ((sy_rep s r)\<lparr>rep_data := lk\<rparr>))) r Unlocked)"
| cache_traffic: "log_step k N (sy_log s) l \<Longrightarrow> pcs l = pcs (sy_log s) \<Longrightarrow> nr_step race k N D s (s\<lparr>sy_log := l\<rparr>)"

definition sys_start :: "nat \<Rightarrow> nat \<Rightarrow> 'd \<Rightarrow> ('d, 'ro, 'op, 'r) nsys \<Rightarrow> bool" where
  "sys_start k N d0 s \<longleftrightarrow> log_start k N (sy_log s) \<and> (\<forall>r<k. \<exists>a z. sy_rep s r = replica_with_data_base_addr (r + 1) d0 a z)
     \<and> sy_phase s = (\<lambda>_. Unlocked) \<and> sy_holder s = (\<lambda>_. 0) \<and> sy_pc s = (\<lambda>_ _. Out) \<and> sy_calls s = [] \<and> sy_own s = []
     \<and> sy_cnt s = (\<lambda>_ _. 0)"

end
