(* ===== verification/Replica_Steps_Inv.thy ===== *)
theory Replica_Steps_Inv
  imports Replica_Steps
begin

text \<open>
  The invariant of the concurrent object. It relates each thread to its context, each combiner to
  the batch it has collected and to the position of the batch in the history of the log, the data of
  each replica to the prefix of the history it has executed, and every returned call to the place in
  the history that explains its response.
\<close>

section \<open>The sequential reference\<close>

definition state_after :: "('d, 'ro, 'op, 'r) dispatcher \<Rightarrow> 'd \<Rightarrow> 'op list \<Rightarrow> 'd run" where
  "state_after D d0 ops = bind_run (run_ops D ops d0) (\<lambda>(_, d). Inr d)"

text \<open>The response of the operation at position \<open>p\<close>.\<close>

definition seq_resp :: "('d, 'ro, 'op, 'r) dispatcher \<Rightarrow> 'd \<Rightarrow> ('op \<times> nat) list \<Rightarrow> nat \<Rightarrow> 'r run" where
  "seq_resp D d0 h p =
     bind_run (state_after D d0 (map fst (take p h))) (\<lambda>d. bind_run (dispatch_mut D (fst (h ! p)) d) (\<lambda>(resp, _). Inr resp))"

lemma state_after_Nil [simp]: "state_after D d0 [] = Inr d0"
  by (simp add: state_after_def)

lemma state_after_step:
  assumes "state_after D d0 (map fst (take p h)) = Inr d" "p < length h" "dispatch_mut D (fst (h ! p)) d = Inr (resp, d')"
  shows "state_after D d0 (map fst (take (Suc p) h)) = Inr d'" "seq_resp D d0 h p = Inr resp"
  using assms
  by (auto simp: state_after_def seq_resp_def take_Suc_conv_app_nth run_ops_append bind_run_Inr split: prod.splits)

lemma seq_resp_append: "p < length h \<Longrightarrow> seq_resp D d0 (h @ xs) p = seq_resp D d0 h p"
  by (simp add: seq_resp_def nth_append)

section \<open>Linearizability\<close>

text \<open>
  A returned call is explained by the history: a write is the entry at its position, made for this
  call, and its response is the response of the sequential data structure to that entry; a read has
  seen the sequential state after the first \<open>an_pos\<close> entries. \<open>an_bound\<close> is the length of the history that a
  call needs.
\<close>

definition explained :: "('d, 'ro, 'op, 'r) dispatcher \<Rightarrow> 'd \<Rightarrow> ('op \<times> nat) list \<Rightarrow> (nat \<times> nat \<times> nat) list
    \<Rightarrow> ('op, 'ro, 'r) answered \<Rightarrow> bool" where
  "explained D d0 h own a \<longleftrightarrow>
     (case an_call a of
        Write oper \<Rightarrow> an_pos a < length h \<and> h ! an_pos a = (oper, fst (an_id a) + 1) \<and> own ! an_pos a = an_id a
          \<and> seq_resp D d0 h (an_pos a) = Inr (an_resp a)
      | Read ro \<Rightarrow> an_pos a \<le> length h
          \<and> bind_run (state_after D d0 (map fst (take (an_pos a) h))) (\<lambda>d. dispatch D d ro) = Inr (an_resp a))"

definition an_bound :: "('op, 'ro, 'r) answered \<Rightarrow> nat" where
  "an_bound a = (case an_call a of Write oper \<Rightarrow> an_pos a + 1 | Read ro \<Rightarrow> an_pos a)"

text \<open>A call that starts after \<open>n\<close> calls have returned comes after each of them in the history.\<close>

definition follows :: "('op, 'ro, 'r) answered list \<Rightarrow> nat \<Rightarrow> nat \<Rightarrow> bool" where
  "follows calls n p \<longleftrightarrow> (\<forall>i<n. an_bound (calls ! i) \<le> p)"

fun pending_write :: "('op, 'ro) tpc \<Rightarrow> 'op option" where
  "pending_write (Try oper n) = Some oper"
| "pending_write (Poll oper n) = Some oper"
| "pending_write (Resync oper n) = Some oper"
| "pending_write _ = None"

fun start_of :: "('op, 'ro) tpc \<Rightarrow> nat" where
  "start_of (Put oper n) = n"
| "start_of (Try oper n) = n"
| "start_of (Poll oper n) = n"
| "start_of (Resync oper n) = n"
| "start_of (Begin ro n) = n"
| "start_of (Check ro n ct) = n"
| "start_of (Locked ro n ct) = n"
| "start_of _ = 0"

text \<open>
  The returned calls are linearizable: the history is one order of all writes, each made for one call,
  that explains every returned call and keeps the order of calls that did not overlap.
\<close>

definition linearizable :: "('d, 'ro, 'op, 'r) dispatcher \<Rightarrow> 'd \<Rightarrow> ('op \<times> nat) list \<Rightarrow> (nat \<times> nat \<times> nat) list
    \<Rightarrow> ('op, 'ro, 'r) answered list \<Rightarrow> bool" where
  "linearizable D d0 h own calls \<longleftrightarrow>
     length own = length h \<and> distinct own \<and> distinct (map an_id calls)
     \<and> (\<forall>a\<in>set calls. explained D d0 h own a)
     \<and> (\<forall>j<length calls. an_start (calls ! j) \<le> j \<and> follows calls (an_start (calls ! j)) (an_pos (calls ! j)))"

section \<open>Invariant\<close>

abbreviation ran_to :: "('d, 'ro, 'op, 'r) nsys \<Rightarrow> nat \<Rightarrow> nat" where
  "ran_to s r \<equiv> executed (pcs (sy_log s) r) (cltails (sy_log s) r)"

abbreviation ctx :: "('d, 'ro, 'op, 'r) nsys \<Rightarrow> nat \<Rightarrow> nat \<Rightarrow> ('op, 'r, unit) op_context" where
  "ctx s r t \<equiv> contexts (sy_rep s r) ! (t - 1)"

text \<open>The threads whose operation is in the batch that the combiner has collected and not answered.\<close>

definition live :: "nat list \<Rightarrow> nat \<Rightarrow> nat list" where
  "live operations b = filter (\<lambda>t. operations ! (t - 1) \<noteq> 0) [1..<b]"

abbreviation live_all :: "('d, 'ro, 'op, 'r) nsys \<Rightarrow> nat \<Rightarrow> nat list" where
  "live_all s r \<equiv> live (inflight (sy_rep s r)) (MAX_THREADS_PER_REPLICA + 1)"

definition op_of :: "('d, 'op, 'r) nr_replica \<Rightarrow> nat \<Rightarrow> 'op" where
  "op_of rep t = fst (hd (pending_ops (contexts rep ! (t - 1))))"

text \<open>The position of the batch in the history, once it is reserved, and how much of it is answered.\<close>

definition base_of :: "phase \<Rightarrow> 'op pc \<Rightarrow> nat option" where
  "base_of ph c =
     (case ph of
        Appending n \<Rightarrow>
          (case c of
             WriteOp ops st i \<Rightarrow> Some st
           | WriteRep ops st i \<Rightarrow> Some st
           | Fence ops st \<Rightarrow> Some st
           | Publish st m \<Rightarrow> Some st
           | _ \<Rightarrow> None)
      | Appended n b \<Rightarrow> Some b
      | Between n b gc \<Rightarrow> Some b
      | Executing n b gc \<Rightarrow> Some b
      | Unlocking n b gc \<Rightarrow> Some b
      | Answering n b gc i j \<Rightarrow> Some b
      | _ \<Rightarrow> None)"

fun answered_of :: "phase \<Rightarrow> nat" where
  "answered_of (Answering n b gc i j) = j"
| "answered_of _ = 0"

abbreviation base :: "('d, 'ro, 'op, 'r) nsys \<Rightarrow> nat \<Rightarrow> nat option" where
  "base s r \<equiv> base_of (sy_phase s r) (pcs (sy_log s) r)"

fun writing :: "phase \<Rightarrow> bool" where
  "writing (Appending n) = True"
| "writing (Appended n b) = True"
| "writing (Executing n b gc) = True"
| "writing (Unlocking n b gc) = True"
| "writing Syncing = True"
| "writing Synced = True"
| "writing _ = False"

fun waiting :: "('op, 'ro) tpc \<Rightarrow> bool" where
  "waiting (Try oper n) = True"
| "waiting (Poll oper n) = True"
| "waiting (Check ro n ct) = True"
| "waiting (Locked ro n ct) = True"
| "waiting _ = False"

definition lock_ok :: "('d, 'ro, 'op, 'r) nsys \<Rightarrow> nat \<Rightarrow> bool" where
  "lock_ok s r \<longleftrightarrow>
     length (contexts (sy_rep s r)) = MAX_THREADS_PER_REPLICA \<and> length (inflight (sy_rep s r)) = MAX_THREADS_PER_REPLICA
     \<and> 1 \<le> rep_next (sy_rep s r) \<and> rep_next (sy_rep s r) \<le> MAX_THREADS_PER_REPLICA + 1
     \<and> sy_phase s r \<noteq> Broken \<and> (combiner (sy_rep s r) = 0 \<longleftrightarrow> sy_phase s r = Unlocked)
     \<and> (wlock (rep_data (sy_rep s r)) \<longleftrightarrow> writing (sy_phase s r))
     \<and> (if sy_phase s r \<in> {Unlocked, Syncing, Synced} then sy_holder s r = 0
        else 0 < sy_holder s r \<and> waiting (sy_pc s r (sy_holder s r)))"

definition flag_ok :: "('d, 'op, 'r) nr_replica \<Rightarrow> nat \<Rightarrow> bool" where
  "flag_ok rep t \<longleftrightarrow> inflight rep ! (t - 1) = 1 \<and> (\<exists>oper. pending_ops (contexts rep ! (t - 1)) = [(oper, ())])"

definition collected :: "('d, 'op, 'r) nr_replica \<Rightarrow> nat \<Rightarrow> nat \<Rightarrow> nat \<Rightarrow> bool" where
  "collected rep n a j \<longleftrightarrow> 1 \<le> n \<and> n \<le> rep_next rep
     \<and> drop j (buffer rep) = map (op_of rep) (live (inflight rep) (MAX_THREADS_PER_REPLICA + 1)) \<and> j \<le> length (buffer rep)
     \<and> (\<forall>t\<in>set (live (inflight rep) (MAX_THREADS_PER_REPLICA + 1)). a \<le> t \<and> t < n \<and> flag_ok rep t)"

definition batch_ok :: "phase \<Rightarrow> ('d, 'op, 'r) nr_replica \<Rightarrow> bool" where
  "batch_ok ph rep \<longleftrightarrow>
     (case ph of
        Counted n \<Rightarrow> n = rep_next rep \<and> buffer rep = [] \<and> results rep = []
      | Gather n m i \<Rightarrow> n = m \<and> m \<le> rep_next rep \<and> 1 \<le> i \<and> i \<le> m \<and> results rep = []
          \<and> buffer rep = map (op_of rep) (live (inflight rep) i) \<and> (\<forall>t\<in>set (live (inflight rep) i). flag_ok rep t)
      | Appending n \<Rightarrow> collected rep n 1 0
      | Appended n b \<Rightarrow> collected rep n 1 0
      | Between n b gc \<Rightarrow> collected rep n 1 0
      | Executing n b gc \<Rightarrow> collected rep n 1 0
      | Unlocking n b gc \<Rightarrow> collected rep n 1 0
      | Answering n b gc i j \<Rightarrow> 1 \<le> i \<and> i \<le> n \<and> collected rep n i j
      | _ \<Rightarrow> True)
     \<and> (\<forall>t. rep_next rep \<le> t \<longrightarrow> t \<le> MAX_THREADS_PER_REPLICA \<longrightarrow> inflight rep ! (t - 1) = 0)
     \<and> (case ph of Gather n m i \<Rightarrow> (\<forall>t. m \<le> t \<longrightarrow> t \<le> MAX_THREADS_PER_REPLICA \<longrightarrow> inflight rep ! (t - 1) = 0) | _ \<Rightarrow> True)"

text \<open>The end of a batch of \<open>m\<close> operations at \<open>b\<close>; an empty batch asks for nothing.\<close>

definition batch_end :: "nat \<Rightarrow> nat \<Rightarrow> nat" where
  "batch_end b m = (if m = 0 then 0 else b + m)"

text \<open>The program counter of the log fits the phase of the combiner.\<close>

fun exec_pc :: "nat \<Rightarrow> 'op pc \<Rightarrow> bool" where
  "exec_pc n Idle = True"
| "exec_pc n (ExecH gt) = (n \<le> gt)"
| "exec_pc n (Inval gt) = (n \<le> gt)"
| "exec_pc n (Replay gt i) = (n \<le> gt)"
| "exec_pc n (Done gt) = (n \<le> gt)"
| "exec_pc n _ = False"

fun append_pc :: "'op list \<Rightarrow> 'op pc \<Rightarrow> bool" where
  "append_pc buf (Loaded ops t) = (ops = buf)"
| "append_pc buf (Ready ops t) = (ops = buf)"
| "append_pc buf (WriteOp ops st i) = (ops = buf)"
| "append_pc buf (WriteRep ops st i) = (ops = buf)"
| "append_pc buf (Fence ops st) = (ops = buf)"
| "append_pc buf (Publish st n) = (n = length buf)"
| "append_pc buf c = True"

fun gc_pc :: "'op pc \<Rightarrow> bool" where
  "gc_pc (Scan h j m) = True"
| "gc_pc (StoreHead m) = True"
| "gc_pc c = exec_pc 0 c"

definition pc_fits :: "'op list \<Rightarrow> phase \<Rightarrow> 'op pc \<Rightarrow> bool" where
  "pc_fits buf ph c \<longleftrightarrow>
     (case ph of
        Appending n \<Rightarrow> append_pc buf c
      | Appended n b \<Rightarrow> gc_pc c
      | Executing n b gc \<Rightarrow> exec_pc (batch_end b (length buf)) c
      | Syncing \<Rightarrow> exec_pc 0 c
      | _ \<Rightarrow> c = Idle)"

text \<open>
  \<open>published_to\<close>: how far the log must be committed and executed. \<open>placed\<close>: the own entries the replica has not
  executed are those of its batch, and the results are the responses to the executed ones.
\<close>

definition published_to :: "nat \<Rightarrow> phase \<Rightarrow> nat \<Rightarrow> nat \<Rightarrow> bool" where
  "published_to m ph cm e \<longleftrightarrow>
     (case ph of
        Appended n b \<Rightarrow> batch_end b m \<le> cm
      | Between n b gc \<Rightarrow> batch_end b m \<le> cm
      | Executing n b gc \<Rightarrow> batch_end b m \<le> cm
      | Unlocking n b gc \<Rightarrow> batch_end b m \<le> e
      | Answering n b gc i j \<Rightarrow> batch_end b m \<le> e
      | _ \<Rightarrow> True)"

definition placed :: "('d, 'ro, 'op, 'r) dispatcher \<Rightarrow> 'd \<Rightarrow> ('op \<times> nat) list \<Rightarrow> nat \<Rightarrow> nat \<Rightarrow> nat option \<Rightarrow> 'op list \<Rightarrow> 'r list \<Rightarrow> bool" where
  "placed D d0 h r e b buf res \<longleftrightarrow>
     (case b of
        None \<Rightarrow> \<forall>p. e \<le> p \<longrightarrow> p < length h \<longrightarrow> snd (h ! p) \<noteq> r + 1
      | Some st \<Rightarrow> st + length buf \<le> length h \<and> (\<forall>j<length buf. h ! (st + j) = (buf ! j, r + 1))
          \<and> (\<forall>p. e \<le> p \<longrightarrow> p < length h \<longrightarrow> snd (h ! p) = r + 1 \<longrightarrow> st \<le> p \<and> p < st + length buf)
          \<and> map Inr res = map (seq_resp D d0 h) [st..<min e (st + length buf)])"

text \<open>The completed tail that the holder of the lock must reach, when it came from an error of a read.\<close>

definition target :: "('d, 'ro, 'op, 'r) nsys \<Rightarrow> nat \<Rightarrow> nat" where
  "target s r = (case sy_pc s r (sy_holder s r) of Locked ro n ct \<Rightarrow> ct | _ \<Rightarrow> 0)"

definition reaches :: "nat \<Rightarrow> phase \<Rightarrow> 'op pc \<Rightarrow> nat \<Rightarrow> bool" where
  "reaches g ph c e \<longleftrightarrow>
     (case ph of
        Executing n b gc \<Rightarrow> exec_pc g c
      | Unlocking n b gc \<Rightarrow> g \<le> e
      | Answering n b gc i j \<Rightarrow> g \<le> e
      | _ \<Rightarrow> True)"

definition data_ok :: "('d, 'ro, 'op, 'r) dispatcher \<Rightarrow> 'd \<Rightarrow> ('d, 'ro, 'op, 'r) nsys \<Rightarrow> nat \<Rightarrow> bool" where
  "data_ok D d0 s r \<longleftrightarrow>
     pc_fits (buffer (sy_rep s r)) (sy_phase s r) (pcs (sy_log s) r)
     \<and> state_after D d0 (map fst (take (ran_to s r) (hist (sy_log s)))) = Inr (rw_data (rep_data (sy_rep s r)))
     \<and> published_to (length (buffer (sy_rep s r))) (sy_phase s r) (ccommit (sy_log s)) (ran_to s r)
     \<and> placed D d0 (hist (sy_log s)) r (ran_to s r) (base s r) (buffer (sy_rep s r)) (results (sy_rep s r))
     \<and> (base s r = None \<longrightarrow> (\<exists>n. sy_phase s r = Appending n) \<longrightarrow> results (sy_rep s r) = [])
     \<and> reaches (target s r) (sy_phase s r) (pcs (sy_log s) r) (ran_to s r)"

text \<open>A thread, its context, and the answer that waits for it there.\<close>

definition answer_ok :: "('d, 'ro, 'op, 'r) dispatcher \<Rightarrow> 'd \<Rightarrow> ('d, 'ro, 'op, 'r) nsys \<Rightarrow> nat \<Rightarrow> nat \<Rightarrow> 'op \<Rightarrow> nat \<Rightarrow> 'r \<Rightarrow> bool" where
  "answer_ok D d0 s r t oper n resp \<longleftrightarrow>
     (\<exists>p<ran_to s r. p < cctail (sy_log s) \<and> hist (sy_log s) ! p = (oper, r + 1) \<and> sy_own s ! p = call_id s r t
        \<and> seq_resp D d0 (hist (sy_log s)) p = Inr resp \<and> follows (sy_calls s) n p)"

definition idle_ctx :: "('op, 'r, unit) op_context \<Rightarrow> bool" where
  "idle_ctx c \<longleftrightarrow> pending_ops c = [] \<and> answers c = []"

definition wait_ok :: "('d, 'ro, 'op, 'r) dispatcher \<Rightarrow> 'd \<Rightarrow> ('d, 'ro, 'op, 'r) nsys \<Rightarrow> nat \<Rightarrow> nat \<Rightarrow> 'op \<Rightarrow> nat \<Rightarrow> bool" where
  "wait_ok D d0 s r t oper n \<longleftrightarrow>
     pending_ops (ctx s r t) = [] \<and> (\<exists>resp. answers (ctx s r t) = [resp] \<and> answer_ok D d0 s r t oper n resp)"

fun pc_ctx :: "('d, 'ro, 'op, 'r) dispatcher \<Rightarrow> 'd \<Rightarrow> ('d, 'ro, 'op, 'r) nsys \<Rightarrow> nat \<Rightarrow> nat \<Rightarrow> ('op, 'ro) tpc \<Rightarrow> bool" where
  "pc_ctx D d0 s r t (Try oper n) =
     (pending_ops (ctx s r t) = [(oper, ())] \<and> answers (ctx s r t) = [] \<or> wait_ok D d0 s r t oper n)"
| "pc_ctx D d0 s r t (Poll oper n) =
     (pending_ops (ctx s r t) = [(oper, ())] \<and> answers (ctx s r t) = [] \<or> wait_ok D d0 s r t oper n)"
| "pc_ctx D d0 s r t (Resync oper n) = wait_ok D d0 s r t oper n"
| "pc_ctx D d0 s r t (Check ro n ct) = (idle_ctx (ctx s r t) \<and> follows (sy_calls s) n ct)"
| "pc_ctx D d0 s r t (Locked ro n ct) = (idle_ctx (ctx s r t) \<and> follows (sy_calls s) n ct \<and> ct \<le> ccommit (sy_log s))"
| "pc_ctx D d0 s r t Panicked = False"
| "pc_ctx D d0 s r t p = idle_ctx (ctx s r t)"

definition thread_ok :: "('d, 'ro, 'op, 'r) dispatcher \<Rightarrow> 'd \<Rightarrow> ('d, 'ro, 'op, 'r) nsys \<Rightarrow> nat \<Rightarrow> nat \<Rightarrow> bool" where
  "thread_ok D d0 s r t \<longleftrightarrow>
     (0 < t \<and> t \<le> MAX_THREADS_PER_REPLICA \<longrightarrow> ctx_inv (ctx s r t) \<and> pc_ctx D d0 s r t (sy_pc s r t))
     \<and> (0 < t \<and> t < rep_next (sy_rep s r) \<or> sy_pc s r t = Out)
     \<and> start_of (sy_pc s r t) \<le> length (sy_calls s)"

text \<open>The calls behind the entries of the history.\<close>

definition own_batch_ok :: "('d, 'ro, 'op, 'r) nsys \<Rightarrow> nat \<Rightarrow> bool" where
  "own_batch_ok s r \<longleftrightarrow>
     (case base s r of
        None \<Rightarrow> True
      | Some b \<Rightarrow> b + length (buffer (sy_rep s r)) \<le> length (sy_own s)
          \<and> drop (b + answered_of (sy_phase s r)) (take (b + length (buffer (sy_rep s r))) (sy_own s)) = map (call_id s r) (live_all s r)
          \<and> (\<forall>t\<in>set (live_all s r). follows (sy_calls s) (start_of (sy_pc s r t)) b))"

definition own_ok :: "('d, 'ro, 'op, 'r) nsys \<Rightarrow> nat \<Rightarrow> bool" where
  "own_ok s r \<longleftrightarrow> own_batch_ok s r
     \<and> (\<forall>t c. (r, t, c) \<in> set (sy_own s) \<longrightarrow> 0 < t \<and> t \<le> MAX_THREADS_PER_REPLICA \<and> c \<le> sy_cnt s r t
          \<and> (c < sy_cnt s r t \<longrightarrow> (r, t, c) \<in> an_id ` set (sy_calls s))
          \<and> (c = sy_cnt s r t \<longrightarrow> answers (ctx s r t) \<noteq> [] \<or> base s r \<noteq> None \<and> t \<in> set (live_all s r)))"

definition calls_ok :: "('d, 'ro, 'op, 'r) dispatcher \<Rightarrow> 'd \<Rightarrow> ('d, 'ro, 'op, 'r) nsys \<Rightarrow> bool" where
  "calls_ok D d0 s \<longleftrightarrow>
     length (sy_own s) = length (hist (sy_log s)) \<and> distinct (sy_own s) \<and> distinct (map an_id (sy_calls s))
     \<and> (\<forall>p<length (hist (sy_log s)). snd (hist (sy_log s) ! p) = fst (sy_own s ! p) + 1)
     \<and> (\<forall>a\<in>set (sy_calls s). explained D d0 (hist (sy_log s)) (sy_own s) a \<and> an_bound a \<le> cctail (sy_log s))
     \<and> (\<forall>r t c. (r, t, c) \<in> an_id ` set (sy_calls s) \<longrightarrow> c < sy_cnt s r t)
     \<and> (\<forall>j<length (sy_calls s). an_start (sy_calls s ! j) \<le> j
          \<and> follows (sy_calls s) (an_start (sy_calls s ! j)) (an_pos (sy_calls s ! j)))"

text \<open>The combiner collects its own operation: it waits for a response and does not enqueue meanwhile.\<close>

definition busy :: "('d, 'ro, 'op, 'r) nsys \<Rightarrow> nat \<Rightarrow> bool" where
  "busy s r \<longleftrightarrow> pending_ops (ctx s r (sy_holder s r)) \<noteq> []"

definition holder_ok :: "('d, 'ro, 'op, 'r) nsys \<Rightarrow> nat \<Rightarrow> bool" where
  "holder_ok s r \<longleftrightarrow>
     (\<forall>n m i. sy_phase s r = Gather n m i \<longrightarrow> sy_holder s r < m
        \<and> (sy_holder s r < i \<longrightarrow> busy s r \<longrightarrow> sy_holder s r \<in> set (live (inflight (sy_rep s r)) i)))
     \<and> ((\<exists>n. sy_phase s r = Appending n) \<or> base s r \<noteq> None \<longrightarrow> busy s r \<longrightarrow> sy_holder s r \<in> set (live_all s r))"

definition rep_inv :: "('d, 'ro, 'op, 'r) dispatcher \<Rightarrow> 'd \<Rightarrow> ('d, 'ro, 'op, 'r) nsys \<Rightarrow> nat \<Rightarrow> bool" where
  "rep_inv D d0 s r \<longleftrightarrow> lock_ok s r \<and> holder_ok s r \<and> batch_ok (sy_phase s r) (sy_rep s r) \<and> data_ok D d0 s r
     \<and> (\<forall>t. thread_ok D d0 s r t) \<and> own_ok s r"

definition nr_inv :: "nat \<Rightarrow> nat \<Rightarrow> ('d, 'ro, 'op, 'r) dispatcher \<Rightarrow> 'd \<Rightarrow> ('d, 'ro, 'op, 'r) nsys \<Rightarrow> bool" where
  "nr_inv k N D d0 s \<longleftrightarrow> conc_inv k N (sy_log s) \<and> calls_ok D d0 s \<and> (\<forall>y\<in>set (sy_own s). fst y < k) \<and> (\<forall>r<k. rep_inv D d0 s r)"

section \<open>Steps of the log\<close>

declare upt_Suc [simp del]

lemma log_step_frame:
  assumes "log_step k N l l'" "pcs l' r \<noteq> pcs l r"
  shows "\<forall>q. q \<noteq> r \<longrightarrow> pcs l' q = pcs l q \<and> cltails l' q = cltails l q \<and> applied l' q = applied l q"
  using assms by (cases rule: log_step.cases) (auto split: if_splits)

lemma log_step_quiet:
  assumes "log_step k N l l'" "pcs l' = pcs l"
  shows "hist l' = hist l" "applied l' = applied l" "cltails l' = cltails l" "cctail l' = cctail l" "ccommit l' = ccommit l"
proof -
  have c: "c = f r" if "f = f(r := c)" for f :: "nat \<Rightarrow> 'a pc" and r c using fun_cong [OF that, of r] by simp
  show "hist l' = hist l" "applied l' = applied l" "cltails l' = cltails l" "cctail l' = cctail l" "ccommit l' = ccommit l"
    using assms by (cases rule: log_step.cases; auto dest!: c [OF sym] simp: next_write_def split: if_splits)+
qed

text \<open>What a step of the program counter of \<open>r\<close> does: it reserves a batch, calls the closure, or neither.\<close>

definition still :: "nat \<Rightarrow> 'op csys \<Rightarrow> 'op csys \<Rightarrow> bool" where
  "still r l l' \<longleftrightarrow> hist l' = hist l \<and> applied l' r = applied l r
     \<and> executed (pcs l' r) (cltails l' r) = executed (pcs l r) (cltails l r)"

definition reserves :: "nat \<Rightarrow> 'op csys \<Rightarrow> 'op csys \<Rightarrow> 'op list \<Rightarrow> bool" where
  "reserves r l l' ops \<longleftrightarrow> pcs l r = Ready ops (ctl l) \<and> pcs l' r = next_write ops (ctl l) 0 \<and> cltails l' r = cltails l r
     \<and> hist l' = hist l @ map (\<lambda>oper. (oper, r + 1)) ops \<and> applied l' r = applied l r"

definition replays :: "nat \<Rightarrow> 'op csys \<Rightarrow> 'op csys \<Rightarrow> 'op \<Rightarrow> bool \<Rightarrow> bool" where
  "replays r l l' oper mine \<longleftrightarrow> (\<exists>gt i. pcs l r = Replay gt i \<and> pcs l' r = Replay gt (i + 1) \<and> cltails l' r = cltails l r
     \<and> hist l' = hist l \<and> applied l' r = applied l r @ [(oper, mine)])"

lemma log_step_kinds:
  assumes "log_step k N l l'" "conc_inv k N l" "pcs l' r \<noteq> pcs l r" "pcs l' r \<noteq> Crashed"
  shows "still r l l' \<or> (\<exists>ops. reserves r l l' ops) \<or> (\<exists>oper mine. replays r l l' oper mine)"
  using assms(1,3,4) conc_invD(1) [OF assms(2)]
  by (cases rule: log_step.cases) (auto simp: still_def reserves_def replays_def next_write_def split: if_splits)

lemma log_step_grows:
  assumes "log_step k N l l'"
  shows "\<exists>xs. hist l' = hist l @ xs" "cctail l \<le> cctail l'" "ccommit l \<le> ccommit l'"
  using assms by (cases rule: log_step.cases; simp)+

section \<open>What the other threads keep\<close>

lemma base_of_simps [simp]:
  "base_of Unlocked c = None" "base_of Acquired c = None" "base_of (Counted n) c = None" "base_of (Gather n m i) c = None"
  "base_of NoSpace c = None" "base_of Syncing c = None" "base_of Synced c = None" "base_of (Appended n b) c = Some b"
  "base_of (Between n b gc) c = Some b" "base_of (Executing n b gc) c = Some b" "base_of (Unlocking n b gc) c = Some b"
  "base_of (Answering n b gc i j) c = Some b" "base_of (Appending n) Idle = None"
  by (simp_all add: base_of_def)

lemma own_okD:
  assumes "own_ok s r"
  shows "own_batch_ok s r"
    "(r, t, c) \<in> set (sy_own s) \<Longrightarrow> 0 < t \<and> t \<le> MAX_THREADS_PER_REPLICA \<and> c \<le> sy_cnt s r t
       \<and> (c < sy_cnt s r t \<longrightarrow> (r, t, c) \<in> an_id ` set (sy_calls s))
       \<and> (c = sy_cnt s r t \<longrightarrow> answers (ctx s r t) \<noteq> [] \<or> base s r \<noteq> None \<and> t \<in> set (live_all s r))"
  using assms unfolding own_ok_def by blast+

definition grows :: "('d, 'ro, 'op, 'r) nsys \<Rightarrow> ('d, 'ro, 'op, 'r) nsys \<Rightarrow> bool" where
  "grows s s' \<longleftrightarrow> (\<exists>xs. hist (sy_log s') = hist (sy_log s) @ xs) \<and> (\<exists>ys. sy_own s' = sy_own s @ ys)
     \<and> (\<exists>zs. sy_calls s' = sy_calls s @ zs) \<and> length (sy_own s) = length (hist (sy_log s))
     \<and> cctail (sy_log s) \<le> cctail (sy_log s') \<and> ccommit (sy_log s) \<le> ccommit (sy_log s')"

lemma follows_append: "n \<le> length calls \<Longrightarrow> follows (calls @ zs) n p = follows calls n p"
  by (auto simp: follows_def nth_append)

lemma follows_le: "follows calls n p \<Longrightarrow> p \<le> q \<Longrightarrow> follows calls n q"
  by (auto simp: follows_def intro: order_trans)

lemma grows_follows:
  assumes "grows s s'" "n \<le> length (sy_calls s)"
  shows "follows (sy_calls s') n p = follows (sy_calls s) n p"
  using assms by (auto simp: grows_def follows_append)

lemma grows_hist:
  assumes "grows s s'" "p < length (hist (sy_log s))"
  shows "p < length (hist (sy_log s'))" "hist (sy_log s') ! p = hist (sy_log s) ! p" "sy_own s' ! p = sy_own s ! p"
    "take p (hist (sy_log s')) = take p (hist (sy_log s))" "seq_resp D d0 (hist (sy_log s')) p = seq_resp D d0 (hist (sy_log s)) p"
  using assms by (auto simp: grows_def nth_append seq_resp_append)

lemma answer_frame:
  assumes "answer_ok D d0 s r t oper n resp" "grows s s'" "ran_to s r \<le> length (hist (sy_log s))" "ran_to s r \<le> ran_to s' r"
    "n \<le> length (sy_calls s)" "sy_cnt s' r t = sy_cnt s r t"
  shows "answer_ok D d0 s' r t oper n resp"
proof -
  obtain p where p: "p < ran_to s r" "p < cctail (sy_log s)" "hist (sy_log s) ! p = (oper, r + 1)" "sy_own s ! p = call_id s r t"
    "seq_resp D d0 (hist (sy_log s)) p = Inr resp" "follows (sy_calls s) n p"
    using assms(1) by (auto simp: answer_ok_def)
  have "p < length (hist (sy_log s))" using p(1) assms(3) by simp
  note h = grows_hist [OF assms(2) this]
  have "p < ran_to s' r" "p < cctail (sy_log s')" using p(1,2) assms(2,4) by (auto simp: grows_def)
  then show ?thesis
    unfolding answer_ok_def using p h(2,3) h(5) [of D d0] assms(6) grows_follows [OF assms(2,5)] by (intro exI [of _ p]) simp
qed

lemma pc_ctx_frame:
  assumes "pc_ctx D d0 s r t p" "grows s s'" "ran_to s r \<le> length (hist (sy_log s))" "ran_to s r \<le> ran_to s' r"
    "start_of p \<le> length (sy_calls s)" "sy_cnt s' r t = sy_cnt s r t" "ctx s' r t = ctx s r t"
  shows "pc_ctx D d0 s' r t p"
proof -
  have w: "wait_ok D d0 s' r t oper n" if "wait_ok D d0 s r t oper n" "n \<le> length (sy_calls s)" for oper n
    using that answer_frame [OF _ assms(2-4) that(2) assms(6)] assms(7) by (auto simp: wait_ok_def)
  have c: "ccommit (sy_log s) \<le> ccommit (sy_log s')" using assms(2) by (simp add: grows_def)
  show ?thesis
    using assms(1,5,7) w c grows_follows [OF assms(2)] by (cases p) (auto simp: idle_ctx_def)
qed

lemma thread_frame:
  assumes "thread_ok D d0 s r t" "grows s s'" "ran_to s r \<le> length (hist (sy_log s))" "ran_to s r \<le> ran_to s' r"
    "sy_cnt s' r t = sy_cnt s r t" "ctx s' r t = ctx s r t" "sy_pc s' r t = sy_pc s r t"
    "rep_next (sy_rep s r) \<le> rep_next (sy_rep s' r)"
  shows "thread_ok D d0 s' r t"
proof -
  have "length (sy_calls s) \<le> length (sy_calls s')" using assms(2) by (auto simp: grows_def)
  then show ?thesis
    using assms(1,5-8) pc_ctx_frame [OF _ assms(2-4), of D d0 t "sy_pc s r t"] by (auto simp: thread_ok_def)
qed

text \<open>A replica that takes no step, while others append to the history and return from calls.\<close>

definition same_rep :: "('d, 'ro, 'op, 'r) nsys \<Rightarrow> ('d, 'ro, 'op, 'r) nsys \<Rightarrow> nat \<Rightarrow> bool" where
  "same_rep s s' r \<longleftrightarrow> sy_rep s' r = sy_rep s r \<and> sy_phase s' r = sy_phase s r \<and> sy_holder s' r = sy_holder s r
     \<and> sy_pc s' r = sy_pc s r \<and> sy_cnt s' r = sy_cnt s r
     \<and> pcs (sy_log s') r = pcs (sy_log s) r \<and> cltails (sy_log s') r = cltails (sy_log s) r"

lemma placed_frame:
  assumes "placed D d0 h r e b buf res" "e \<le> length h" "\<forall>x\<in>set xs. snd x \<noteq> r + 1"
  shows "placed D d0 (h @ xs) r e b buf res"
proof (cases b)
  case None
  have "snd ((h @ xs) ! p) \<noteq> r + 1" if "e \<le> p" "p < length (h @ xs)" for p
  proof (cases "p < length h")
    case True
    then show ?thesis using assms(1) None that by (simp add: placed_def nth_append)
  next
    case False
    then show ?thesis using assms(3) that by (simp add: nth_append)
  qed
  then show ?thesis using None by (simp add: placed_def)
next
  case (Some st)
  have "st \<le> p \<and> p < st + length buf" if "e \<le> p" "p < length (h @ xs)" "snd ((h @ xs) ! p) = r + 1" for p
  proof (cases "p < length h")
    case True
    then show ?thesis using assms(1) Some that by (simp add: placed_def nth_append)
  next
    case False
    then show ?thesis using assms(3) that by (simp add: nth_append)
  qed
  moreover have "map (seq_resp D d0 (h @ xs)) [st..<min e (st + length buf)] = map (seq_resp D d0 h) [st..<min e (st + length buf)]"
    using assms(2) by (auto simp: seq_resp_append)
  ultimately show ?thesis using assms(1) Some by (auto simp: placed_def nth_append)
qed

lemma published_mono: "published_to m ph cm e \<Longrightarrow> cm \<le> cm' \<Longrightarrow> published_to m ph cm' e"
  by (auto simp: published_to_def split: phase.splits)

lemma rep_invD:
  assumes "rep_inv D d0 s r"
  shows "lock_ok s r" "holder_ok s r" "batch_ok (sy_phase s r) (sy_rep s r)" "data_ok D d0 s r" "\<And>t. thread_ok D d0 s r t" "own_ok s r"
  using assms by (simp_all add: rep_inv_def)

lemma rep_frame:
  assumes inv: "rep_inv D d0 s r" and g: "grows s s'" and same: "same_rep s s' r" and e: "ran_to s r \<le> length (hist (sy_log s))"
    and new: "hist (sy_log s') = hist (sy_log s) @ xs" "\<forall>x\<in>set xs. snd x \<noteq> r + 1"
      "sy_own s' = sy_own s @ ys" "\<forall>y\<in>set ys. fst y \<noteq> r"
  shows "rep_inv D d0 s' r"
proof -
  note S = same [unfolded same_rep_def]
  have t: "thread_ok D d0 s' r t" for t
    using thread_frame [OF _ g e, of D d0 t] inv S by (simp add: rep_inv_def)
  have cm: "ccommit (sy_log s) \<le> ccommit (sy_log s')" using g by (simp add: grows_def)
  note dok = rep_invD(4) [OF inv]
  note P = placed_frame [OF dok [unfolded data_ok_def, THEN conjunct2, THEN conjunct2, THEN conjunct2, THEN conjunct1] e new(2)]
  have d: "data_ok D d0 s' r"
    using dok S new(1) e P published_mono [OF _ cm] by (simp add: data_ok_def target_def)
  have st: "start_of (sy_pc s r t) \<le> length (sy_calls s)" for t
    using inv by (simp add: rep_inv_def thread_ok_def)
  have calls: "an_id ` set (sy_calls s) \<subseteq> an_id ` set (sy_calls s')" using g by (auto simp: grows_def)
  have ob: "own_batch_ok s' r"
    using inv S new(3) grows_follows [OF g st]
    by (auto simp: rep_inv_def own_ok_def own_batch_ok_def split: option.splits)
  have o: "own_ok s' r"
    unfolding own_ok_def
  proof (intro conjI allI impI)
    fix t c assume "(r, t, c) \<in> set (sy_own s')"
    then have "(r, t, c) \<in> set (sy_own s)" using new(3,4) by force
    note own_okD(2) [OF rep_invD(6) [OF inv] this]
    then show "0 < t" "t \<le> MAX_THREADS_PER_REPLICA" "c \<le> sy_cnt s' r t" "c < sy_cnt s' r t \<Longrightarrow> (r, t, c) \<in> an_id ` set (sy_calls s')"
      "c = sy_cnt s' r t \<Longrightarrow> answers (ctx s' r t) \<noteq> [] \<or> base s' r \<noteq> None \<and> t \<in> set (live_all s' r)"
      using S calls by auto
  qed (rule ob)
  show ?thesis using inv S t d o by (simp add: rep_inv_def lock_ok_def holder_ok_def busy_def)
qed

section \<open>Steps that leave the log alone\<close>

lemma sys_invD:
  assumes "nr_inv k N D d0 s" "r < k"
  shows "rep_inv D d0 s r" "ran_to s r \<le> length (hist (sy_log s))" "ran_to s r \<le> ccommit (sy_log s)" "length (applied (sy_log s) r) = ran_to s r"
proof -
  have c: "conc_inv k N (sy_log s)" using assms by (simp add: nr_inv_def)
  show "rep_inv D d0 s r" using assms by (simp add: nr_inv_def)
  show e: "ran_to s r \<le> ccommit (sy_log s)" by (rule executed_le [OF c assms(2)])
  then show h: "ran_to s r \<le> length (hist (sy_log s))" using conc_invG(3,4) [OF c] by simp
  show "length (applied (sy_log s) r) = ran_to s r" using conc_invD(3) [OF c assms(2)] h by (simp add: applied_ok_def)
qed

lemma nr_invG:
  assumes "nr_inv k N D d0 s"
  shows "conc_inv k N (sy_log s)" "calls_ok D d0 s" "length (sy_own s) = length (hist (sy_log s))" "\<forall>y\<in>set (sy_own s). fst y < k"
  using assms by (simp_all add: nr_inv_def calls_ok_def)

text \<open>Only replica \<open>r\<close> changes, and neither the log nor the calls do.\<close>

definition local_to :: "nat \<Rightarrow> ('d, 'ro, 'op, 'r) nsys \<Rightarrow> ('d, 'ro, 'op, 'r) nsys \<Rightarrow> bool" where
  "local_to r s s' \<longleftrightarrow> sy_log s' = sy_log s \<and> sy_own s' = sy_own s \<and> sy_calls s' = sy_calls s \<and> sy_cnt s' = sy_cnt s
     \<and> (\<forall>q. q \<noteq> r \<longrightarrow> sy_rep s' q = sy_rep s q \<and> sy_phase s' q = sy_phase s q \<and> sy_holder s' q = sy_holder s q \<and> sy_pc s' q = sy_pc s q)"

lemma local_grows: "nr_inv k N D d0 s \<Longrightarrow> local_to r s s' \<Longrightarrow> grows s s'"
  using nr_invG(3) by (simp add: local_to_def grows_def)

lemma local_step:
  assumes inv: "nr_inv k N D d0 s" and r: "r < k" and l: "local_to r s s'"
    and parts: "lock_ok s' r" "holder_ok s' r" "batch_ok (sy_phase s' r) (sy_rep s' r)" "data_ok D d0 s' r" "own_ok s' r"
    and threads: "rep_next (sy_rep s r) \<le> rep_next (sy_rep s' r)"
      "\<And>t. 0 < t \<Longrightarrow> thread_ok D d0 s' r t \<or> ctx s' r t = ctx s r t \<and> sy_pc s' r t = sy_pc s r t" "sy_pc s' r 0 = sy_pc s r 0"
  shows "nr_inv k N D d0 s'"
proof -
  note L = l [unfolded local_to_def]
  note g = local_grows [OF inv l]
  note T = rep_invD(5) [OF sys_invD(1) [OF inv r]]
  have "thread_ok D d0 s' r t" if "0 < t" for t
    using threads(2) [OF that] thread_frame [OF T g sys_invD(2) [OF inv r], of t] threads(1) L by auto
  moreover have "thread_ok D d0 s' r 0" using T [of 0] threads(3) by (simp add: thread_ok_def)
  ultimately have "thread_ok D d0 s' r t" for t by (cases "t = 0") auto
  then have "rep_inv D d0 s' r" using parts by (simp add: rep_inv_def)
  moreover have "rep_inv D d0 s' q" if "q < k" "q \<noteq> r" for q
    using rep_frame [OF sys_invD(1) [OF inv that(1)] g _ sys_invD(2) [OF inv that(1)], of "[]" "[]"] L that by (simp add: same_rep_def)
  moreover have "calls_ok D d0 s'" using nr_invG(2) [OF inv] L by (simp add: calls_ok_def)
  ultimately show ?thesis using inv L unfolding nr_inv_def by metis
qed

lemma own_local:
  assumes "own_ok s r" "local_to r s s'" "base s' r = base s r"
    and "\<And>t. 0 < t \<Longrightarrow> t \<le> MAX_THREADS_PER_REPLICA \<Longrightarrow> answers (ctx s r t) \<noteq> [] \<Longrightarrow> answers (ctx s' r t) \<noteq> []"
    and "base s r \<noteq> None \<Longrightarrow> inflight (sy_rep s' r) = inflight (sy_rep s r) \<and> buffer (sy_rep s' r) = buffer (sy_rep s r)
      \<and> answered_of (sy_phase s' r) = answered_of (sy_phase s r)
      \<and> (\<forall>t\<in>set (live_all s r). start_of (sy_pc s' r t) = start_of (sy_pc s r t))"
  shows "own_ok s' r"
proof -
  note L = assms(2) [unfolded local_to_def]
  have "own_batch_ok s' r"
    using assms(1,3,5) L by (auto simp: own_ok_def own_batch_ok_def split: option.splits)
  moreover have "answers (ctx s' r t) \<noteq> [] \<or> base s' r \<noteq> None \<and> t \<in> set (live_all s' r)" if "call_id s r t \<in> set (sy_own s)" for t
    using own_okD(2) [OF assms(1) that] assms(3-5) by auto
  ultimately show ?thesis using own_okD(2) [OF assms(1)] L unfolding own_ok_def by auto
qed

lemma data_local:
  assumes "data_ok D d0 s r" "sy_log s' = sy_log s" "base s' r = base s r" "rw_data (rep_data (sy_rep s' r)) = rw_data (rep_data (sy_rep s r))"
    and "base s r \<noteq> None \<Longrightarrow> buffer (sy_rep s' r) = buffer (sy_rep s r) \<and> results (sy_rep s' r) = results (sy_rep s r)"
    and "pc_fits (buffer (sy_rep s' r)) (sy_phase s' r) (pcs (sy_log s) r)"
      "published_to (length (buffer (sy_rep s' r))) (sy_phase s' r) (ccommit (sy_log s)) (ran_to s r)"
      "reaches (target s' r) (sy_phase s' r) (pcs (sy_log s) r) (ran_to s r)"
      "\<And>n. sy_phase s' r = Appending n \<Longrightarrow> base s r = None \<Longrightarrow> results (sy_rep s' r) = []"
  shows "data_ok D d0 s' r"
proof -
  have "placed D d0 (hist (sy_log s)) r (ran_to s r) (base s r) (buffer (sy_rep s r)) (results (sy_rep s r))"
    using assms(1) by (simp add: data_ok_def)
  then have "placed D d0 (hist (sy_log s)) r (ran_to s r) (base s r) (buffer (sy_rep s' r)) (results (sy_rep s' r))"
    using assms(5) by (cases "base s r") (simp_all add: placed_def)
  then show ?thesis using assms by (auto simp: data_ok_def)
qed

lemma holder_frame:
  assumes "holder_ok s r" "lock_ok s r" "sy_log s' = sy_log s" "sy_phase s' r = sy_phase s r" "sy_holder s' r = sy_holder s r"
    "inflight (sy_rep s' r) = inflight (sy_rep s r)" "0 < sy_holder s r \<Longrightarrow> pending_ops (ctx s' r (sy_holder s r)) = pending_ops (ctx s r (sy_holder s r))"
  shows "holder_ok s' r"
proof (cases "sy_holder s r = 0")
  case True
  then show ?thesis using assms(2-6) by (auto simp: holder_ok_def lock_ok_def split: if_splits)
next
  case False
  then show ?thesis using assms by (simp add: holder_ok_def busy_def)
qed

end
