(* ===== verification/Replica_Local.thy ===== *)
theory Replica_Local
  imports Replica_Steps_Inv
begin

text \<open>
  The steps of the concurrent object that leave the log alone keep its invariant: starting a call,
  enqueueing, taking and releasing the combiner lock, collecting the contexts and handing out the
  responses.
\<close>

section \<open>Steps of a thread\<close>

lemma base_collected:
  assumes "batch_ok ph rep" "base_of ph c \<noteq> None \<or> (\<exists>n. ph = Appending n)"
  shows "\<exists>n a. collected rep n a (answered_of ph)"
  using assms by (auto simp: batch_ok_def base_of_def split: phase.splits)

lemma live_flag:
  assumes "batch_ok ph rep" "base_of ph c \<noteq> None \<or> (\<exists>n. ph = Appending n)"
    "t \<in> set (live (inflight rep) (MAX_THREADS_PER_REPLICA + 1))"
  shows "flag_ok rep t"
  using base_collected [OF assms(1,2)] assms(3) by (auto simp: collected_def)

lemma local_set_pc: "local_to r s (set_pc s r t p)"
  by (simp add: local_to_def)

lemma pc_step:
  assumes inv: "nr_inv k N D d0 s" and r: "r < k" and t: "0 < t" "t < rep_next (sy_rep s r)"
    and p: "pc_ctx D d0 s r t p" "start_of p \<le> length (sy_calls s)" "start_of p = start_of (sy_pc s r t) \<or> idle_ctx (ctx s r t)"
    and h: "t = sy_holder s r \<Longrightarrow> waiting p \<and> sy_phase s r = NoSpace"
  shows "nr_inv k N D d0 (set_pc s r t p)"
proof -
  note R = rep_invD [OF sys_invD(1) [OF inv r]]
  let ?s = "set_pc s r t p"
  have l: "local_to r s ?s" by (rule local_set_pc)
  note g = local_grows [OF inv l]
  have live: "start_of p = start_of (sy_pc s r t)" if "base s r \<noteq> None" "t \<in> set (live_all s r)"
  proof -
    have "flag_ok (sy_rep s r) t" using live_flag [OF R(3) disjI1 that(2)] that(1) by blast
    then show ?thesis using p(3) by (auto simp: flag_ok_def idle_ctx_def)
  qed
  show ?thesis
  proof (rule local_step [OF inv r l])
    show "lock_ok ?s r" using R(1) h t(1) by (cases "t = sy_holder s r") (auto simp: lock_ok_def)
    show "holder_ok ?s r" using R(2) by (simp add: holder_ok_def busy_def)
    show "batch_ok (sy_phase ?s r) (sy_rep ?s r)" using R(3) by simp
    show "data_ok D d0 ?s r"
    proof (rule data_local [OF R(4)])
      show "reaches (target ?s r) (sy_phase ?s r) (pcs (sy_log s) r) (ran_to s r)"
        using R(4) h by (cases "t = sy_holder s r") (simp_all add: data_ok_def target_def reaches_def)
    qed (use R(4) in \<open>simp_all add: data_ok_def\<close>)
    show "own_ok ?s r" by (rule own_local [OF R(6) l]) (use live in auto)
    fix x :: nat assume "0 < x"
    show "thread_ok D d0 ?s r x \<or> ctx ?s r x = ctx s r x \<and> sy_pc ?s r x = sy_pc s r x"
    proof (cases "x = t")
      case True
      have "pc_ctx D d0 ?s r t p" by (rule pc_ctx_frame [OF p(1) g sys_invD(2) [OF inv r]]) (use p(2) in auto)
      then show ?thesis using True p(2) t R(1) R(5) [of t] by (simp add: thread_ok_def lock_ok_def)
    qed simp
  qed (use t in simp_all)
qed

lemma thread_known:
  assumes "thread_ok D d0 s r t" "sy_pc s r t \<noteq> Out"
  shows "0 < t" "t < rep_next (sy_rep s r)"
  using assms by (simp_all add: thread_ok_def)

lemma thread_ctx:
  assumes "nr_inv k N D d0 s" "r < k" "0 < t" "t < rep_next (sy_rep s r)"
  shows "t \<le> MAX_THREADS_PER_REPLICA" "ctx_inv (ctx s r t)" "pc_ctx D d0 s r t (sy_pc s r t)"
    "start_of (sy_pc s r t) \<le> length (sy_calls s)" "t - 1 < length (contexts (sy_rep s r))"
proof -
  note R = rep_invD [OF sys_invD(1) [OF assms(1,2)]]
  show t: "t \<le> MAX_THREADS_PER_REPLICA" "t - 1 < length (contexts (sy_rep s r))" using R(1) assms(3,4) by (auto simp: lock_ok_def)
  then show "ctx_inv (ctx s r t)" "pc_ctx D d0 s r t (sy_pc s r t)" "start_of (sy_pc s r t) \<le> length (sy_calls s)"
    using R(5) [of t] assms(3) by (auto simp: thread_ok_def)
qed

lemma invoke_inv:
  assumes inv: "nr_inv k N D d0 s" "r < k" "0 < t" "t < rep_next (sy_rep s r)" "sy_pc s r t = Out"
    and p: "p \<in> {Put oper (length (sy_calls s)), Begin ro (length (sy_calls s))}"
  shows "nr_inv k N D d0 (set_pc s r t p)"
proof -
  note T = thread_ctx [OF inv(1-4)]
  have "t \<noteq> sy_holder s r" using rep_invD(1) [OF sys_invD(1) [OF inv(1,2)]] inv(3,5) by (auto simp: lock_ok_def split: if_splits)
  then show ?thesis using pc_step [OF inv(1-4), of p] T(3) inv(5) p by auto
qed

lemma all_follow:
  assumes "calls_ok D d0 s" "n \<le> length (sy_calls s)" "cctail (sy_log s) \<le> p"
  shows "follows (sy_calls s) n p"
  using assms by (auto simp: calls_ok_def follows_def intro: order_trans [OF _ assms(3)])

lemma load_inv:
  assumes inv: "nr_inv k N D d0 s" "r < k"
    and p: "sy_pc s r t = Begin ro n \<and> p = Check ro n (cctail (sy_log s)) \<or>
            sy_pc s r t \<in> {Check ro n ct, Locked ro n ct} \<and> p = Locked ro n (cctail (sy_log s)) \<and> sy_phase s r = NoSpace"
  shows "nr_inv k N D d0 (set_pc s r t p)"
proof -
  note R = rep_invD [OF sys_invD(1) [OF inv]]
  have t: "0 < t" "t < rep_next (sy_rep s r)" using thread_known [OF R(5)] p by auto
  note T = thread_ctx [OF inv t]
  have "cctail (sy_log s) \<le> ccommit (sy_log s)" using conc_invG(5) [OF nr_invG(1) [OF inv(1)]] .
  then have "pc_ctx D d0 s r t p" "start_of p = start_of (sy_pc s r t)" using T(3,4) p all_follow [OF nr_invG(2) [OF inv(1)]] by auto
  moreover have "waiting p \<and> sy_phase s r = NoSpace" if "t = sy_holder s r"
    using R(1) that p t(1) by (auto simp: lock_ok_def split: if_splits)
  ultimately show ?thesis using pc_step [OF inv t, of p] T(4) by auto
qed

lemma no_lock_inv:
  assumes inv: "nr_inv k N D d0 s" "r < k" and p: "sy_pc s r t = Try oper n" "sy_holder s r \<noteq> t"
  shows "nr_inv k N D d0 (set_pc s r t (Poll oper n))"
proof -
  note R = rep_invD [OF sys_invD(1) [OF inv]]
  have t: "0 < t" "t < rep_next (sy_rep s r)" using thread_known [OF R(5)] p by auto
  show ?thesis using pc_step [OF inv t, of "Poll oper n"] thread_ctx [OF inv t] p by auto
qed

text \<open>A step on the context of one thread, whose operation is not in the batch of the combiner.\<close>

lemma live_subset: "b \<le> b' \<Longrightarrow> set (live f b) \<subseteq> set (live f b')"
  by (auto simp: live_def)

lemma batch_ctx:
  assumes "batch_ok ph rep" "pending_ops (contexts rep ! (t - 1)) = []" "0 < t" "t - 1 < length (contexts rep)"
  shows "batch_ok ph (rep\<lparr>contexts := (contexts rep)[t - 1 := c]\<rparr>)"
proof -
  let ?rep = "rep\<lparr>contexts := (contexts rep)[t - 1 := c]\<rparr>"
  have ne: "x - 1 \<noteq> t - 1" if "0 < x" "x \<noteq> t" for x using that assms(3) by auto
  have other: "op_of ?rep x = op_of rep x" "flag_ok ?rep x" if "flag_ok rep x" "0 < x" for x
  proof -
    have "x \<noteq> t" using that assms(2) by (auto simp: flag_ok_def)
    then show "op_of ?rep x = op_of rep x" "flag_ok ?rep x" using that ne [of x] by (auto simp: op_of_def flag_ok_def)
  qed
  have pos: "0 < x" if "x \<in> set (live f b)" for x f b using that by (auto simp: live_def)
  have "collected ?rep n a j" if "collected rep n a j" for n a j
    using that other pos by (auto simp: collected_def intro!: map_cong)
  moreover have "map (op_of ?rep) (live (inflight rep) b) = map (op_of rep) (live (inflight rep) b)"
    "\<forall>x\<in>set (live (inflight rep) b). flag_ok ?rep x" if "\<forall>x\<in>set (live (inflight rep) b). flag_ok rep x" for b
    using that other pos by auto
  ultimately show ?thesis using assms(1) by (auto simp: batch_ok_def split: phase.splits)
qed

lemma pend_inv:
  assumes inv: "nr_inv k N D d0 s" "r < k" and p: "sy_pc s r t = Put oper n" "make_pending oper t (sy_rep s r) = Inr (True, rep)"
  shows "nr_inv k N D d0 (set_pc (set_rep s r rep) r t (Try oper n))"
proof -
  note R = rep_invD [OF sys_invD(1) [OF inv]]
  have t: "0 < t" "t < rep_next (sy_rep s r)" using thread_known [OF R(5)] p by auto
  note T = thread_ctx [OF inv t]
  have idle: "pending_ops (ctx s r t) = []" "answers (ctx s r t) = []" using T(3) p(1) by (auto simp: idle_ctx_def)
  obtain c where c: "context_enqueue oper () (ctx s r t) = (True, c)" "rep = (sy_rep s r)\<lparr>contexts := (contexts (sy_rep s r))[t - 1 := c]\<rparr>"
    using p(2) by (auto simp: make_pending_def split: if_splits prod.splits)
  have new: "ctx_inv c" "pending_ops c = [(oper, ())]" "answers c = []"
    using cb.enq_ok [OF T(2), of "(oper, ())" c] c(1) idle by auto
  have here: "contexts rep ! (t - 1) = c" and other: "\<And>x. 0 < x \<Longrightarrow> x \<noteq> t \<Longrightarrow> contexts rep ! (x - 1) = ctx s r x"
    using c(2) T(5) t(1) by (auto simp: nth_list_update)
  let ?s = "set_pc (set_rep s r rep) r t (Try oper n)"
  have hold: "sy_holder s r \<noteq> t" using R(1) p(1) t(1) by (auto simp: lock_ok_def split: if_splits)
  have l: "local_to r s ?s" by (simp add: local_to_def)
  have live: "t \<notin> set (live_all s r)" if "base s r \<noteq> None"
    using live_flag [OF R(3) disjI1 [OF that], of t] idle by (auto simp: flag_ok_def)
  show ?thesis
  proof (rule local_step [OF inv l])
    show "lock_ok ?s r" using R(1) hold by (auto simp: lock_ok_def c(2))
    show "holder_ok ?s r" by (rule holder_frame [OF R(2,1)]) (use hold other [of "sy_holder s r"] in \<open>auto simp: c(2)\<close>)
    show "batch_ok (sy_phase ?s r) (sy_rep ?s r)" using batch_ctx [OF R(3) idle(1) t(1) T(5)] by (simp add: c(2))
    show "data_ok D d0 ?s r"
      by (rule data_local [OF R(4)]) (use R(4) hold in \<open>simp_all add: data_ok_def target_def c(2)\<close>)
    show "own_ok ?s r"
    proof (rule own_local [OF R(6) l])
      fix x assume "0 < x" "answers (ctx s r x) \<noteq> []"
      then show "answers (ctx ?s r x) \<noteq> []" using other [of x] idle by (cases "x = t") simp_all
    qed (use live in \<open>auto simp: c(2)\<close>)
    fix x :: nat assume x: "0 < x"
    have "pc_ctx D d0 ?s r t (Try oper n)" using new here by simp
    then show "thread_ok D d0 ?s r x \<or> ctx ?s r x = ctx s r x \<and> sy_pc ?s r x = sy_pc s r x"
      using other [OF x] here new(1) T(4) p(1) t by (cases "x = t") (auto simp: thread_ok_def c(2))
  qed (use t in \<open>simp_all add: c(2)\<close>)
qed

section \<open>Steps of the combiner\<close>

abbreviation foreign_phase :: "phase \<Rightarrow> bool" where
  "foreign_phase ph \<equiv> ph = Syncing \<or> ph = Synced"

lemma phase_step:
  assumes inv: "nr_inv k N D d0 s" "r < k"
    and old: "sy_phase s r \<noteq> Unlocked" "foreign_phase (sy_phase s r) = foreign_phase ph" and ph: "ph \<noteq> Unlocked" "ph \<noteq> Broken"
    and rep: "combiner rep = combiner (sy_rep s r)" "contexts rep = contexts (sy_rep s r)" "rep_next rep = rep_next (sy_rep s r)"
      "length (inflight rep) = length (inflight (sy_rep s r))" "wlock (rep_data rep) = writing ph"
      "rw_data (rep_data rep) = rw_data (rep_data (sy_rep s r))"
    and batch: "batch_ok ph rep" "base_of ph (pcs (sy_log s) r) = base s r"
      "base s r \<noteq> None \<Longrightarrow> inflight rep = inflight (sy_rep s r) \<and> buffer rep = buffer (sy_rep s r) \<and> results rep = results (sy_rep s r)
         \<and> answered_of ph = answered_of (sy_phase s r)"
    and data: "pc_fits (buffer rep) ph (pcs (sy_log s) r)" "published_to (length (buffer rep)) ph (ccommit (sy_log s)) (ran_to s r)"
      "reaches (target s r) ph (pcs (sy_log s) r) (ran_to s r)" "\<And>n. ph = Appending n \<Longrightarrow> base s r = None \<Longrightarrow> results rep = []"
    and hold: "holder_ok (set_phase (set_rep s r rep) r ph) r"
  shows "nr_inv k N D d0 (set_phase (set_rep s r rep) r ph)"
proof -
  note R = rep_invD [OF sys_invD(1) [OF inv]]
  let ?s = "set_phase (set_rep s r rep) r ph"
  have l: "local_to r s ?s" by (simp add: local_to_def)
  show ?thesis
  proof (rule local_step [OF inv l])
    show "lock_ok ?s r" using R(1) old ph rep by (auto simp: lock_ok_def split: if_splits)
    show "data_ok D d0 ?s r" by (rule data_local [OF R(4)]) (use batch(2,3) rep data in \<open>auto simp: target_def\<close>)
    show "own_ok ?s r" by (rule own_local [OF R(6) l]) (use batch(2,3) rep in auto)
  qed (use hold batch(1) rep in auto)
qed

lemma holder_known:
  assumes "nr_inv k N D d0 s" "r < k" "sy_phase s r \<noteq> Unlocked" "\<not> foreign_phase (sy_phase s r)"
  shows "0 < sy_holder s r" "waiting (sy_pc s r (sy_holder s r))" "sy_holder s r < rep_next (sy_rep s r)"
proof -
  note R = rep_invD [OF sys_invD(1) [OF assms(1,2)]]
  show h: "0 < sy_holder s r" "waiting (sy_pc s r (sy_holder s r))" using R(1) assms(3,4) by (auto simp: lock_ok_def)
  then show "sy_holder s r < rep_next (sy_rep s r)" using thread_known [OF R(5)] by (metis waiting.simps(5))
qed

lemma target_bound:
  assumes "nr_inv k N D d0 s" "r < k" "sy_phase s r \<noteq> Unlocked" "\<not> foreign_phase (sy_phase s r)"
  shows "target s r \<le> ccommit (sy_log s)"
proof -
  note h = holder_known [OF assms]
  show ?thesis using thread_ctx(3) [OF assms(1,2) h(1,3)] by (cases "sy_pc s r (sy_holder s r)") (simp_all add: target_def)
qed

lemma live_empty [simp]: "live f 1 = []"
  by (simp add: live_def)

lemma count_inv:
  assumes inv: "nr_inv k N D d0 s" "r < k" and ph: "sy_phase s r = Acquired"
  shows "nr_inv k N D d0 (set_phase (set_rep s r ((sy_rep s r)\<lparr>results := [], buffer := []\<rparr>)) r (Counted (rep_next (sy_rep s r))))"
proof -
  note R = rep_invD [OF sys_invD(1) [OF inv]]
  show ?thesis
    by (rule phase_step [OF inv]) (use R(1,3,4) ph in \<open>auto simp: lock_ok_def batch_ok_def data_ok_def pc_fits_def published_to_def reaches_def holder_ok_def\<close>)
qed

lemma collect_start_inv:
  assumes inv: "nr_inv k N D d0 s" "r < k" and ph: "sy_phase s r = Counted n"
  shows "nr_inv k N D d0 (set_phase s r (Gather n (rep_next (sy_rep s r)) 1))"
proof -
  note R = rep_invD [OF sys_invD(1) [OF inv]]
  have "nr_inv k N D d0 (set_phase (set_rep s r (sy_rep s r)) r (Gather n (rep_next (sy_rep s r)) 1))"
    by (rule phase_step [OF inv])
      (use R(1,3,4) ph holder_known [OF inv] in \<open>auto simp: lock_ok_def batch_ok_def data_ok_def pc_fits_def published_to_def reaches_def holder_ok_def\<close>)
  then show ?thesis by simp
qed

lemma collect_single:
  assumes "ctx_inv (cs ! (i - 1))" "i - 1 < length cs" "i - 1 < length operations"
  shows "collect_thread_ops [i] cs buf operations =
    Inr (buf @ map fst (pending_ops (cs ! (i - 1))), operations[i - 1 := length (pending_ops (cs ! (i - 1)))])"
proof -
  let ?c = "cs ! (i - 1)"
  obtain it where it: "context_iter ?c = Inr it" "iterator_len it = length (pending_ops ?c)"
    using ctx_invD(3) [OF assms(1)] by (simp add: context_iter_def iterator_len_def pending_ops_def Let_def not_less)
  then have "iter_collect (iterator_len it) it = Inr (pending_ops ?c)"
    using context_items_spec [OF assms(1)] by (simp add: context_items_def)
  then show ?thesis using assms(2,3) it by simp
qed

lemma live_Suc: "1 \<le> i \<Longrightarrow> live f (i + 1) = live f i @ (if f ! (i - 1) \<noteq> 0 then [i] else [])"
  using upt_Suc_append [of 1 i] by (simp add: live_def flip: Suc_eq_plus1)

lemma live_update: "b \<le> i \<Longrightarrow> live (f[i - 1 := x]) b = live f b"
  unfolding live_def by (rule filter_cong) (auto simp: nth_list_update)

lemma op_of_update [simp]: "op_of (rep\<lparr>buffer := b, inflight := f\<rparr>) = op_of rep"
  by (simp add: op_of_def fun_eq_iff)

text \<open>What a context can hold: nothing, one operation, or one response.\<close>

lemma ctx_cases:
  assumes "nr_inv k N D d0 s" "r < k" "0 < t" "t \<le> MAX_THREADS_PER_REPLICA"
  shows "pending_ops (ctx s r t) = [] \<or> (\<exists>oper. pending_ops (ctx s r t) = [(oper, ())] \<and> answers (ctx s r t) = []
    \<and> pending_write (sy_pc s r t) = Some oper \<and> (\<exists>n. sy_pc s r t \<in> {Try oper n, Poll oper n}))"
proof -
  have "pc_ctx D d0 s r t (sy_pc s r t)"
    using rep_invD(5) [OF sys_invD(1) [OF assms(1,2)], of t] assms(3,4) by (simp add: thread_ok_def)
  then show ?thesis by (cases "sy_pc s r t") (auto simp: wait_ok_def idle_ctx_def)
qed

lemma collect_one_inv:
  assumes inv: "nr_inv k N D d0 s" "r < k" and ph: "sy_phase s r = Gather n m i" "i < m"
    and step: "collect_thread_ops [i] (contexts (sy_rep s r)) (buffer (sy_rep s r)) (inflight (sy_rep s r)) = Inr (buf, operations)"
  shows "nr_inv k N D d0 (set_phase (set_rep s r ((sy_rep s r)\<lparr>buffer := buf, inflight := operations\<rparr>)) r (Gather n m (i + 1)))"
proof -
  note R = rep_invD [OF sys_invD(1) [OF inv]]
  let ?rep = "(sy_rep s r)\<lparr>buffer := buf, inflight := operations\<rparr>"
  have b: "n = m" "m \<le> rep_next (sy_rep s r)" "1 \<le> i" "results (sy_rep s r) = []"
    "buffer (sy_rep s r) = map (op_of (sy_rep s r)) (live (inflight (sy_rep s r)) i)"
    "\<forall>t\<in>set (live (inflight (sy_rep s r)) i). flag_ok (sy_rep s r) t"
    "\<And>t. m \<le> t \<Longrightarrow> t \<le> MAX_THREADS_PER_REPLICA \<Longrightarrow> inflight (sy_rep s r) ! (t - 1) = 0"
    using R(3) ph by (auto simp: batch_ok_def)
  have i: "0 < i" "i \<le> MAX_THREADS_PER_REPLICA" using ph(2) b(2,3) R(1) by (auto simp: lock_ok_def)
  have len: "i - 1 < length (contexts (sy_rep s r))" "i - 1 < length (inflight (sy_rep s r))" using i R(1) by (auto simp: lock_ok_def)
  have "ctx_inv (ctx s r i)" using R(5) [of i] i by (simp add: thread_ok_def)
  from collect_single [OF this len] step have new: "buf = buffer (sy_rep s r) @ map fst (pending_ops (ctx s r i))"
    "operations = (inflight (sy_rep s r))[i - 1 := length (pending_ops (ctx s r i))]" by auto
  have old: "live operations i = live (inflight (sy_rep s r)) i" by (simp add: new(2) live_update)
  have at_i: "operations ! (i - 1) = length (pending_ops (ctx s r i))" using len by (simp add: new(2))
  have keep: "flag_ok ?rep t" if "t \<in> set (live (inflight (sy_rep s r)) i)" for t
    using b(6) that by (auto simp: flag_ok_def new(2) nth_list_update live_def)
  have "buf = map (op_of (sy_rep s r)) (live operations (i + 1)) \<and> (\<forall>t\<in>set (live operations (i + 1)). flag_ok ?rep t)"
    using ctx_cases [OF inv i] b(5) keep at_i
    by (auto simp: live_Suc [OF b(3)] old new(1) flag_ok_def op_of_def)
  moreover have "\<forall>t. m \<le> t \<longrightarrow> t \<le> MAX_THREADS_PER_REPLICA \<longrightarrow> operations ! (t - 1) = 0" 
  proof (intro allI impI)
    fix t assume t: "m \<le> t" "t \<le> MAX_THREADS_PER_REPLICA"
    then have "i - 1 \<noteq> t - 1" using ph(2) b(3) by linarith
    then show "operations ! (t - 1) = 0" using b(7) [OF t] by (simp add: new(2))
  qed
  ultimately have batch: "batch_ok (Gather n m (i + 1)) ?rep" using b ph(2) by (auto simp: batch_ok_def)
  have "sy_holder s r \<in> set (live operations (i + 1))"
    if "sy_holder s r < i + 1" "busy s r"
  proof (cases "sy_holder s r = i")
    case True
    then show ?thesis using that(2) at_i by (simp add: busy_def live_Suc [OF b(3)])
  next
    case False
    then show ?thesis using R(2) ph(1) that old by (auto simp: holder_ok_def live_Suc [OF b(3)])
  qed
  then have "holder_ok (set_phase (set_rep s r ?rep) r (Gather n m (i + 1))) r" using R(2) ph(1) by (auto simp: holder_ok_def busy_def)
  then show ?thesis
    by (intro phase_step [OF inv] batch)
      (use R(1,4) ph new(2) in \<open>auto simp: lock_ok_def data_ok_def pc_fits_def published_to_def reaches_def\<close>)
qed

lemma write_locked: "rw_write n lk = Inr lk' \<Longrightarrow> lk' = lk\<lparr>wlock := True\<rparr>"
  by (auto simp: rw_write_def Let_def split: if_splits)

lemma write_unlocked: "rw_write_unlock False lk = Inr lk' \<Longrightarrow> lk' = lk\<lparr>wlock := False\<rparr>"
  by (auto simp: rw_write_unlock_def split: if_splits)

lemma collected_cong:
  assumes "contexts rep' = contexts rep" "inflight rep' = inflight rep"
  shows "op_of rep' = op_of rep" "flag_ok rep' = flag_ok rep"
    "buffer rep' = buffer rep \<Longrightarrow> rep_next rep \<le> rep_next rep' \<Longrightarrow> collected rep n a j \<Longrightarrow> collected rep' n a j"
proof -
  show c: "op_of rep' = op_of rep" "flag_ok rep' = flag_ok rep" using assms by (simp_all add: op_of_def flag_ok_def fun_eq_iff)
  show "collected rep' n a j" if "buffer rep' = buffer rep" "rep_next rep \<le> rep_next rep'" "collected rep n a j"
    using that c assms by (simp add: collected_def)
qed

lemma batch_cong:
  assumes "batch_ok ph rep" "contexts rep' = contexts rep" "inflight rep' = inflight rep" "buffer rep' = buffer rep"
    "rep_next rep \<le> rep_next rep'" "results rep' = results rep \<or> (\<exists>n. ph = Appending n) \<or> (\<exists>n b. ph = Appended n b) \<or> (\<exists>n b gc. ph = Executing n b gc)"
    "rep_next rep = rep_next rep' \<or> (\<forall>n. ph \<noteq> Counted n)"
  shows "batch_ok ph rep'"
  using assms collected_cong [OF assms(2,3)] by (auto simp: batch_ok_def split: phase.splits)

lemma append_start_inv:
  assumes inv: "nr_inv k N D d0 s" "r < k" and ph: "sy_phase s r = Gather n m i" "m \<le> i"
    and step: "rw_write n (rep_data (sy_rep s r)) = Inr lk"
  shows "nr_inv k N D d0 (set_phase (set_rep s r ((sy_rep s r)\<lparr>rep_data := lk\<rparr>)) r (Appending n))"
proof -
  note R = rep_invD [OF sys_invD(1) [OF inv]]
  let ?f = "inflight (sy_rep s r)"
  have b: "n = m" "m \<le> rep_next (sy_rep s r)" "1 \<le> m" "i = m" "results (sy_rep s r) = []"
    "buffer (sy_rep s r) = map (op_of (sy_rep s r)) (live ?f m)"
    "\<forall>t\<in>set (live ?f m). flag_ok (sy_rep s r) t"
    "\<And>t. m \<le> t \<Longrightarrow> t \<le> MAX_THREADS_PER_REPLICA \<Longrightarrow> ?f ! (t - 1) = 0"
    using R(3) ph by (auto simp: batch_ok_def)
  have "m \<le> MAX_THREADS_PER_REPLICA + 1" using R(1) b(2) by (simp add: lock_ok_def)
  then have "live ?f (MAX_THREADS_PER_REPLICA + 1) = live ?f m @ filter (\<lambda>t. ?f ! (t - 1) \<noteq> 0) [m..<MAX_THREADS_PER_REPLICA + 1]"
    using upt_add_eq_append [of 1 m "MAX_THREADS_PER_REPLICA + 1 - m"] b(3) by (simp add: live_def)
  moreover have "filter (\<lambda>t. ?f ! (t - 1) \<noteq> 0) [m..<MAX_THREADS_PER_REPLICA + 1] = []" using b(8) by (auto simp: filter_empty_conv)
  ultimately have live: "live ?f (MAX_THREADS_PER_REPLICA + 1) = live ?f m" by simp
  have "collected (sy_rep s r) n 1 0" using b live by (auto simp: collected_def live_def)
  then have batch: "batch_ok (Appending n) (sy_rep s r)" using R(3) ph(1) by (simp add: batch_ok_def)
  show ?thesis
  proof (rule phase_step [OF inv])
    show "batch_ok (Appending n) ((sy_rep s r)\<lparr>rep_data := lk\<rparr>)" by (rule batch_cong [OF batch]) simp_all
    show "holder_ok (set_phase (set_rep s r ((sy_rep s r)\<lparr>rep_data := lk\<rparr>)) r (Appending n)) r"
      using R(2) ph(1) b(4) live by (auto simp: holder_ok_def busy_def)
  qed (use R(1,4) ph(1) b(5) write_locked [OF step] in \<open>auto simp: lock_ok_def data_ok_def pc_fits_def published_to_def reaches_def\<close>)
qed

lemma relock_inv:
  assumes inv: "nr_inv k N D d0 s" "r < k" and lk: "lk = (rep_data (sy_rep s r))\<lparr>wlock := w\<rparr>"
    and ph: "sy_phase s r = Appending n \<and> pcs (sy_log s) r = Idle \<and> ph = NoSpace \<and> \<not> w
      \<or> sy_phase s r = Appended n b \<and> pcs (sy_log s) r = Idle \<and> ph = Between n b gc \<and> \<not> w
      \<or> sy_phase s r = Between n b gc \<and> ph = Executing n b gc \<and> w
      \<or> sy_phase s r = Executing n b gc \<and> pcs (sy_log s) r = Idle \<and> cltails (sy_log s) r = ccommit (sy_log s) \<and> ph = Unlocking n b gc \<and> w
      \<or> sy_phase s r = Unlocking n b gc \<and> ph = Answering n b gc 1 0 \<and> \<not> w
      \<or> sy_phase s r = NoSpace \<and> ph = Acquired \<and> \<not> w
      \<or> sy_phase s r = Syncing \<and> pcs (sy_log s) r = Idle \<and> ph = Synced \<and> w"
  shows "nr_inv k N D d0 (set_phase (set_rep s r ((sy_rep s r)\<lparr>rep_data := lk\<rparr>)) r ph)"
proof -
  note R = rep_invD [OF sys_invD(1) [OF inv]]
  have "batch_ok ph (sy_rep s r)" using R(3) ph by (elim disjE) (auto simp: batch_ok_def collected_def)
  then have batch: "batch_ok ph ((sy_rep s r)\<lparr>rep_data := lk\<rparr>)" by (rule batch_cong) simp_all
  have goal: "target s r \<le> ccommit (sy_log s)" if "sy_phase s r \<noteq> Syncing"
    using target_bound [OF inv] that ph by (elim disjE) auto
  show ?thesis
  proof (rule phase_step [OF inv])
    show "pc_fits (buffer ((sy_rep s r)\<lparr>rep_data := lk\<rparr>)) ph (pcs (sy_log s) r)"
      using R(4) ph by (elim disjE) (auto simp: data_ok_def pc_fits_def)
    show "published_to (length (buffer ((sy_rep s r)\<lparr>rep_data := lk\<rparr>))) ph (ccommit (sy_log s)) (ran_to s r)"
      using R(4) ph by (elim disjE) (auto simp: data_ok_def published_to_def)
    show "reaches (target s r) ph (pcs (sy_log s) r) (ran_to s r)"
      using R(4) ph goal by (elim disjE) (auto simp: data_ok_def reaches_def pc_fits_def)
    show "holder_ok (set_phase (set_rep s r ((sy_rep s r)\<lparr>rep_data := lk\<rparr>)) r ph) r"
      using R(2) ph by (elim disjE) (auto simp: holder_ok_def busy_def)
    show "base_of ph (pcs (sy_log s) r) = base s r" using ph by (elim disjE) auto
    show "results ((sy_rep s r)\<lparr>rep_data := lk\<rparr>) = []" if "ph = Appending n'" for n' using that ph by auto
  qed (use R(1) ph lk batch in auto)
qed

lemma register_inv:
  assumes inv: "nr_inv k N D d0 s" "r < k" and ph: "\<forall>n. sy_phase s r \<noteq> Counted n"
    and step: "replica_register 0 (sy_rep s r) = (Some t, rep)"
  shows "nr_inv k N D d0 (set_rep s r rep)"
proof -
  note R = rep_invD [OF sys_invD(1) [OF inv]]
  let ?s = "set_rep s r rep"
  have rep: "rep = (sy_rep s r)\<lparr>rep_next := rep_next (sy_rep s r) + 1\<rparr>" "rep_next (sy_rep s r) \<le> MAX_THREADS_PER_REPLICA"
    using step by (auto simp: Let_def split: if_splits)
  have l: "local_to r s ?s" by (simp add: local_to_def)
  show ?thesis
  proof (rule local_step [OF inv l])
    show "lock_ok ?s r" using R(1) rep by (auto simp: lock_ok_def)
    show "holder_ok ?s r" by (rule holder_frame [OF R(2,1)]) (simp_all add: rep(1))
    show "batch_ok (sy_phase ?s r) (sy_rep ?s r)" using batch_cong [OF R(3), of rep] ph by (simp add: rep(1))
    show "data_ok D d0 ?s r" by (rule data_local [OF R(4)]) (use R(4) in \<open>simp_all add: rep(1) data_ok_def target_def\<close>)
    show "own_ok ?s r" by (rule own_local [OF R(6) l]) (simp_all add: rep(1))
  qed (simp_all add: rep(1))
qed

lemma unlocked_facts:
  assumes inv: "nr_inv k N D d0 s" "r < k" and step: "acquire_combiner_lock True (sy_rep s r) = (True, rep)"
  shows "rep = (sy_rep s r)\<lparr>combiner := 1\<rparr>" "sy_phase s r = Unlocked" "sy_holder s r = 0" "pcs (sy_log s) r = Idle"
proof -
  note R = rep_invD [OF sys_invD(1) [OF inv]]
  show rep: "rep = (sy_rep s r)\<lparr>combiner := 1\<rparr>" using step by (auto simp: acquire_combiner_lock_def split: if_splits)
  have "combiner (sy_rep s r) = 0" using step by (auto simp: acquire_combiner_lock_def split: if_splits)
  then show ph: "sy_phase s r = Unlocked" using R(1) by (auto simp: lock_ok_def)
  then show "sy_holder s r = 0" "pcs (sy_log s) r = Idle" using R(1,4) by (auto simp: lock_ok_def data_ok_def pc_fits_def)
qed

lemma take_lock_inv:
  assumes inv: "nr_inv k N D d0 s" "r < k" and step: "acquire_combiner_lock True (sy_rep s r) = (True, rep)"
    and t: "wants_lock lt (sy_pc s r t)"
  shows "nr_inv k N D d0 (set_holder (set_phase (set_rep s r rep) r Acquired) r t)" (is "nr_inv k N D d0 ?s")
proof -
  note R = rep_invD [OF sys_invD(1) [OF inv]]
  note U = unlocked_facts [OF inv step]
  have l: "local_to r s ?s" by (simp add: local_to_def)
  have w: "waiting (sy_pc s r t)" "0 < t" using t thread_known [OF R(5), of t] by (cases "sy_pc s r t"; simp)+
  show ?thesis
  proof (rule local_step [OF inv l])
    show "lock_ok ?s r" using R(1) w U by (simp add: lock_ok_def)
    show "holder_ok ?s r" by (simp add: holder_ok_def)
    show "batch_ok (sy_phase ?s r) (sy_rep ?s r)" using R(3) U(2) by (simp add: batch_ok_def U(1))
    show "data_ok D d0 ?s r" by (rule data_local [OF R(4)]) (use U in \<open>simp_all add: pc_fits_def published_to_def reaches_def\<close>)
    show "own_ok ?s r" by (rule own_local [OF R(6) l]) (use U in simp_all)
  qed (simp_all add: U(1))
qed

lemma sync_start_inv:
  assumes inv: "nr_inv k N D d0 s" "r < k" and step: "acquire_combiner_lock True (sy_rep s r) = (True, rep)"
    and lk: "rw_write n (rep_data rep) = Inr lk"
  shows "nr_inv k N D d0 (set_phase (set_rep s r (rep\<lparr>rep_data := lk\<rparr>)) r Syncing)" (is "nr_inv k N D d0 ?s")
proof -
  note R = rep_invD [OF sys_invD(1) [OF inv]]
  note U = unlocked_facts [OF inv step]
  note lk' = write_locked [OF lk]
  have l: "local_to r s ?s" by (simp add: local_to_def)
  show ?thesis
  proof (rule local_step [OF inv l])
    show "lock_ok ?s r" using R(1) U by (simp add: lock_ok_def lk')
    show "holder_ok ?s r" by (simp add: holder_ok_def)
    show "batch_ok (sy_phase ?s r) (sy_rep ?s r)" using R(3) U(2) by (simp add: batch_ok_def U(1))
    show "data_ok D d0 ?s r" by (rule data_local [OF R(4)]) (use U in \<open>simp_all add: pc_fits_def published_to_def reaches_def lk'\<close>)
    show "own_ok ?s r" by (rule own_local [OF R(6) l]) (use U in simp_all)
  qed (simp_all add: U(1))
qed

lemma sync_done_inv:
  assumes inv: "nr_inv k N D d0 s" "r < k" and ph: "sy_phase s r = Synced" and lk: "rw_write_unlock False (rep_data (sy_rep s r)) = Inr lk"
  shows "nr_inv k N D d0 (set_phase (set_rep s r (combiner_drop ((sy_rep s r)\<lparr>rep_data := lk\<rparr>))) r Unlocked)" (is "nr_inv k N D d0 ?s")
proof -
  note R = rep_invD [OF sys_invD(1) [OF inv]]
  note lk' = write_unlocked [OF lk]
  have l: "local_to r s ?s" by (simp add: local_to_def)
  show ?thesis
  proof (rule local_step [OF inv l])
    show "lock_ok ?s r" using R(1) ph by (simp add: lock_ok_def lk' combiner_drop_def)
    show "holder_ok ?s r" by (simp add: holder_ok_def)
    show "batch_ok (sy_phase ?s r) (sy_rep ?s r)" using R(3) ph by (simp add: batch_ok_def combiner_drop_def)
    show "data_ok D d0 ?s r"
      by (rule data_local [OF R(4)]) (use R(4) ph in \<open>simp_all add: data_ok_def pc_fits_def published_to_def reaches_def lk' combiner_drop_def\<close>)
    show "own_ok ?s r" by (rule own_local [OF R(6) l]) (use ph in \<open>simp_all add: combiner_drop_def\<close>)
  qed (simp_all add: combiner_drop_def)
qed

lemma answering_facts:
  assumes inv: "nr_inv k N D d0 s" "r < k" and ph: "sy_phase s r = Answering n b gc i j"
  shows "pcs (sy_log s) r = Idle" "batch_end b (length (buffer (sy_rep s r))) \<le> ran_to s r" "ran_to s r \<le> cctail (sy_log s)" "collected (sy_rep s r) n i j" "1 \<le> i" "i \<le> n"
    "map Inr (results (sy_rep s r)) = map (seq_resp D d0 (hist (sy_log s))) [b..<b + length (buffer (sy_rep s r))]"
    "\<And>x. x < length (buffer (sy_rep s r)) \<Longrightarrow> hist (sy_log s) ! (b + x) = (buffer (sy_rep s r) ! x, r + 1)"
    "\<And>p. ran_to s r \<le> p \<Longrightarrow> p < length (hist (sy_log s)) \<Longrightarrow> snd (hist (sy_log s) ! p) \<noteq> r + 1"
    "target s r \<le> ran_to s r"
proof -
  note R = rep_invD [OF sys_invD(1) [OF inv]]
  show pc: "pcs (sy_log s) r = Idle" using R(4) ph by (simp add: data_ok_def pc_fits_def)
  show e: "batch_end b (length (buffer (sy_rep s r))) \<le> ran_to s r" using R(4) ph by (simp add: data_ok_def published_to_def)
  show "ran_to s r \<le> cctail (sy_log s)" using conc_invD(5) [OF nr_invG(1) [OF inv(1)] inv(2)] pc by simp
  show "collected (sy_rep s r) n i j" "1 \<le> i" "i \<le> n" using R(3) ph by (simp_all add: batch_ok_def)
  have P: "placed D d0 (hist (sy_log s)) r (ran_to s r) (Some b) (buffer (sy_rep s r)) (results (sy_rep s r))"
    using R(4) ph by (simp add: data_ok_def)
  then show "map Inr (results (sy_rep s r)) = map (seq_resp D d0 (hist (sy_log s))) [b..<b + length (buffer (sy_rep s r))]"
    "\<And>x. x < length (buffer (sy_rep s r)) \<Longrightarrow> hist (sy_log s) ! (b + x) = (buffer (sy_rep s r) ! x, r + 1)"
    using e by (auto simp: placed_def min_absorb2 batch_end_def split: if_splits)
  show "snd (hist (sy_log s) ! p) \<noteq> r + 1" if "ran_to s r \<le> p" "p < length (hist (sy_log s))" for p
  proof
    assume "snd (hist (sy_log s) ! p) = r + 1"
    then have "b \<le> p \<and> p < b + length (buffer (sy_rep s r))" using P that by (simp add: placed_def)
    then show False using e that by (auto simp: batch_end_def split: if_splits)
  qed
  show "target s r \<le> ran_to s r" using R(4) ph by (simp add: data_ok_def reaches_def)
qed

lemma after_round_ctx:
  assumes "pc_ctx D d0 s r t p" "waiting p" "pending_ops (ctx s r t) = []" "\<And>ro n ct. p = Locked ro n ct \<Longrightarrow> ct \<le> lt"
  shows "pc_ctx D d0 s r t (after_round gc lt p)" "start_of (after_round gc lt p) = start_of p" "after_round gc lt p \<noteq> Out"
  using assms by (cases p; simp)+

lemma combine_done_inv:
  assumes inv: "nr_inv k N D d0 s" "r < k" and ph: "sy_phase s r = Answering n b gc i j" "n \<le> i" and t: "t = sy_holder s r"
  shows "nr_inv k N D d0 (set_pc (set_holder (set_phase (set_rep s r (combiner_drop (sy_rep s r))) r Unlocked) r 0) r t
      (after_round gc (cltails (sy_log s) r) (sy_pc s r t)))" (is "nr_inv k N D d0 ?s")
proof -
  note R = rep_invD [OF sys_invD(1) [OF inv]]
  note A = answering_facts [OF inv ph(1)]
  have live: "live_all s r = []" using A(4) ph(2) by (cases "live_all s r") (auto simp: collected_def)
  have h: "0 < t" "waiting (sy_pc s r t)" "t < rep_next (sy_rep s r)" using holder_known [OF inv] ph(1) t by auto
  note T = thread_ctx [OF inv h(1,3)]
  have idle: "pending_ops (ctx s r t) = []" using R(2) ph(1) live t by (auto simp: holder_ok_def busy_def)
  have goal: "ct \<le> cltails (sy_log s) r" if "sy_pc s r t = Locked ro n ct" for ro n ct using A(1,10) that t by (simp add: target_def)
  note p = after_round_ctx [where gc = gc, OF T(3) h(2) idle goal]
  have l: "local_to r s ?s" by (simp add: local_to_def)
  note g = local_grows [OF inv(1) l]
  have same: "contexts (combiner_drop (sy_rep s r)) = contexts (sy_rep s r)" "inflight (combiner_drop (sy_rep s r)) = inflight (sy_rep s r)"
    "rep_next (combiner_drop (sy_rep s r)) = rep_next (sy_rep s r)" by (simp_all add: combiner_drop_def)
  show ?thesis
  proof (rule local_step [OF inv l])
    show "lock_ok ?s r" using R(1) ph(1) by (simp add: lock_ok_def combiner_drop_def)
    show "holder_ok ?s r" by (simp add: holder_ok_def)
    show "batch_ok (sy_phase ?s r) (sy_rep ?s r)" using R(3) ph(1) by (simp add: batch_ok_def combiner_drop_def)
    show "data_ok D d0 ?s r"
      using R(4) A(1,9) by (simp add: data_ok_def pc_fits_def published_to_def reaches_def placed_def combiner_drop_def)
    show "own_ok ?s r"
      using own_okD(2) [OF R(6)] live ph(1) by (auto simp: own_ok_def own_batch_ok_def same)
    fix x :: nat assume "0 < x"
    have "pc_ctx D d0 ?s r t (after_round gc (cltails (sy_log s) r) (sy_pc s r t))"
      by (rule pc_ctx_frame [OF p(1) g sys_invD(2) [OF inv]]) (use p(2) T(4) in \<open>auto simp: same\<close>)
    then show "thread_ok D d0 ?s r x \<or> ctx ?s r x = ctx s r x \<and> sy_pc ?s r x = sy_pc s r x"
      using p(2) h T by (cases "x = t") (auto simp: thread_ok_def same)
  qed (use h(1) in \<open>simp_all add: same\<close>)
qed

lemma live_sorted: "sorted (live f b)" "distinct (live f b)"
  by (simp_all add: live_def sorted_wrt_filter)

lemma live_remove:
  assumes "live f b = i # ts" "i - 1 < length f"
  shows "live (f[i - 1 := 0]) b = ts"
proof -
  have "i \<in> set (live f b)" by (simp add: assms(1))
  then have "1 \<le> i" by (simp add: live_def)
  then have "live (f[i - 1 := 0]) b = filter (\<lambda>t. t \<noteq> i) (live f b)"
    unfolding live_def filter_filter by (intro filter_cong) (use assms(2) in \<open>auto simp: nth_list_update\<close>)
  moreover have "filter (\<lambda>t. t \<noteq> i) ts = ts" using live_sorted(2) [of f b] assms(1) by (auto simp: filter_id_conv)
  ultimately show ?thesis using assms(1) by simp
qed

lemma live_first:
  assumes "\<forall>t\<in>set (live f b). i \<le> t" "i \<in> set (live f b)"
  shows "\<exists>ts. live f b = i # ts"
proof (cases "live f b")
  case (Cons x ts)
  then have "x \<le> i" using assms(2) live_sorted(1) [of f b] by auto
  then show ?thesis using assms(1) Cons by auto
qed (use assms(2) in simp)

lemma answer_skip_inv:
  assumes inv: "nr_inv k N D d0 s" "r < k" and ph: "sy_phase s r = Answering n b gc i j" "i < n"
    and none: "inflight (sy_rep s r) ! (i - 1) = 0"
  shows "nr_inv k N D d0 (set_phase s r (Answering n b gc (i + 1) j))"
proof -
  note R = rep_invD [OF sys_invD(1) [OF inv]]
  note A = answering_facts [OF inv ph(1)]
  have "i \<notin> set (live_all s r)" using none by (simp add: live_def)
  then have "i + 1 \<le> x" if "x \<in> set (live_all s r)" for x using A(4) that by (cases "x = i") (auto simp: collected_def)
  then have "collected (sy_rep s r) n (i + 1) j" using A(4) by (simp add: collected_def)
  then have batch: "batch_ok (Answering n b gc (i + 1) j) (sy_rep s r)" using R(3) ph by (simp add: batch_ok_def)
  have "nr_inv k N D d0 (set_phase (set_rep s r (sy_rep s r)) r (Answering n b gc (i + 1) j))"
    by (intro phase_step [OF inv] batch)
      (use R(1,2,4) ph(1) in \<open>auto simp: lock_ok_def data_ok_def pc_fits_def published_to_def reaches_def holder_ok_def busy_def\<close>)
  then show ?thesis by simp
qed

text \<open>The answer of one thread of the batch.\<close>

lemma answer_facts:
  assumes inv: "nr_inv k N D d0 s" "r < k" and ph: "sy_phase s r = Answering n b gc i j" "i < n"
    and some: "inflight (sy_rep s r) ! (i - 1) \<noteq> 0"
  obtains ts oper m where "live_all s r = i # ts" "j < length (buffer (sy_rep s r))" "length (results (sy_rep s r)) = length (buffer (sy_rep s r))"
    "i \<le> MAX_THREADS_PER_REPLICA" "inflight (sy_rep s r) ! (i - 1) = 1"
    "pending_ops (ctx s r i) = [(oper, ())]" "answers (ctx s r i) = []" "sy_pc s r i \<in> {Try oper m, Poll oper m}"
    "answer_ok D d0 s r i oper m (results (sy_rep s r) ! j)"
proof -
  note R = rep_invD [OF sys_invD(1) [OF inv]]
  note A = answering_facts [OF inv ph(1)]
  let ?rep = "sy_rep s r"
  have C: "drop j (buffer ?rep) = map (op_of ?rep) (live_all s r)" "\<forall>t\<in>set (live_all s r). i \<le> t \<and> t < n \<and> flag_ok ?rep t" "n \<le> rep_next ?rep"
    using A(4) by (auto simp: collected_def)
  have i: "0 < i" "i \<le> MAX_THREADS_PER_REPLICA" using A(5) ph(2) C(3) R(1) by (auto simp: lock_ok_def)
  then have "i \<in> set (live_all s r)" using some by (auto simp: live_def)
  then obtain ts where ts: "live_all s r = i # ts" using live_first C(2) by blast
  then have j: "j < length (buffer ?rep)" using C(1) by (cases "j < length (buffer ?rep)") simp_all
  have f: "flag_ok ?rep i" using C(2) ts by simp
  then obtain oper where o: "pending_ops (ctx s r i) = [(oper, ())]" "inflight ?rep ! (i - 1) = 1" by (auto simp: flag_ok_def)
  with ctx_cases [OF inv i] obtain m where m: "answers (ctx s r i) = []" "sy_pc s r i \<in> {Try oper m, Poll oper m}" by auto
  have buf: "buffer ?rep ! j = oper" using C(1) ts o(1) Cons_nth_drop_Suc [OF j] by (auto simp: op_of_def)
  have OB: "b + length (buffer ?rep) \<le> length (sy_own s)"
    "drop (b + j) (take (b + length (buffer ?rep)) (sy_own s)) = call_id s r i # map (call_id s r) ts"
    "follows (sy_calls s) (start_of (sy_pc s r i)) b"
    using own_okD(1) [OF R(6)] ph(1) ts by (simp_all add: own_batch_ok_def)
  have own: "sy_own s ! (b + j) = call_id s r i"
    using arg_cong [OF OB(2), of hd] OB(1) j by (simp add: hd_drop_conv_nth)
  have len: "length (results ?rep) = length (buffer ?rep)" using arg_cong [OF A(7), of length] by simp
  have resp: "seq_resp D d0 (hist (sy_log s)) (b + j) = Inr (results ?rep ! j)"
    using arg_cong [OF A(7), of "\<lambda>xs. xs ! j"] j len by simp
  have "follows (sy_calls s) m (b + j)" using OB(3) m(2) by (auto intro: follows_le)
  then have "answer_ok D d0 s r i oper m (results ?rep ! j)"
    unfolding answer_ok_def using A(2,3) A(8) [OF j] buf j own resp by (intro exI [of _ "b + j"]) (auto simp: batch_end_def split: if_splits)
  then show ?thesis using that ts j len i(2) o m by blast
qed

lemma answer_inv:
  assumes inv: "nr_inv k N D d0 s" "r < k" and ph: "sy_phase s r = Answering n b gc i j" "i < n"
    and some: "inflight (sy_rep s r) ! (i - 1) \<noteq> 0"
    and rep: "rep = (sy_rep s r)\<lparr>inflight := (inflight (sy_rep s r))[i - 1 := 0],
      contexts := (contexts (sy_rep s r))[i - 1 := context_enqueue_resp (results (sy_rep s r) ! j) (ctx s r i)]\<rparr>"
  shows "nr_inv k N D d0 (set_phase (set_rep s r rep) r (Answering n b gc (i + 1) (j + 1)))" (is "nr_inv k N D d0 ?s")
proof -
  note R = rep_invD [OF sys_invD(1) [OF inv]]
  note A = answering_facts [OF inv ph(1)]
  from answer_facts [OF inv ph some] obtain ts oper m where F: "live_all s r = i # ts" "j < length (buffer (sy_rep s r))"
    "i \<le> MAX_THREADS_PER_REPLICA" "pending_ops (ctx s r i) = [(oper, ())]" "answers (ctx s r i) = []" "sy_pc s r i \<in> {Try oper m, Poll oper m}"
    "answer_ok D d0 s r i oper m (results (sy_rep s r) ! j)" by metis
  have C: "drop j (buffer (sy_rep s r)) = map (op_of (sy_rep s r)) (i # ts)" "\<forall>t\<in>set (i # ts). i \<le> t \<and> t < n \<and> flag_ok (sy_rep s r) t" "n \<le> rep_next (sy_rep s r)"
    using A(4) F(1) by (auto simp: collected_def)
  have len: "i - 1 < length (inflight (sy_rep s r))" "i - 1 < length (contexts (sy_rep s r))" "0 < i" using R(1) F(3) A(5) by (auto simp: lock_ok_def)
  have T: "ctx_inv (ctx s r i)" "i < rep_next (sy_rep s r)" using R(5) [of i] F(3) len(3) C(2,3) by (auto simp: thread_ok_def)
  let ?c = "context_enqueue_resp (results (sy_rep s r) ! j) (ctx s r i)"
  have c: "ctx_inv ?c" "pending_ops ?c = []" "answers ?c = [results (sy_rep s r) ! j]" using cb.put_ok [OF T(1)] F(4,5) by auto
  have here: "contexts rep ! (i - 1) = ?c" and other: "\<And>x. 0 < x \<Longrightarrow> x \<noteq> i \<Longrightarrow> contexts rep ! (x - 1) = ctx s r x"
    using len by (auto simp: rep nth_list_update)
  have ts: "live (inflight rep) (MAX_THREADS_PER_REPLICA + 1) = ts" using live_remove [OF F(1) len(1)] by (simp add: rep)
  have pos: "0 < x \<and> x \<noteq> i \<and> i + 1 \<le> x" if "x \<in> set ts" for x
    using that C(2) live_sorted(2) [of "inflight (sy_rep s r)" "MAX_THREADS_PER_REPLICA + 1"] F(1) len(3) by (cases "x = i") auto
  have flags: "flag_ok rep x" "op_of rep x = op_of (sy_rep s r) x" if "x \<in> set ts" for x
    using C(2) pos [OF that] other [of x] that len(3) by (auto simp: flag_ok_def op_of_def rep nth_list_update)
  have "drop (j + 1) (buffer (sy_rep s r)) = map (op_of (sy_rep s r)) ts" using C(1) Cons_nth_drop_Suc [OF F(2)] by (simp flip: Suc_eq_plus1)
  moreover have "buffer rep = buffer (sy_rep s r)" "rep_next rep = rep_next (sy_rep s r)" by (simp_all add: rep)
  ultimately have coll: "collected rep n (i + 1) (j + 1)"
    unfolding collected_def ts using C(2,3) ph(2) F(2) flags pos by auto
  have l: "local_to r s ?s" by (simp add: local_to_def)
  note g = local_grows [OF inv(1) l]
  show ?thesis
  proof (rule local_step [OF inv l])
    show "lock_ok ?s r" using R(1) ph(1) by (simp add: lock_ok_def rep)
    show "holder_ok ?s r"
      using R(2) ph(1) F(1) ts here c(2) other [of "sy_holder s r"] holder_known(1) [OF inv]
      by (cases "sy_holder s r = i") (auto simp: holder_ok_def busy_def)
    have "inflight rep ! (t - 1) = 0" if "rep_next rep \<le> t" "t \<le> MAX_THREADS_PER_REPLICA" for t
      using that R(3) len(1) by (cases "t - 1 = i - 1") (simp_all add: batch_ok_def rep)
    then show "batch_ok (sy_phase ?s r) (sy_rep ?s r)" using coll ph(2) by (simp add: batch_ok_def)
    show "data_ok D d0 ?s r" using R(4) ph(1) A(1) by (simp add: data_ok_def pc_fits_def published_to_def reaches_def target_def rep)
    show "own_ok ?s r"
    proof -
      have OB: "drop (b + j) (take (b + length (buffer (sy_rep s r))) (sy_own s)) = call_id s r i # map (call_id s r) ts"
        "b + length (buffer (sy_rep s r)) \<le> length (sy_own s)" "\<forall>t\<in>set ts. follows (sy_calls s) (start_of (sy_pc s r t)) b"
        using own_okD(1) [OF R(6)] ph(1) F(1) by (simp_all add: own_batch_ok_def)
      have "drop (b + (j + 1)) (take (b + length (buffer (sy_rep s r))) (sy_own s)) = map (call_id s r) ts"
        using arg_cong [OF OB(1), of tl] by (simp add: tl_drop drop_Suc flip: Suc_eq_plus1)
      then have "own_batch_ok ?s r" using OB(2,3) ts by (simp add: own_batch_ok_def rep)
      moreover have "answers (contexts rep ! (t - 1)) \<noteq> [] \<or> t \<in> set ts" if "call_id s r t \<in> set (sy_own s)" for t
        using own_okD(2) [OF R(6) that] F(1) here c(3) other [of t] by (cases "t = i") auto
      ultimately show ?thesis using own_okD(2) [OF R(6)] ts by (auto simp: own_ok_def)
    qed
    fix x :: nat assume x: "0 < x"
    have "answer_ok D d0 ?s r i oper m (results (sy_rep s r) ! j)"
      by (rule answer_frame [OF F(7) g sys_invD(2) [OF inv]]) (use R(5) [of i] F(6) in \<open>auto simp: thread_ok_def\<close>)
    then have "pc_ctx D d0 ?s r i (sy_pc s r i)" using F(6) here c(2,3) by (auto simp: wait_ok_def)
    then show "thread_ok D d0 ?s r x \<or> ctx ?s r x = ctx s r x \<and> sy_pc ?s r x = sy_pc s r x"
      using other [OF x] here c(1) R(5) [of i] by (cases "x = i") (auto simp: thread_ok_def rep)
  qed (simp_all add: rep)
qed

end
