(* ===== verification/Replica_Lin.thy ===== *)
theory Replica_Lin
  imports Replica_Local
begin

text \<open>
  The remaining steps of the concurrent object, those that return from a call and those of the log,
  keep its invariant. It follows that the object is linearizable under every interleaving of its
  threads.
\<close>

section \<open>Returning from a call\<close>

lemma explained_append:
  assumes "explained D d0 h own a" "length own = length h"
  shows "explained D d0 (h @ xs) (own @ ys) a"
  using assms by (auto simp: explained_def nth_append seq_resp_append split: call.splits)

lemma calls_append:
  assumes ok: "calls_ok D d0 s" and l: "sy_log s' = sy_log s" "sy_own s' = sy_own s"
    and c: "sy_calls s' = sy_calls s @ [a]" "sy_cnt s' = (sy_cnt s)(r := (sy_cnt s r)(t := sy_cnt s r t + 1))"
    and a: "an_id a = call_id s r t" "an_start a \<le> length (sy_calls s)" "explained D d0 (hist (sy_log s)) (sy_own s) a"
      "an_bound a \<le> cctail (sy_log s)" "follows (sy_calls s) (an_start a) (an_pos a)"
  shows "calls_ok D d0 s'"
proof -
  have fresh: "an_id a \<notin> an_id ` set (sy_calls s)" using ok unfolding calls_ok_def a(1) by blast
  have "an_start (sy_calls s' ! j) \<le> j \<and> follows (sy_calls s') (an_start (sy_calls s' ! j)) (an_pos (sy_calls s' ! j))"
    if j: "j < length (sy_calls s')" for j
  proof (cases "j < length (sy_calls s)")
    case True
    then have "an_start (sy_calls s ! j) \<le> j" "follows (sy_calls s) (an_start (sy_calls s ! j)) (an_pos (sy_calls s ! j))"
      using ok by (auto simp: calls_ok_def)
    then show ?thesis using True by (simp add: c(1) nth_append follows_append)
  next
    case False
    then have "j = length (sy_calls s)" using j by (simp add: c(1))
    then show ?thesis using a(2,5) by (simp add: c(1) follows_append)
  qed
  moreover have "x < sy_cnt s' q u" if "(q, u, x) \<in> an_id ` set (sy_calls s')" for q u x
  proof (cases "(q, u, x) \<in> an_id ` set (sy_calls s)")
    case True
    then have "x < sy_cnt s q u" using ok unfolding calls_ok_def by blast
    then show ?thesis by (auto simp: c(2))
  next
    case False
    then have "(q, u, x) = call_id s r t" using that a(1) by (auto simp: c(1))
    then show ?thesis by (simp add: c(2))
  qed
  ultimately show ?thesis using ok a fresh unfolding calls_ok_def l by (auto simp: c(1))
qed

lemma return_step:
  assumes inv: "nr_inv k N D d0 s" "r < k" and t: "0 < t" "t < rep_next (sy_rep s r)" "pending_ops (ctx s r t) = []"
    and l: "sy_log s' = sy_log s" "sy_own s' = sy_own s"
    and q: "\<And>q. q \<noteq> r \<Longrightarrow> sy_rep s' q = sy_rep s q \<and> sy_phase s' q = sy_phase s q \<and> sy_holder s' q = sy_holder s q \<and> sy_pc s' q = sy_pc s q"
    and c: "sy_calls s' = sy_calls s @ [a]" "sy_cnt s' = (sy_cnt s)(r := (sy_cnt s r)(t := sy_cnt s r t + 1))"
      "sy_pc s' r = (sy_pc s r)(t := Out)"
    and a: "an_id a = call_id s r t" "an_start a = start_of (sy_pc s r t)" "explained D d0 (hist (sy_log s)) (sy_own s) a"
      "an_bound a \<le> cctail (sy_log s)" "follows (sy_calls s) (an_start a) (an_pos a)"
    and ctxs: "\<And>x. 0 < x \<Longrightarrow> x \<noteq> t \<Longrightarrow> ctx s' r x = ctx s r x" "ctx_inv (ctx s' r t)" "idle_ctx (ctx s' r t)"
    and rep: "inflight (sy_rep s' r) = inflight (sy_rep s r)" "buffer (sy_rep s' r) = buffer (sy_rep s r)"
      "rep_next (sy_rep s' r) = rep_next (sy_rep s r)" "base s' r = base s r" "answered_of (sy_phase s' r) = answered_of (sy_phase s r)"
    and parts: "lock_ok s' r" "holder_ok s' r" "batch_ok (sy_phase s' r) (sy_rep s' r)" "data_ok D d0 s' r"
  shows "nr_inv k N D d0 s'"
proof -
  note R = rep_invD [OF sys_invD(1) [OF inv]]
  have g: "grows s s'" using nr_invG(3) [OF inv(1)] by (simp add: grows_def l c(1))
  have start: "start_of (sy_pc s r x) \<le> length (sy_calls s)" for x using R(5) [of x] by (simp add: thread_ok_def)
  have calls: "calls_ok D d0 s'" using calls_append [OF nr_invG(2) [OF inv(1)] l c(1,2) a(1) _ a(3-5)] a(2) start by simp
  have threads: "thread_ok D d0 s' r x" for x
  proof (cases "x = t \<or> x = 0")
    case True
    then show ?thesis using t(1) c(3) R(5) [of 0] ctxs(2,3) by (auto simp: thread_ok_def)
  next
    case False
    then show ?thesis
      by (intro thread_frame [OF R(5) g sys_invD(2) [OF inv]]) (use ctxs(1) [of x] rep(3) l c in auto)
  qed
  have live: "t \<notin> set (live_all s r)" if "base s r \<noteq> None"
    using live_flag [OF R(3) disjI1 [OF that], of t] t(3) by (auto simp: flag_ok_def)
  have "map (call_id s' r) (live_all s r) = map (call_id s r) (live_all s r)" if "base s r \<noteq> None"
    using live [OF that] c(2) by (intro map_cong) auto
  moreover have "follows (sy_calls s') (start_of (sy_pc s' r x)) b" if "base s r \<noteq> None" "x \<in> set (live_all s r)"
    "follows (sy_calls s) (start_of (sy_pc s r x)) b" for x b
    using that live [OF that(1)] c(3) grows_follows [OF g start] by auto
  ultimately have "own_batch_ok s' r"
    using own_okD(1) [OF R(6)] unfolding own_batch_ok_def rep(4) unfolding rep l by (auto split: option.splits)
  moreover have "0 < x \<and> x \<le> MAX_THREADS_PER_REPLICA \<and> y \<le> sy_cnt s' r x \<and> (y < sy_cnt s' r x \<longrightarrow> (r, x, y) \<in> an_id ` set (sy_calls s'))
      \<and> (y = sy_cnt s' r x \<longrightarrow> answers (ctx s' r x) \<noteq> [] \<or> base s' r \<noteq> None \<and> x \<in> set (live_all s' r))"
    if "(r, x, y) \<in> set (sy_own s)" for x y
    using own_okD(2) [OF R(6) that] a(1) ctxs(1) [of x] unfolding rep(4) unfolding rep c by (cases "x = t") (auto simp: less_Suc_eq)
  ultimately have "own_ok s' r" unfolding own_ok_def l by blast
  then have "rep_inv D d0 s' r" using parts threads by (simp add: rep_inv_def)
  moreover have "rep_inv D d0 s' x" if "x < k" "x \<noteq> r" for x
    using rep_frame [OF sys_invD(1) [OF inv(1) that(1)] g _ sys_invD(2) [OF inv(1) that(1)], of "[]" "[]"] q [OF that(2)] that l c(2)
    by (simp add: same_rep_def)
  ultimately show ?thesis using calls nr_invG(1,4) [OF inv(1)] unfolding nr_inv_def l by metis
qed

lemma position_nth: "distinct xs \<Longrightarrow> p < length xs \<Longrightarrow> position (xs ! p) xs = p"
proof (induction xs arbitrary: p)
  case (Cons x xs)
  then show ?case by (cases p) (auto simp: position_def)
qed simp

lemma read_data_facts:
  assumes "read_data D ro t rep = Inr (resp, rep')"
  shows "\<not> wlock (rep_data rep)" "dispatch D (rw_data (rep_data rep)) ro = Inr resp" "rep' = rep"
  using assms
  by (auto simp: read_data_def bind_run_Inr rw_read_def rw_read_unlock_def split: if_splits prod.splits)

lemma poll_facts:
  assumes "poll_context t rep = Inr (resp, rep')"
  shows "\<exists>c. context_res (contexts rep ! (t - 1)) = Inr (resp, c) \<and> rep' = rep\<lparr>contexts := (contexts rep)[t - 1 := c]\<rparr>"
  using assms by (auto simp: poll_context_def bind_run_Inr array_get_def split: if_splits prod.splits)

lemma respond_inv:
  assumes inv: "nr_inv k N D d0 s" "r < k" and p: "polling (sy_pc s r t) = Some (oper, n)" "sy_holder s r \<noteq> t"
    and step: "poll_context t (sy_rep s r) = Inr (Some resp, rep)"
  shows "nr_inv k N D d0 (return_call (set_rep s r rep) r t n (Write oper) resp (position (call_id s r t) (sy_own s)))"
    (is "nr_inv k N D d0 ?s")
proof -
  note R = rep_invD [OF sys_invD(1) [OF inv]]
  have pc: "sy_pc s r t = Poll oper n \<or> sy_pc s r t = Resync oper n" using p(1) by (cases "sy_pc s r t") auto
  have t: "0 < t" "t < rep_next (sy_rep s r)" using thread_known [OF R(5)] pc by auto
  note T = thread_ctx [OF inv t]
  obtain c where c: "context_res (ctx s r t) = Inr (Some resp, c)" "rep = (sy_rep s r)\<lparr>contexts := (contexts (sy_rep s r))[t - 1 := c]\<rparr>"
    using poll_facts [OF step] by auto
  have "answers (ctx s r t) \<noteq> []" using cb.get_none [OF T(2)] c(1) by auto
  then have w: "wait_ok D d0 s r t oper n" using T(3) pc by auto
  then obtain x where x: "pending_ops (ctx s r t) = []" "answers (ctx s r t) = [x]" "answer_ok D d0 s r t oper n x" by (auto simp: wait_ok_def)
  have new: "x = resp" "ctx_inv c" "idle_ctx c" using cb.get_some [OF T(2) x(2)] c(1) x(1) by (auto simp: idle_ctx_def)
  obtain q where q: "q < ran_to s r" "q < cctail (sy_log s)" "hist (sy_log s) ! q = (oper, r + 1)" "sy_own s ! q = call_id s r t"
    "seq_resp D d0 (hist (sy_log s)) q = Inr resp" "follows (sy_calls s) n q" using x(3) new(1) by (auto simp: answer_ok_def)
  have ql: "q < length (hist (sy_log s))" using q(1) sys_invD(2) [OF inv] by simp
  have pos: "position (call_id s r t) (sy_own s) = q"
    using position_nth [of "sy_own s" q] nr_invG(2,3) [OF inv(1)] q(4) ql by (simp add: calls_ok_def)
  have ctxs: "contexts rep ! (t - 1) = c" "\<And>x. 0 < x \<Longrightarrow> x \<noteq> t \<Longrightarrow> contexts rep ! (x - 1) = ctx s r x"
    using T(5) t(1) by (auto simp: c(2) nth_list_update)
  show ?thesis
  proof (rule return_step [OF inv t x(1)])
    show "lock_ok ?s r" using R(1) p(2) by (auto simp: lock_ok_def return_call_def c(2))
    show "holder_ok ?s r"
      by (rule holder_frame [OF R(2,1)]) (use p(2) ctxs(2) [of "sy_holder s r"] in \<open>auto simp: return_call_def c(2)\<close>)
    show "batch_ok (sy_phase ?s r) (sy_rep ?s r)" using batch_ctx [OF R(3) x(1) t(1) T(5)] by (simp add: return_call_def c(2))
    show "data_ok D d0 ?s r"
      by (rule data_local [OF R(4)]) (use R(4) p(2) in \<open>simp_all add: data_ok_def target_def return_call_def c(2)\<close>)
  qed (use ctxs new pos q ql pc in \<open>auto simp: return_call_def c(2) explained_def an_bound_def\<close>)
qed

lemma quiet_read:
  assumes inv: "nr_inv k N D d0 s" "r < k" and read: "read_data D ro t (sy_rep s r) = Inr (resp, rep)" and ct: "ct \<le> cltails (sy_log s) r"
    "follows (sy_calls s) n ct"
    and a: "a = \<lparr>an_id = i, an_start = n, an_call = Read ro, an_resp = resp, an_pos = length (applied (sy_log s) r)\<rparr>"
  shows "explained D d0 (hist (sy_log s)) (sy_own s) a" "an_bound a \<le> cctail (sy_log s)" "follows (sy_calls s) n (an_pos a)"
proof -
  note R = rep_invD [OF sys_invD(1) [OF inv]]
  have "\<not> writing (sy_phase s r)" using R(1) read_data_facts(1) [OF read] by (simp add: lock_ok_def)
  then have pc: "pcs (sy_log s) r = Idle" using R(4) by (cases "sy_phase s r") (simp_all add: data_ok_def pc_fits_def)
  have e: "an_pos a = ran_to s r" using sys_invD(4) [OF inv] by (simp add: a)
  have "ran_to s r \<le> length (hist (sy_log s))" using sys_invD(2) [OF inv] .
  then show "explained D d0 (hist (sy_log s)) (sy_own s) a"
    using R(4) read_data_facts(2) [OF read] e by (simp add: explained_def a data_ok_def)
  show "an_bound a \<le> cctail (sy_log s)" using conc_invD(5) [OF nr_invG(1) [OF inv(1)] inv(2)] pc e by (simp add: an_bound_def a)
  show "follows (sy_calls s) n (an_pos a)" using ct pc e by (auto intro: follows_le)
qed

lemma read_inv:
  assumes inv: "nr_inv k N D d0 s" "r < k" and p: "sy_pc s r t = Check ro n ct" "sy_holder s r \<noteq> t" "ct \<le> cltails (sy_log s) r"
    and step: "read_data D ro t (sy_rep s r) = Inr (resp, rep)"
  shows "nr_inv k N D d0 (return_call (set_rep s r rep) r t n (Read ro) resp (length (applied (sy_log s) r)))" (is "nr_inv k N D d0 ?s")
proof -
  note R = rep_invD [OF sys_invD(1) [OF inv]]
  have t: "0 < t" "t < rep_next (sy_rep s r)" using thread_known [OF R(5)] p(1) by auto
  note T = thread_ctx [OF inv t]
  have idle: "idle_ctx (ctx s r t)" "follows (sy_calls s) n ct" using T(3) p(1) by auto
  have rep: "rep = sy_rep s r" using read_data_facts(3) [OF step] .
  note E = quiet_read [OF inv step p(3) idle(2) refl]
  show ?thesis
  proof (rule return_step [OF inv t _ _ _ _ _ _ _ _ _ E(1,2)])
    show "lock_ok ?s r" using R(1) p(2) read_data_facts(1) [OF step] by (auto simp: lock_ok_def return_call_def rep)
    show "holder_ok ?s r" by (rule holder_frame [OF R(2,1)]) (simp_all add: return_call_def rep)
    show "batch_ok (sy_phase ?s r) (sy_rep ?s r)" using batch_cong [OF R(3), of rep] by (simp add: return_call_def rep)
    show "data_ok D d0 ?s r"
      by (rule data_local [OF R(4)]) (use R(4) p(2) in \<open>simp_all add: data_ok_def target_def return_call_def rep\<close>)
  qed (use E(3) idle(1) T(2) p(1) in \<open>auto simp: return_call_def rep idle_ctx_def\<close>)
qed

lemma retry_read_inv:
  assumes inv: "nr_inv k N D d0 s" "r < k" and ph: "sy_phase s r = NoSpace" "t = sy_holder s r"
    and p: "sy_pc s r t = Locked ro n ct" "ct \<le> cltails (sy_log s) r" and step: "read_data D ro t (sy_rep s r) = Inr (resp, rep)"
  shows "nr_inv k N D d0 (return_call (set_holder (set_phase (set_rep s r (combiner_drop rep)) r Unlocked) r 0) r t n (Read ro) resp
      (length (applied (sy_log s) r)))" (is "nr_inv k N D d0 ?s")
proof -
  note R = rep_invD [OF sys_invD(1) [OF inv]]
  have t: "0 < t" "t < rep_next (sy_rep s r)" using thread_known [OF R(5)] p(1) by auto
  note T = thread_ctx [OF inv t]
  have idle: "idle_ctx (ctx s r t)" "follows (sy_calls s) n ct" using T(3) p(1) by auto
  have rep: "rep = sy_rep s r" using read_data_facts(3) [OF step] .
  note E = quiet_read [OF inv step p(2) idle(2) refl]
  show ?thesis
  proof (rule return_step [OF inv t _ _ _ _ _ _ _ _ _ E(1,2)])
    show "lock_ok ?s r" using R(1) ph(1) by (simp add: lock_ok_def return_call_def rep combiner_drop_def)
    show "holder_ok ?s r" by (simp add: holder_ok_def return_call_def)
    show "batch_ok (sy_phase ?s r) (sy_rep ?s r)" using R(3) by (simp add: batch_ok_def return_call_def rep combiner_drop_def)
    show "data_ok D d0 ?s r"
      by (rule data_local [OF R(4)])
        (use R(4) ph(1) in \<open>simp_all add: data_ok_def pc_fits_def published_to_def reaches_def return_call_def rep combiner_drop_def\<close>)
  qed (use E(3) idle(1) T(2) p(1) ph(1) in \<open>auto simp: return_call_def rep idle_ctx_def combiner_drop_def\<close>)
qed

section \<open>Steps of the log\<close>

lemma calls_grow:
  assumes ok: "calls_ok D d0 s" and g: "grows s s'" and c: "sy_calls s' = sy_calls s" "sy_cnt s' = sy_cnt s"
    and new: "hist (sy_log s') = hist (sy_log s) @ map (\<lambda>oper. (oper, r + 1)) ops" "sy_own s' = sy_own s @ ys" "length ys = length ops"
      "distinct (sy_own s @ ys)" "\<forall>y\<in>set ys. fst y = r"
  shows "calls_ok D d0 s'"
proof -
  have len: "length (sy_own s) = length (hist (sy_log s))" using ok by (simp add: calls_ok_def)
  have "snd (hist (sy_log s') ! p) = fst (sy_own s' ! p) + 1" if "p < length (hist (sy_log s'))" for p
  proof (cases "p < length (hist (sy_log s))")
    case True
    then show ?thesis using ok len by (simp add: calls_ok_def new(1,2) nth_append)
  next
    case False
    then have "ys ! (p - length (hist (sy_log s))) \<in> set ys" using that new(3) by (simp add: new(1))
    then show ?thesis using False that new(3,5) len by (simp add: new(1,2) nth_append)
  qed
  moreover have "cctail (sy_log s) \<le> cctail (sy_log s')" using g by (simp add: grows_def)
  moreover have "explained D d0 (hist (sy_log s')) (sy_own s') a" if "a \<in> set (sy_calls s)" for a
    unfolding new(1,2) by (rule explained_append [OF _ len]) (use ok that in \<open>simp add: calls_ok_def\<close>)
  ultimately show ?thesis
    using ok len new(3,4) unfolding calls_ok_def c new(1,2) by (auto intro: order_trans)
qed

lemma log_inv:
  assumes inv: "nr_inv k N D d0 s" "r < k" and step: "log_step k N (sy_log s) l" "pcs l r \<noteq> pcs (sy_log s) r"
    and s': "sy_log s' = l" "sy_calls s' = sy_calls s" "sy_cnt s' = sy_cnt s" "sy_pc s' = sy_pc s" "sy_holder s' = sy_holder s"
    and q: "\<And>q. q \<noteq> r \<Longrightarrow> sy_rep s' q = sy_rep s q \<and> sy_phase s' q = sy_phase s q"
    and new: "hist l = hist (sy_log s) @ map (\<lambda>oper. (oper, r + 1)) ops" "sy_own s' = sy_own s @ ys" "length ys = length ops"
      "distinct (sy_own s @ ys)" "\<forall>y\<in>set ys. fst y = r"
    and rep: "contexts (sy_rep s' r) = contexts (sy_rep s r)" "rep_next (sy_rep s' r) = rep_next (sy_rep s r)" "ran_to s r \<le> ran_to s' r"
    and parts: "lock_ok s' r" "holder_ok s' r" "batch_ok (sy_phase s' r) (sy_rep s' r)" "data_ok D d0 s' r" "own_ok s' r"
  shows "nr_inv k N D d0 s'"
proof -
  note R = rep_invD [OF sys_invD(1) [OF inv]]
  have g: "grows s s'" using nr_invG(3) [OF inv(1)] log_step_grows [OF step(1)] by (simp add: grows_def s' new(2))
  have "thread_ok D d0 s' r t" for t
    by (rule thread_frame [OF R(5) g sys_invD(2) [OF inv] rep(3)]) (simp_all add: s' rep)
  then have "rep_inv D d0 s' r" using parts by (simp add: rep_inv_def)
  moreover have "rep_inv D d0 s' x" if "x < k" "x \<noteq> r" for x
  proof (rule rep_frame [OF sys_invD(1) [OF inv(1) that(1)] g _ sys_invD(2) [OF inv(1) that(1)] _ _ new(2)])
    show "same_rep s s' x" using log_step_frame [OF step] q [OF that(2)] that(2) by (simp add: same_rep_def s')
  qed (use new(1,5) that(2) s'(1) in auto)
  moreover have "calls_ok D d0 s'" using calls_grow [OF nr_invG(2) [OF inv(1)] g s'(2,3) _ new(2-5)] new(1) by (simp add: s'(1))
  moreover have "conc_inv k N (sy_log s')" using conc.step_inv [OF nr_invG(1) [OF inv(1)] step(1)] by (simp add: s'(1))
  moreover have "\<forall>y\<in>set (sy_own s'). fst y < k" using nr_invG(4) [OF inv(1)] new(5) inv(2) by (auto simp: new(2))
  ultimately show ?thesis unfolding nr_inv_def by metis
qed

text \<open>The moves of a program counter of the log, and what the combiner makes of them.\<close>

fun pc_move :: "'op csys \<Rightarrow> 'op csys \<Rightarrow> nat \<Rightarrow> 'op pc \<Rightarrow> 'op pc \<Rightarrow> bool" where
  "pc_move l0 l r Idle c' = ((\<exists>ops. c' = Loaded ops (ctl l0)) \<or> c' = ExecH (ccommit l0) \<or> (\<exists>h m. c' = Scan h 0 m))"
| "pc_move l0 l r (Loaded ops t) c' = (c' = Idle \<or> c' = Ready ops t)"
| "pc_move l0 l r (Ready ops t) c' = (c' = Idle \<or> t = ctl l0 \<and> c' = next_write ops t 0)"
| "pc_move l0 l r (WriteOp ops st i) c' = (c' = WriteRep ops st i)"
| "pc_move l0 l r (WriteRep ops st i) c' = (c' = next_write ops st (i + 1))"
| "pc_move l0 l r (Fence ops st) c' = (c' = Publish st (length ops))"
| "pc_move l0 l r (Publish st n) c' = (c' = Idle \<and> (n = 0 \<or> ccommit l = st + n))"
| "pc_move l0 l r (ExecH gt) c' = (c' = Inval gt \<or> c' = Crashed)"
| "pc_move l0 l r (Inval gt) c' = (c' = Replay gt (cltails l0 r))"
| "pc_move l0 l r (Replay gt i) c' = (c' = Crashed \<or> c' = Replay gt (i + 1) \<or> i = gt \<and> c' = Done gt)"
| "pc_move l0 l r (Done gt) c' = (c' = Idle)"
| "pc_move l0 l r (Scan h j m) c' = ((\<exists>m'. c' = Scan h (j + 1) m') \<or> c' = Idle \<or> c' = StoreHead m)"
| "pc_move l0 l r (StoreHead m) c' = (c' = Idle)"
| "pc_move l0 l r Crashed c' = False"

lemma log_step_move:
  assumes "log_step k N l0 l" "pcs l r \<noteq> pcs l0 r"
  shows "pc_move l0 l r (pcs l0 r) (pcs l r)"
  using assms by (cases rule: log_step.cases) (auto split: if_splits)

lemma next_write_cases: "next_write ops st i = WriteOp ops st i \<or> next_write ops st i = Fence ops st"
  by (simp add: next_write_def)

lemma move_appending:
  assumes "pc_move l0 l r c c'" "append_pc buf c" "comb_move buf (Appending n) c c' = Some ph'" "c' \<noteq> next_write buf (ctl l0) 0 \<or> (\<forall>t. c \<noteq> Ready buf t)"
  shows "pc_fits buf ph' c'" "base_of ph' c' = base_of (Appending n) c" "published_to (length buf) ph' (ccommit l) e" "reaches g ph' c' e"
  using assms next_write_cases [of buf]
  by (cases c; auto simp: comb_move_def pc_fits_def base_of_def published_to_def reaches_def batch_end_def next_write_def split: if_splits)+

lemma move_appended:
  assumes "pc_move l0 l r c c'" "gc_pc c" "comb_move buf (Appended n b) c c' = Some ph'" "c' \<noteq> Crashed"
  shows "pc_fits buf ph' c'" "ph' = Appended n b"
  using assms by (cases c; auto simp: comb_move_def pc_fits_def)+

lemma move_executing:
  assumes "pc_move l0 l r c c'" "exec_pc g c" "g \<le> ccommit l0" "c' \<noteq> Crashed" "c' \<noteq> Idle" "\<forall>ops t. c' \<noteq> Loaded ops t" "\<forall>h j m. c' \<noteq> Scan h j m"
  shows "exec_pc g c'"
  using assms by (cases c) auto

lemma move_executed:
  assumes "pc_move l0 l r c Idle" "exec_pc g c" "c \<noteq> Idle"
  shows "\<exists>gt. c = Done gt \<and> g \<le> gt"
  using assms by (cases c) auto

lemma comb_fits:
  assumes move: "pc_move l0 l r c c'" "c \<noteq> c'" "c' \<noteq> Crashed" "comb_move buf ph c c' = Some ph'" "\<forall>t. c \<noteq> Ready buf t \<or> c' = Idle"
    and old: "pc_fits buf ph c" "published_to (length buf) ph (ccommit l0) e" "reaches g ph c e" "g \<le> ccommit l0" "ccommit l0 \<le> ccommit l"
    and e: "\<And>gt. c = Done gt \<Longrightarrow> e' = gt"
  shows "pc_fits buf ph' c' \<and> base_of ph' c' = base_of ph c \<and> published_to (length buf) ph' (ccommit l) e' \<and> reaches g ph' c' e'"
proof (cases ph)
  case (Appending n)
  have "c' \<noteq> next_write buf (ctl l0) 0 \<or> (\<forall>t. c \<noteq> Ready buf t)" using move(5) by (auto simp: next_write_def)
  then show ?thesis
    using move_appending(1,2) [OF move(1) _ move(4) [unfolded Appending]] old(1)
      move_appending(3) [OF move(1) _ move(4) [unfolded Appending], of e'] move_appending(4) [OF move(1) _ move(4) [unfolded Appending], of g e']
    by (auto simp: Appending pc_fits_def)
next
  case (Appended n b)
  then show ?thesis
    using move_appended [OF move(1) _ move(4) [unfolded Appended] move(3)] old by (auto simp: pc_fits_def published_to_def reaches_def)
next
  case (Executing n b gc)
  have x: "exec_pc (batch_end b (length buf)) c" "exec_pc g c" "batch_end b (length buf) \<le> ccommit l0"
    using old Executing by (auto simp: pc_fits_def published_to_def reaches_def)
  show ?thesis
  proof (cases "c' = Idle")
    case True
    then have "ph' = Unlocking n b gc" using move(4) by (simp add: Executing comb_move_def)
    moreover obtain gt where "c = Done gt" using move_executed [OF move(1) [unfolded True] x(1)] move(2) True by auto
    ultimately show ?thesis using x e True by (auto simp: Executing pc_fits_def published_to_def reaches_def)
  next
    case False
    have c': "\<forall>ops t. c' \<noteq> Loaded ops t" "\<forall>h j m. c' \<noteq> Scan h j m" using move(4) by (auto simp: Executing comb_move_def)
    then have "ph' = ph" using move(4) False by (cases c') (auto simp: Executing comb_move_def)
    then show ?thesis
      using move_executing [OF move(1) x(1,3) move(3) False c'] move_executing [OF move(1) x(2) old(4) move(3) False c'] x(3) old(5)
      by (auto simp: Executing pc_fits_def published_to_def reaches_def)
  qed
qed (use move(4) in \<open>simp_all add: comb_move_def\<close>)

lemma comb_phase:
  assumes "comb_move buf ph c c' = Some ph'"
  shows "writing ph" "writing ph'" "ph' \<notin> {Unlocked, Syncing, Synced, Broken}" "ph \<notin> {Unlocked, Syncing, Synced, Broken}"
    "(\<exists>n. ph = Appending n) \<or> base_of ph c \<noteq> None" "answered_of ph = 0" "answered_of ph' = 0" "\<forall>n m i. ph' \<noteq> Gather n m i"
    "batch_ok ph rep \<Longrightarrow> batch_ok ph' rep"
    "(\<exists>n. ph = Appending n) \<or> (\<exists>n b. ph = Appended n b) \<or> (\<exists>n b gc. ph = Executing n b gc)"
  using assms
  by (auto simp: comb_move_def batch_ok_def split: phase.splits pc.splits if_splits)

lemma with_data_simps [simp]:
  "contexts (with_data rep st) = contexts rep" "inflight (with_data rep st) = inflight rep" "buffer (with_data rep st) = buffer rep"
  "rep_next (with_data rep st) = rep_next rep" "combiner (with_data rep st) = combiner rep"
  "wlock (rep_data (with_data rep st)) = wlock (rep_data rep)" "rw_data (rep_data (with_data rep st)) = fst st"
  "results (with_data rep st) = fst (snd st)"
  by (simp_all add: with_data_def split: prod.split)

lemma with_same_data [simp]: "with_data rep (combine_view rep) = rep"
  by (simp add: with_data_def combine_view_def)

lemma own_same:
  assumes "own_ok s r" "sy_own s' = sy_own s" "sy_calls s' = sy_calls s" "sy_cnt s' = sy_cnt s" "sy_pc s' = sy_pc s"
    "contexts (sy_rep s' r) = contexts (sy_rep s r)" "inflight (sy_rep s' r) = inflight (sy_rep s r)" "buffer (sy_rep s' r) = buffer (sy_rep s r)"
    "base s' r = base s r" "answered_of (sy_phase s' r) = answered_of (sy_phase s r)"
  shows "own_ok s' r"
  using assms unfolding own_ok_def own_batch_ok_def by (cases "base s r") simp_all

lemma comb_parts:
  assumes inv: "nr_inv k N D d0 s" "r < k" and move: "comb_move (buffer (sy_rep s r)) (sy_phase s r) (pcs (sy_log s) r) c' = Some ph"
    and s': "s' = (set_phase (set_rep s r (with_data (sy_rep s r) st)) r ph)\<lparr>sy_log := l, sy_own := ow\<rparr>"
  shows "lock_ok s' r" "holder_ok s' r" "batch_ok (sy_phase s' r) (sy_rep s' r)"
proof -
  note R = rep_invD [OF sys_invD(1) [OF inv]]
  note C = comb_phase [OF move]
  show "lock_ok s' r" using R(1) C(1-4) by (simp add: lock_ok_def s')
  show "holder_ok s' r" using R(2) C(5,8) by (auto simp: holder_ok_def busy_def s')
  show "batch_ok (sy_phase s' r) (sy_rep s' r)"
    using batch_cong [OF R(3), of "with_data (sy_rep s r) st"] C(9) [of "with_data (sy_rep s r) st"] C(10) by (simp add: s')
qed

lemma goal_bound:
  assumes "nr_inv k N D d0 s" "r < k" "comb_move buf (sy_phase s r) c c' = Some ph"
  shows "target s r \<le> ccommit (sy_log s)"
  using target_bound [OF assms(1,2)] comb_phase(4) [OF assms(3)] by auto

lemma not_crashed: "nr_inv k N D d0 s \<Longrightarrow> r < k \<Longrightarrow> log_step k N (sy_log s) l \<Longrightarrow> pcs l r \<noteq> Crashed \<and> conc_inv k N l"
  using conc.step_inv [OF nr_invG(1)] conc_invD(1) [of k N l r] by fastforce

lemma combine_still:
  assumes inv: "nr_inv k N D d0 s" "r < k" and step: "log_step k N (sy_log s) l" "pcs l r \<noteq> pcs (sy_log s) r" "still r (sy_log s) l"
    and move: "comb_move (buffer (sy_rep s r)) (sy_phase s r) (pcs (sy_log s) r) (pcs l r) = Some ph"
    and no: "\<forall>t. pcs (sy_log s) r \<noteq> Ready (buffer (sy_rep s r)) t \<or> pcs l r = Idle"
  shows "nr_inv k N D d0 ((set_phase (set_rep s r (with_data (sy_rep s r) (combine_view (sy_rep s r)))) r ph)\<lparr>sy_log := l, sy_own := sy_own s\<rparr>)"
    (is "nr_inv k N D d0 ?s")
proof -
  note R = rep_invD [OF sys_invD(1) [OF inv]]
  note nc = not_crashed [OF inv step(1)]
  have same: "hist l = hist (sy_log s)" "ran_to ?s r = ran_to s r" using step(3) by (simp_all add: still_def)
  have fits: "pc_fits (buffer (sy_rep s r)) ph (pcs l r) \<and> base ?s r = base s r
      \<and> published_to (length (buffer (sy_rep s r))) ph (ccommit l) (ran_to s r) \<and> reaches (target s r) ph (pcs l r) (ran_to s r)"
    using comb_fits [OF log_step_move [OF step(1,2)] _ _ move no _ _ _ goal_bound [OF inv move] log_step_grows(3) [OF step(1)], of "ran_to s r" "ran_to s r"]
      R(4) step(2) nc by (auto simp: data_ok_def)
  show ?thesis
  proof (rule log_inv [OF inv step(1,2), where ops = "[]" and ys = "[]"])
    show "data_ok D d0 ?s r"
      using fits R(4) same comb_phase(10) [OF move] step(3) by (auto simp: data_ok_def target_def)
    show "own_ok ?s r" by (rule own_same [OF R(6)]) (use fits comb_phase(6,7) [OF move] in simp_all)
  qed (use comb_parts [where st = "combine_view (sy_rep s r)" and l = l and ow = "sy_own s", OF inv move refl] same nr_invG(2) [OF inv(1)] in \<open>auto simp: calls_ok_def\<close>)
qed

text \<open>A step that calls the closure on the next entry of the history.\<close>

lemma replayed_entry:
  assumes "conc_inv k N l0" "conc_inv k N l" "r < k" "replays r l0 l oper mine"
  shows "executed (pcs l r) (cltails l r) = executed (pcs l0 r) (cltails l0 r) + 1" "executed (pcs l0 r) (cltails l0 r) < length (hist l0)"
    "oper = fst (hist l0 ! executed (pcs l0 r) (cltails l0 r))" "mine = (snd (hist l0 ! executed (pcs l0 r) (cltails l0 r)) = r + 1)" "hist l = hist l0"
proof -
  let ?f = "\<lambda>(oper, q). (oper, q = r + 1)"
  from assms(4) obtain gt i where m: "pcs l0 r = Replay gt i" "pcs l r = Replay gt (i + 1)" "hist l = hist l0" "applied l r = applied l0 r @ [(oper, mine)]"
    by (auto simp: replays_def)
  show "executed (pcs l r) (cltails l r) = executed (pcs l0 r) (cltails l0 r) + 1" "hist l = hist l0" using m by simp_all
  have lt: "i < length (hist l0)" using executed_le [OF assms(2,3)] conc_invG(3,4) [OF assms(2)] m(2,3) by simp
  then show "executed (pcs l0 r) (cltails l0 r) < length (hist l0)" using m(1) by simp
  have "map ?f (take (i + 1) (hist l0)) = map ?f (take i (hist l0)) @ [(oper, mine)]"
    using conc_invD(3) [OF assms(1,3)] conc_invD(3) [OF assms(2,3)] m by (simp add: applied_ok_def)
  then have "?f (hist l0 ! i) = (oper, mine)" using lt by (simp add: take_Suc_conv_app_nth flip: Suc_eq_plus1)
  then show "oper = fst (hist l0 ! executed (pcs l0 r) (cltails l0 r))" "mine = (snd (hist l0 ! executed (pcs l0 r) (cltails l0 r)) = r + 1)"
    using m(1) by (simp_all add: split_def)
qed

lemma placed_replay:
  assumes P: "placed D d0 h r e b buf res" and e: "e < length h" "seq_resp D d0 h e = Inr resp"
    and res: "res' = (if snd (h ! e) = r + 1 then res @ [resp] else res)"
  shows "placed D d0 h r (e + 1) b buf res'" "b = None \<Longrightarrow> res' = res"
proof -
  show "b = None \<Longrightarrow> res' = res" using P e(1) res by (simp add: placed_def)
  show "placed D d0 h r (e + 1) b buf res'"
  proof (cases b)
    case None
    then show ?thesis using P by (simp add: placed_def)
  next
    case (Some st)
    have own: "snd (h ! e) = r + 1 \<longleftrightarrow> st \<le> e \<and> e < st + length buf"
    proof
      assume "st \<le> e \<and> e < st + length buf"
      then show "snd (h ! e) = r + 1" using P Some by (auto simp: placed_def dest: spec [of _ "e - st"])
    qed (use P Some e(1) in \<open>simp add: placed_def\<close>)
    have "map Inr res' = map (seq_resp D d0 h) [st..<min (e + 1) (st + length buf)]"
    proof (cases "snd (h ! e) = r + 1")
      case True
      then have "[st..<min (e + 1) (st + length buf)] = [st..<min e (st + length buf)] @ [e]"
        using own upt_Suc_append [of st e] by (simp add: min_def flip: Suc_eq_plus1)
      then show ?thesis using P Some True e(2) by (simp add: placed_def res)
    next
      case False
      then have "e < st \<or> st + length buf \<le> e" using own by auto
      then have "[st..<min (e + 1) (st + length buf)] = [st..<min e (st + length buf)]" by (elim disjE) (simp_all add: min_absorb2)
      then show ?thesis using P Some False by (simp add: placed_def res)
    qed
    then show ?thesis using P Some by (simp add: placed_def)
  qed
qed

lemma data_replay:
  assumes inv: "nr_inv k N D d0 s" "r < k" and step: "log_step k N (sy_log s) l" "replays r (sy_log s) l oper mine"
    and d: "dispatch_mut D oper (rw_data (rep_data (sy_rep s r))) = Inr (resp, rw_data (rep_data (sy_rep s' r)))"
      "results (sy_rep s' r) = (if mine then results (sy_rep s r) @ [resp] else results (sy_rep s r))"
    and s': "sy_log s' = l" "sy_pc s' = sy_pc s" "sy_holder s' = sy_holder s" "sy_phase s' r = sy_phase s r" "buffer (sy_rep s' r) = buffer (sy_rep s r)"
  shows "data_ok D d0 s' r" "base s' r = base s r" "base s r = None \<Longrightarrow> \<not> mine"
proof -
  note R = rep_invD [OF sys_invD(1) [OF inv]]
  note nc = not_crashed [OF inv step(1)]
  note E = replayed_entry [OF nr_invG(1) [OF inv(1)] conjunct2 [OF nc] inv(2) step(2)]
  obtain gt i where m: "pcs (sy_log s) r = Replay gt i" "pcs l r = Replay gt (i + 1)" using step(2) by (auto simp: replays_def)
  have st: "state_after D d0 (map fst (take (ran_to s r) (hist (sy_log s)))) = Inr (rw_data (rep_data (sy_rep s r)))"
    using R(4) by (simp add: data_ok_def)
  note S = state_after_step [OF st E(2) d(1) [unfolded E(3)]]
  have P: "placed D d0 (hist (sy_log s)) r (ran_to s r) (base s r) (buffer (sy_rep s r)) (results (sy_rep s r))" using R(4) by (simp add: data_ok_def)
  note P' = placed_replay [OF P E(2) S(2) refl]
  show b: "base s' r = base s r" using m by (simp add: base_of_def s'(1,4) split: phase.split)
  show "\<not> mine" if "base s r = None" using P E(2,4) that by (simp add: placed_def)
  have ran: "ran_to s' r = ran_to s r + 1" using E(1) by (simp add: s'(1))
  have cm: "ccommit (sy_log s) \<le> ccommit l" using log_step_grows(3) [OF step(1)] .
  have fits: "pc_fits (buffer (sy_rep s r)) (sy_phase s r) (pcs l r)" "published_to (length (buffer (sy_rep s r))) (sy_phase s r) (ccommit l) (ran_to s r + 1)"
    "reaches (target s r) (sy_phase s r) (pcs l r) (ran_to s r + 1)"
    using R(4) m cm by (auto simp: data_ok_def pc_fits_def published_to_def reaches_def split: phase.splits)
  have res: "results (sy_rep s' r) = (if snd (hist (sy_log s) ! ran_to s r) = r + 1 then results (sy_rep s r) @ [resp] else results (sy_rep s r))"
    using d(2) E(4) by simp
  have goal: "target s' r = target s r" by (simp add: target_def s')
  show "data_ok D d0 s' r"
    unfolding data_ok_def ran b goal
    using fits S(1) P' res E(5) R(4) by (auto simp: data_ok_def s' simp flip: Suc_eq_plus1)
qed

lemma combine_replays:
  assumes inv: "nr_inv k N D d0 s" "r < k" and step: "log_step k N (sy_log s) l" "pcs l r \<noteq> pcs (sy_log s) r" "replays r (sy_log s) l oper mine"
    and move: "comb_move (buffer (sy_rep s r)) (sy_phase s r) (pcs (sy_log s) r) (pcs l r) = Some ph"
    and f: "combine_op True D n a z oper mine (combine_view (sy_rep s r)) = Inr st"
  shows "nr_inv k N D d0 ((set_phase (set_rep s r (with_data (sy_rep s r) st)) r ph)\<lparr>sy_log := l, sy_own := sy_own s\<rparr>)" (is "nr_inv k N D d0 ?s")
proof -
  note R = rep_invD [OF sys_invD(1) [OF inv]]
  note nc = not_crashed [OF inv step(1)]
  note E = replayed_entry [OF nr_invG(1) [OF inv(1)] conjunct2 [OF nc] inv(2) step(3)]
  have ph: "ph = sy_phase s r" using move step(3) by (auto simp: replays_def comb_move_def split: phase.splits)
  obtain resp where d: "dispatch_mut D oper (rw_data (rep_data (sy_rep s r))) = Inr (resp, fst st)"
    "fst (snd st) = (if mine then results (sy_rep s r) @ [resp] else results (sy_rep s r))"
    using f by (auto simp: combine_op_def combine_view_def bind_run_Inr Let_def split: if_splits prod.splits)
  note DR = data_replay [OF inv step(1,3), where s' = ?s and resp = resp]
  have "data_ok D d0 ?s r" "base ?s r = base s r" using DR(1,2) d by (simp_all add: ph)
  moreover from this have "own_ok ?s r" by (intro own_same [OF R(6)]) (simp_all add: ph)
  ultimately show ?thesis
    by (intro log_inv [OF inv step(1,2), where ops = "[]" and ys = "[]"])
      (use comb_parts [where st = st and l = l and ow = "sy_own s", OF inv move refl] E(1,5) nr_invG(2) [OF inv(1)] in \<open>auto simp: calls_ok_def\<close>)
qed

lemma batch_threads_live:
  assumes "\<forall>t\<in>set (live f (length f + 1)). f ! (t - 1) = 1"
  shows "batch_threads f = live f (length f + 1)"
proof -
  have one: "replicate 1 x = [x]" for x :: nat unfolding One_nat_def by simp
  have "concat (map (\<lambda>t. replicate (f ! (t - 1)) t) xs) = filter (\<lambda>t. f ! (t - 1) \<noteq> 0) xs"
    if "\<forall>t\<in>set xs. f ! (t - 1) \<noteq> 0 \<longrightarrow> f ! (t - 1) = 1" for xs using that
  proof (induction xs)
    case (Cons x xs)
    then have "f ! (x - 1) = 0 \<or> f ! (x - 1) = 1" by auto
    then show ?case using Cons by (elim disjE) (simp_all add: one)
  qed simp
  moreover have "f ! (t - 1) = 1" if "t \<in> set [1..<length f + 1]" "f ! (t - 1) \<noteq> 0" for t
  proof -
    have "t \<in> set (live f (length f + 1))" using that by (simp add: live_def)
    with assms show ?thesis by blast
  qed
  ultimately show ?thesis unfolding batch_threads_def live_def by blast
qed

lemma reserve_facts:
  assumes inv: "nr_inv k N D d0 s" "r < k" and ph: "sy_phase s r = Appending n" "base s r = None"
  shows "batch_threads (inflight (sy_rep s r)) = live_all s r" "length (live_all s r) = length (buffer (sy_rep s r))"
    "distinct (sy_own s @ map (call_id s r) (live_all s r))"
proof -
  note R = rep_invD [OF sys_invD(1) [OF inv]]
  have C: "buffer (sy_rep s r) = map (op_of (sy_rep s r)) (live_all s r)" "\<forall>t\<in>set (live_all s r). 1 \<le> t \<and> t < n \<and> flag_ok (sy_rep s r) t"
    "length (inflight (sy_rep s r)) = MAX_THREADS_PER_REPLICA"
    using R(1,3) ph(1) by (auto simp: batch_ok_def collected_def lock_ok_def)
  show "batch_threads (inflight (sy_rep s r)) = live_all s r"
    using batch_threads_live [of "inflight (sy_rep s r)"] C(2,3) by (auto simp: flag_ok_def)
  show "length (live_all s r) = length (buffer (sy_rep s r))" using C(1) by simp
  have "call_id s r t \<notin> set (sy_own s)" if "t \<in> set (live_all s r)" for t
  proof
    assume "call_id s r t \<in> set (sy_own s)"
    then have a: "0 < t" "t \<le> MAX_THREADS_PER_REPLICA" "answers (ctx s r t) \<noteq> []" using own_okD(2) [OF R(6)] ph(2) by auto
    then have "pending_ops (ctx s r t) = []" using ctx_cases [OF inv a(1,2)] by auto
    then show False using C(2) that by (auto simp: flag_ok_def)
  qed
  moreover have "distinct (map (call_id s r) (live_all s r))" using live_sorted(2) by (auto simp: distinct_map inj_on_def)
  ultimately show "distinct (sy_own s @ map (call_id s r) (live_all s r))" using nr_invG(2) [OF inv(1)] by (auto simp: calls_ok_def)
qed

lemma placed_reserve:
  assumes "placed D d0 h r e None buf res" "e \<le> length h" "res = []"
  shows "placed D d0 (h @ map (\<lambda>oper. (oper, r + 1)) buf) r e (Some (length h)) buf res"
  using assms by (auto simp: placed_def nth_append)

lemma own_reserve:
  assumes "own_ok s r" "base s r = None" "length (live_all s r) = length (buffer (sy_rep s r))" "answered_of (sy_phase s' r) = 0"
    and "\<forall>t\<in>set (live_all s r). follows (sy_calls s) (start_of (sy_pc s r t)) (length (sy_own s))"
    and s': "sy_own s' = sy_own s @ map (call_id s r) (live_all s r)" "sy_calls s' = sy_calls s" "sy_cnt s' = sy_cnt s" "sy_pc s' = sy_pc s"
      "contexts (sy_rep s' r) = contexts (sy_rep s r)" "inflight (sy_rep s' r) = inflight (sy_rep s r)" "buffer (sy_rep s' r) = buffer (sy_rep s r)"
      "base s' r = Some (length (sy_own s))"
  shows "own_ok s' r"
proof -
  have "own_batch_ok s' r" using assms(3-5) s' by (simp add: own_batch_ok_def)
  moreover have "0 < t \<and> t \<le> MAX_THREADS_PER_REPLICA" if "t \<in> set (live_all s r)" for t using that by (auto simp: live_def)
  ultimately show ?thesis using own_okD(2) [OF assms(1)] assms(2) s' unfolding own_ok_def by auto
qed

lemma combine_reserve:
  assumes inv: "nr_inv k N D d0 s" "r < k" and step: "log_step k N (sy_log s) l" "pcs l r \<noteq> pcs (sy_log s) r" "reserves r (sy_log s) l ops"
    and move: "comb_move (buffer (sy_rep s r)) (sy_phase s r) (pcs (sy_log s) r) (pcs l r) = Some ph"
  shows "nr_inv k N D d0 ((set_phase (set_rep s r (with_data (sy_rep s r) (combine_view (sy_rep s r)))) r ph)\<lparr>sy_log := l,
    sy_own := sy_own s @ (if hist l = hist (sy_log s) then [] else map (call_id s r) (batch_threads (inflight (sy_rep s r))))\<rparr>)"
    (is "nr_inv k N D d0 ?s")
proof -
  note R = rep_invD [OF sys_invD(1) [OF inv]]
  note V = step(3) [unfolded reserves_def]
  obtain n where ph: "sy_phase s r = Appending n" "ops = buffer (sy_rep s r)" "ph = Appending n"
    using R(4) V move by (auto simp: data_ok_def pc_fits_def comb_move_def next_write_def split: phase.splits if_splits)
  have b: "base s r = None" using V ph(1) by (simp add: base_of_def)
  note F = reserve_facts [OF inv ph(1) b]
  note len = nr_invG(3) [OF inv(1)]
  have ctl: "ctl (sy_log s) = length (hist (sy_log s))" using conc_invG(3) [OF nr_invG(1) [OF inv(1)]] by simp
  have own: "sy_own ?s = sy_own s @ map (call_id s r) (live_all s r)" using V F(1,2) ph(2) by auto
  have base: "base ?s r = Some (length (hist (sy_log s)))" using V ctl by (simp add: ph base_of_def next_write_def)
  have ran: "ran_to ?s r = ran_to s r" using V by simp
  have P: "placed D d0 (hist (sy_log s)) r (ran_to s r) None (buffer (sy_rep s r)) (results (sy_rep s r))" "results (sy_rep s r) = []"
    using R(4) b ph(1) by (auto simp: data_ok_def)
  note P' = placed_reserve [OF P(1) sys_invD(2) [OF inv] P(2)]
  have fits: "pc_fits (buffer (sy_rep s r)) ph (pcs l r)" "published_to m ph cm e" for m cm e
    using V ph by (auto simp: pc_fits_def published_to_def next_write_def)
  have "cctail (sy_log s) \<le> length (sy_own s)" using conc_invG(3-5) [OF nr_invG(1) [OF inv(1)]] len by simp
  then have follow: "follows (sy_calls s) (start_of (sy_pc s r t)) (length (sy_own s))" for t
    using all_follow [OF nr_invG(2) [OF inv(1)]] R(5) [of t] by (simp add: thread_ok_def)
  show ?thesis
  proof (rule log_inv [OF inv step(1,2), where ops = ops and ys = "map (call_id s r) (live_all s r)"])
    show "data_ok D d0 ?s r"
      unfolding data_ok_def base ran using fits P' R(4) V ph sys_invD(2) [OF inv] by (simp add: data_ok_def reaches_def)
    show "own_ok ?s r"
      by (rule own_reserve [OF R(6) b F(2)]) (use follow own base len ph in simp_all)
  qed (use comb_parts [where st = "combine_view (sy_rep s r)" and l = l and ow = "sy_own ?s", OF inv move refl] own F V ran ph in auto)
qed

lemma ready_reserves:
  assumes "log_step k N l0 l" "pcs l r \<noteq> pcs l0 r" "pcs l0 r = Ready ops t"
  shows "pcs l r = Idle \<or> reserves r l0 l ops"
  using assms by (cases rule: log_step.cases) (auto simp: reserves_def split: if_splits)

lemma combine_log_inv:
  assumes inv: "nr_inv k N D d0 s" "r < k" and step: "log_step k N (sy_log s) l" "pcs l r \<noteq> pcs (sy_log s) r"
    and move: "comb_move (buffer (sy_rep s r)) (sy_phase s r) (pcs (sy_log s) r) (pcs l r) = Some ph"
    and f: "feed (combine_op True D n a z) (news (sy_log s) l r) (combine_view (sy_rep s r)) = Inr st"
  shows "nr_inv k N D d0 ((set_phase (set_rep s r (with_data (sy_rep s r) st)) r ph)\<lparr>sy_log := l,
    sy_own := sy_own s @ (if hist l = hist (sy_log s) then [] else map (call_id s r) (batch_threads (inflight (sy_rep s r))))\<rparr>)"
proof -
  have "pcs l r \<noteq> Crashed" using not_crashed [OF inv step(1)] by simp
  from log_step_kinds [OF step(1) nr_invG(1) [OF inv(1)] step(2) this]
  consider (reserve) ops where "reserves r (sy_log s) l ops"
    | (replay) oper mine where "replays r (sy_log s) l oper mine"
    | (still) "still r (sy_log s) l" "\<And>ops. \<not> reserves r (sy_log s) l ops" by blast
  then show ?thesis
  proof cases
    case reserve
    then have "news (sy_log s) l r = []" by (simp add: reserves_def news_def)
    then have "st = combine_view (sy_rep s r)" using f by simp
    then show ?thesis using combine_reserve [OF inv step reserve move] by simp
  next
    case replay
    then have "news (sy_log s) l r = [(oper, mine)]" "hist l = hist (sy_log s)" by (auto simp: replays_def news_def)
    then show ?thesis using combine_replays [OF inv step replay move, of n a z st] f by (auto simp: bind_run_Inr)
  next
    case still
    then have "news (sy_log s) l r = []" "hist l = hist (sy_log s)" by (simp_all add: still_def news_def)
    moreover from this have "st = combine_view (sy_rep s r)" using f by simp
    ultimately show ?thesis
      using combine_still [OF inv step still(1) move] ready_reserves [OF step] still(2) by auto
  qed
qed

lemma sync_parts:
  assumes inv: "nr_inv k N D d0 s" "r < k" and ph: "sy_phase s r = Syncing" "sync_move c' = Some ph"
    and s': "s' = (set_phase (set_rep s r ((sy_rep s r)\<lparr>rep_data := (rep_data (sy_rep s r))\<lparr>rw_data := d\<rparr>\<rparr>)) r ph)\<lparr>sy_log := l\<rparr>"
  shows "lock_ok s' r" "holder_ok s' r" "batch_ok (sy_phase s' r) (sy_rep s' r)" "own_ok s' r"
proof -
  note R = rep_invD [OF sys_invD(1) [OF inv]]
  have p: "ph = Syncing \<or> ph = Synced" using ph(2) by (auto simp: sync_move_def split: pc.splits)
  show "lock_ok s' r" using R(1) ph(1) p by (auto simp: lock_ok_def s')
  show "holder_ok s' r" using p by (auto simp: holder_ok_def s')
  show "batch_ok (sy_phase s' r) (sy_rep s' r)" using R(3) ph(1) p by (auto simp: batch_ok_def s')
  show "own_ok s' r" by (rule own_same [OF R(6)]) (use ph(1) p in \<open>auto simp: s'\<close>)
qed

lemma sync_pc:
  assumes "nr_inv k N D d0 s" "r < k" "sy_phase s r = Syncing"
  shows "exec_pc 0 (pcs (sy_log s) r)" "base s r = None"
    "placed D d0 (hist (sy_log s)) r (ran_to s r) None (buffer (sy_rep s r)) (results (sy_rep s r))"
  using rep_invD(4) [OF sys_invD(1) [OF assms(1,2)]] assms(3) by (simp_all add: data_ok_def pc_fits_def)

lemma sync_log_inv:
  assumes inv: "nr_inv k N D d0 s" "r < k" and step: "log_step k N (sy_log s) l" "pcs l r \<noteq> pcs (sy_log s) r"
    and ph: "sy_phase s r = Syncing" "sync_move (pcs l r) = Some ph"
    and f: "feed (sync_op D) (news (sy_log s) l r) (rw_data (rep_data (sy_rep s r))) = Inr d"
  shows "nr_inv k N D d0 ((set_phase (set_rep s r ((sy_rep s r)\<lparr>rep_data := (rep_data (sy_rep s r))\<lparr>rw_data := d\<rparr>\<rparr>)) r ph)\<lparr>sy_log := l\<rparr>)"
    (is "nr_inv k N D d0 ?s")
proof -
  note R = rep_invD [OF sys_invD(1) [OF inv]]
  note S = sync_pc [OF inv ph(1)]
  have nc: "pcs l r \<noteq> Crashed" using not_crashed [OF inv step(1)] by simp
  have "\<not> reserves r (sy_log s) l ops" for ops using S(1) by (auto simp: reserves_def)
  with log_step_kinds [OF step(1) nr_invG(1) [OF inv(1)] step(2) nc]
  consider (replay) oper mine where "replays r (sy_log s) l oper mine" | (still) "still r (sy_log s) l" by blast
  then have "data_ok D d0 ?s r \<and> hist l = hist (sy_log s) \<and> ran_to s r \<le> ran_to ?s r"
  proof cases
    case replay
    then have n: "news (sy_log s) l r = [(oper, mine)]" "hist l = hist (sy_log s)" "ph = Syncing" using ph(2)
      by (auto simp: replays_def news_def sync_move_def)
    obtain resp where "dispatch_mut D oper (rw_data (rep_data (sy_rep s r))) = Inr (resp, d)" "\<not> mine"
      using f by (auto simp: n(1) sync_op_def bind_run_Inr split: if_splits)
    then have "data_ok D d0 ?s r" using ph(1) n(3) by (intro data_replay(1) [OF inv step(1) replay, where resp = resp]) simp_all
    then show ?thesis using n(2) replay by (auto simp: replays_def)
  next
    case still
    then have d: "d = rw_data (rep_data (sy_rep s r))" using f by (simp add: still_def news_def)
    have c: "\<forall>ops t. pcs l r \<noteq> Loaded ops t" "\<forall>h j m. pcs l r \<noteq> Scan h j m" using ph(2) by (auto simp: sync_move_def)
    have "pcs l r = Idle \<and> ph = Synced \<or> exec_pc 0 (pcs l r) \<and> ph = Syncing"
      using move_executing [OF log_step_move [OF step] S(1) _ nc _ c] ph(2) c by (auto simp: sync_move_def split: pc.splits)
    then have "data_ok D d0 ?s r"
      using R(4) S(2,3) still d by (elim disjE) (auto simp: data_ok_def still_def pc_fits_def published_to_def reaches_def)
    then show ?thesis using still by (simp add: still_def)
  qed
  then show ?thesis
    using sync_parts [where d = d and l = l, OF inv ph refl] nr_invG(2) [OF inv(1)]
    by (intro log_inv [OF inv step, where ops = "[]" and ys = "[]"]) (auto simp: calls_ok_def)
qed

lemma sync_no_panic:
  assumes inv: "nr_inv k N D d0 s" "r < k" and step: "log_step k N (sy_log s) l" "sy_phase s r = Syncing" "(oper, True) \<in> set (news (sy_log s) l r)"
  shows False
proof -
  note S = sync_pc [OF inv step(2)]
  have moved: "pcs l r \<noteq> pcs (sy_log s) r"
  proof
    assume "pcs l r = pcs (sy_log s) r"
    with step(1) have "applied l r = applied (sy_log s) r" by (cases rule: log_step.cases) (auto split: if_splits)
    then show False using step(3) by (simp add: news_def)
  qed
  note nc = not_crashed [OF inv step(1)]
  from log_step_kinds [OF step(1) nr_invG(1) [OF inv(1)] moved conjunct1 [OF nc]] step(3)
  obtain op' mine where r: "replays r (sy_log s) l op' mine" by (auto simp: still_def reserves_def news_def)
  then have "mine" using step(3) by (auto simp: replays_def news_def)
  then show False using replayed_entry(2,4) [OF nr_invG(1) [OF inv(1)] conjunct2 [OF nc] inv(2) r] S(3) by (auto simp: placed_def)
qed

lemma cache_inv:
  assumes inv: "nr_inv k N D d0 s" and step: "log_step k N (sy_log s) l" "pcs l = pcs (sy_log s)"
  shows "nr_inv k N D d0 (s\<lparr>sy_log := l\<rparr>)"
proof -
  note Q = log_step_quiet [OF step]
  have g: "grows s (s\<lparr>sy_log := l\<rparr>)" using nr_invG(3) [OF inv] by (simp add: grows_def Q)
  have "rep_inv D d0 (s\<lparr>sy_log := l\<rparr>) r" if "r < k" for r
    by (rule rep_frame [OF sys_invD(1) [OF inv that] g _ sys_invD(2) [OF inv that], of "[]" "[]"]) (simp_all add: same_rep_def Q step(2))
  moreover have "calls_ok D d0 (s\<lparr>sy_log := l\<rparr>)" using nr_invG(2) [OF inv] by (simp add: calls_ok_def Q)
  ultimately show ?thesis using conc.step_inv [OF nr_invG(1) [OF inv] step(1)] nr_invG(4) [OF inv] by (simp add: nr_inv_def)
qed

section \<open>Linearizability\<close>

lemma poll_total:
  assumes inv: "nr_inv k N D d0 s" "r < k" and t: "0 < t" "t < rep_next (sy_rep s r)"
  shows "\<exists>x. poll_context t (sy_rep s r) = Inr x" "answers (ctx s r t) \<noteq> [] \<Longrightarrow> \<exists>resp rep. poll_context t (sy_rep s r) = Inr (Some resp, rep)"
proof -
  note T = thread_ctx [OF inv t]
  have "\<exists>o' c. context_res (ctx s r t) = Inr (o', c) \<and> (answers (ctx s r t) \<noteq> [] \<longrightarrow> o' \<noteq> None)"
    using cb.get_none [OF T(2)] cb.get_some [OF T(2)] by (cases "answers (ctx s r t)") fastforce+
  then show "\<exists>x. poll_context t (sy_rep s r) = Inr x" "answers (ctx s r t) \<noteq> [] \<Longrightarrow> \<exists>resp rep. poll_context t (sy_rep s r) = Inr (Some resp, rep)"
    using t(1) T(5) by (auto simp: poll_context_def)
qed

lemma nr_inv_init: "sys_start k N d0 s \<Longrightarrow> nr_inv k N D d0 s"
proof -
  assume s: "sys_start k N d0 s"
  note S = s [unfolded sys_start_def log_start_def]
  have c: "conc_inv k N (sy_log s)" by (rule conc.init_inv) (use s in \<open>simp add: sys_start_def\<close>)
  have ctx: "ctx_inv (context_default ())" "idle_ctx (context_default ())"
    using context_new_inv [of "()" 0] by (simp_all add: context_new_def idle_ctx_def context_default_def)
  have "rep_inv D d0 s r" if r: "r < k" for r
  proof -
    obtain a z where rep: "sy_rep s r = replica_with_data_base_addr (r + 1) d0 a z" using S r by blast
    have pc: "pcs (sy_log s) r = Idle" using S by simp
    have "thread_ok D d0 s r t" for t using S ctx by (auto simp: thread_ok_def rep replica_with_data_base_addr_def)
    moreover have "data_ok D d0 s r"
      using S by (simp add: data_ok_def pc_fits_def published_to_def reaches_def placed_def rep replica_with_data_base_addr_def rwlock_new_def)
    moreover have "lock_ok s r" using S by (simp add: lock_ok_def rep replica_with_data_base_addr_def rwlock_new_def)
    moreover have "own_ok s r" using S by (simp add: own_ok_def own_batch_ok_def)
    moreover have "holder_ok s r" using S by (simp add: holder_ok_def)
    moreover have "batch_ok (sy_phase s r) (sy_rep s r)" using S by (auto simp: batch_ok_def rep replica_with_data_base_addr_def)
    ultimately show ?thesis by (simp add: rep_inv_def)
  qed
  then show ?thesis using c S by (simp add: nr_inv_def calls_ok_def)
qed

text \<open>The panics of the model are not reachable.\<close>

lemma pend_total:
  assumes inv: "nr_inv k N D d0 s" "r < k" and "sy_pc s r t = Put oper n"
  shows "make_pending oper t (sy_rep s r) \<noteq> Inl f"
proof -
  have "0 < t" "t < rep_next (sy_rep s r)" using thread_known [OF rep_invD(5) [OF sys_invD(1) [OF inv]]] assms(3) by auto
  then show ?thesis using thread_ctx(5) [OF inv] by (auto simp: make_pending_def split: prod.split)
qed

lemma collect_total:
  assumes inv: "nr_inv k N D d0 s" "r < k" and "sy_phase s r = Gather n m i" "i < m"
  shows "collect_thread_ops [i] (contexts (sy_rep s r)) (buffer (sy_rep s r)) (inflight (sy_rep s r)) \<noteq> Inl f"
proof -
  note R = rep_invD [OF sys_invD(1) [OF inv]]
  have i: "0 < i" "i \<le> MAX_THREADS_PER_REPLICA" using R(1,3) assms(3,4) by (auto simp: batch_ok_def lock_ok_def)
  then have c: "ctx_inv (ctx s r i)" using R(5) [of i] by (simp add: thread_ok_def)
  have l: "i - 1 < length (contexts (sy_rep s r))" "i - 1 < length (inflight (sy_rep s r))" using i R(1) by (auto simp: lock_ok_def)
  show ?thesis using collect_single [OF c l] by (simp del: collect_thread_ops.simps)
qed

lemma distribute_single:
  assumes inv: "nr_inv k N D d0 s" "r < k" and ph: "sy_phase s r = Answering n b gc i j" "i < n"
  shows "distribute [i] (results (sy_rep s r)) j j (inflight (sy_rep s r)) (contexts (sy_rep s r)) =
    (if inflight (sy_rep s r) ! (i - 1) = 0 then Inr (inflight (sy_rep s r), contexts (sy_rep s r))
     else Inr ((inflight (sy_rep s r))[i - 1 := 0], (contexts (sy_rep s r))[i - 1 := context_enqueue_resp (results (sy_rep s r) ! j) (ctx s r i)]))"
    "inflight (sy_rep s r) ! (i - 1) \<noteq> 0 \<Longrightarrow> inflight (sy_rep s r) ! (i - 1) = 1"
proof -
  note R = rep_invD [OF sys_invD(1) [OF inv]]
  note A = answering_facts [OF inv ph(1)]
  have i: "i - 1 < length (inflight (sy_rep s r))" "i - 1 < length (contexts (sy_rep s r))"
    using A(4,5) ph(2) R(1) by (auto simp: collected_def lock_ok_def)
  have some: "inflight (sy_rep s r) ! (i - 1) = 1 \<and> j < length (results (sy_rep s r))" if "inflight (sy_rep s r) ! (i - 1) \<noteq> 0"
    using answer_facts [OF inv ph that] by metis
  then show "inflight (sy_rep s r) ! (i - 1) = 1" if "inflight (sy_rep s r) ! (i - 1) \<noteq> 0" using that by blast
  have seg: "segment j (j + 1) xs = [xs ! j]" if "j < length xs" for xs :: "'d list"
    using that by (intro nth_equalityI) (auto simp: nth_segment)
  show "distribute [i] (results (sy_rep s r)) j j (inflight (sy_rep s r)) (contexts (sy_rep s r)) =
    (if inflight (sy_rep s r) ! (i - 1) = 0 then Inr (inflight (sy_rep s r), contexts (sy_rep s r))
     else Inr ((inflight (sy_rep s r))[i - 1 := 0], (contexts (sy_rep s r))[i - 1 := context_enqueue_resp (results (sy_rep s r) ! j) (ctx s r i)]))"
    using i some seg by (cases "inflight (sy_rep s r) ! (i - 1) = 0") (simp_all add: Let_def)
qed

lemma answer_one_inv:
  assumes inv: "nr_inv k N D d0 s" "r < k" and ph: "sy_phase s r = Answering n b gc i j" "i < n"
    and step: "distribute [i] (results (sy_rep s r)) j j (inflight (sy_rep s r)) (contexts (sy_rep s r)) = Inr (operations, cs)"
  shows "nr_inv k N D d0 (set_phase (set_rep s r ((sy_rep s r)\<lparr>inflight := operations, contexts := cs\<rparr>)) r
      (Answering n b gc (i + 1) (j + inflight (sy_rep s r) ! (i - 1))))"
proof (cases "inflight (sy_rep s r) ! (i - 1) = 0")
  case True
  then have "operations = inflight (sy_rep s r)" "cs = contexts (sy_rep s r)"
    using distribute_single(1) [OF inv ph] step by (simp_all del: distribute.simps)
  then show ?thesis using answer_skip_inv [OF inv ph True] True by simp
next
  case False
  then have "operations = (inflight (sy_rep s r))[i - 1 := 0]"
    "cs = (contexts (sy_rep s r))[i - 1 := context_enqueue_resp (results (sy_rep s r) ! j) (ctx s r i)]"
    using distribute_single(1) [OF inv ph] step by (simp_all del: distribute.simps)
  then show ?thesis using answer_inv [OF inv ph False refl] distribute_single(2) [OF inv ph False] by simp
qed

lemma same_data: "w = wlock (rep_data rep) \<Longrightarrow> rep\<lparr>rep_data := (rep_data rep)\<lparr>wlock := w\<rparr>\<rparr> = rep"
  by simp

lemma keep_lock_inv:
  assumes inv: "nr_inv k N D d0 s" "r < k"
    and ph: "sy_phase s r = Executing n b gc \<and> pcs (sy_log s) r = Idle \<and> cltails (sy_log s) r = ccommit (sy_log s) \<and> ph = Unlocking n b gc
      \<or> sy_phase s r = NoSpace \<and> ph = Acquired \<or> sy_phase s r = Syncing \<and> pcs (sy_log s) r = Idle \<and> ph = Synced"
  shows "nr_inv k N D d0 (set_phase s r ph)"
proof -
  have "wlock (rep_data (sy_rep s r)) = writing (sy_phase s r)" using rep_invD(1) [OF sys_invD(1) [OF inv]] by (simp add: lock_ok_def)
  then show ?thesis using relock_inv [where w = "wlock (rep_data (sy_rep s r))" and n = n and ph = ph and b = b and gc = gc, OF inv refl] ph
    by (auto simp: same_data)
qed

lemma polling_known:
  assumes "nr_inv k N D d0 s" "r < k" "polling (sy_pc s r t) = Some x"
  shows "0 < t" "t < rep_next (sy_rep s r)"
proof -
  have "sy_pc s r t \<noteq> Out" using assms(3) by auto
  then show "0 < t" "t < rep_next (sy_rep s r)" using thread_known [OF rep_invD(5) [OF sys_invD(1) [OF assms(1,2)]]] by blast+
qed

lemma resync_answered:
  assumes "nr_inv k N D d0 s" "r < k" "sy_pc s r t = Resync oper n"
  shows "poll_context t (sy_rep s r) \<noteq> Inr (None, rep)"
proof -
  have t: "0 < t" "t < rep_next (sy_rep s r)" using polling_known [OF assms(1,2), of t "(oper, n)"] assms(3) by simp_all
  have "answers (ctx s r t) \<noteq> []" using thread_ctx(3) [OF assms(1,2) t] assms(3) by (auto simp: wait_ok_def)
  then show ?thesis using poll_total(2) [OF assms(1,2) t] by auto
qed

lemma nr_inv_step:
  assumes inv: "nr_inv k N D d0 s" and step: "nr_step False k N D s s'"
  shows "nr_inv k N D d0 s'"
  using step
proof cases
  case (register_step r t rep)
  then show ?thesis using register_inv [OF inv] by blast
next
  case (invoke_mut r t oper)
  then show ?thesis using invoke_inv [OF inv] by blast
next
  case (pend r t oper n rep)
  then show ?thesis using pend_inv [OF inv] by blast
next
  case (pend_panic r t oper n f)
  then show ?thesis using pend_total [OF inv] by blast
next
  case (no_lock r t oper n)
  then show ?thesis using no_lock_inv [OF inv] by blast
next
  case (take_lock r t rep)
  then show ?thesis using take_lock_inv [OF inv] by blast
next
  case (count_threads r)
  then show ?thesis using count_inv [OF inv] by blast
next
  case (collect_start r n)
  then show ?thesis using collect_start_inv [OF inv] by blast
next
  case (collect_one r n m i buf operations)
  then show ?thesis using collect_one_inv [OF inv] by blast
next
  case (collect_panic r n m i f)
  then show ?thesis using collect_total [OF inv] by blast
next
  case (append_start r n m i lk)
  then show ?thesis using append_start_inv [OF inv] by blast
next
  case (combine_log r l ph st)
  then show ?thesis using combine_log_inv [OF inv] by blast
next
  case (append_fails r n lk)
  then show ?thesis using relock_inv [OF inv _ write_unlocked] by blast
next
  case (append_done r n b lk gc)
  then show ?thesis using relock_inv [OF inv _ write_unlocked] by blast
next
  case (exec_start r n b gc lk)
  then show ?thesis using relock_inv [OF inv _ write_locked] by blast
next
  case (exec_nothing r n b gc)
  then show ?thesis using keep_lock_inv [OF inv] by blast
next
  case (exec_done r n b gc lk)
  then show ?thesis using relock_inv [OF inv _ write_unlocked] by blast
next
  case (answer_one r n b gc i j operations cs)
  then show ?thesis using answer_one_inv [OF inv] by blast
next
  case (answer_panic r n b gc i j f)
  then show ?thesis using distribute_single(1) [OF inv answer_panic(2-4)] by (auto simp del: distribute.simps split: if_splits)
next
  case (combine_done r n b gc i j t)
  then show ?thesis using combine_done_inv [OF inv] by blast
next
  case (retry_mut r oper n)
  then show ?thesis using keep_lock_inv [OF inv] by blast
next
  case (retry_load r t ro n ct)
  then show ?thesis using load_inv [OF inv] by blast
next
  case (retry_combine r ro n ct)
  then show ?thesis using keep_lock_inv [OF inv] by blast
next
  case (retry_read r t ro n ct resp rep)
  then show ?thesis using retry_read_inv [OF inv] by blast
next
  case (respond r t oper n resp rep)
  then show ?thesis using respond_inv [OF inv] by blast
next
  case (respond_panic r t oper n f)
  then show ?thesis using poll_total(1) [OF inv respond_panic(2) polling_known [OF inv respond_panic(2,3)]] by simp
next
  case (resync_panic r t oper n rep)
  then show ?thesis using resync_answered [OF inv] by blast
next
  case (invoke_read r t ro)
  then show ?thesis using invoke_inv [OF inv] by blast
next
  case (load_ctail r t ro n)
  then show ?thesis using load_inv [OF inv] by blast
next
  case (read_step r t ro n ct resp rep)
  then show ?thesis using read_inv [OF inv] by blast
next
  case (sync_start r rep lk)
  then show ?thesis using sync_start_inv [OF inv] by blast
next
  case (sync_log r l ph d)
  then show ?thesis using sync_log_inv [OF inv] by blast
next
  case (sync_panic r l oper)
  then show ?thesis using sync_no_panic [OF inv] by blast
next
  case (sync_nothing r)
  then show ?thesis using keep_lock_inv [OF inv] by blast
next
  case (sync_done r lk)
  then show ?thesis using sync_done_inv [OF inv] by blast
next
  case (cache_traffic l)
  then show ?thesis using cache_inv [OF inv] by blast
qed

interpretation nrc: inductive_invariant "sys_start k N d0" "nr_step False k N D" "nr_inv k N D d0"
  by unfold_locales (fact nr_inv_init, fact nr_inv_step)

lemma live_entry:
  assumes inv: "nr_inv k N D d0 s" "r < k" and b: "base s r = Some b" "t \<in> set (live_all s r)"
  shows "\<exists>q<length (sy_own s). sy_own s ! q = call_id s r t \<and> pending_write (sy_pc s r t) = Some (fst (hist (sy_log s) ! q))"
proof -
  note R = rep_invD [OF sys_invD(1) [OF inv]]
  let ?j = "answered_of (sy_phase s r)" and ?buf = "buffer (sy_rep s r)"
  obtain n a where C: "collected (sy_rep s r) n a ?j" using base_collected [OF R(3), of "pcs (sy_log s) r"] b(1) by auto
  have OB: "b + length ?buf \<le> length (sy_own s)" "drop (b + ?j) (take (b + length ?buf) (sy_own s)) = map (call_id s r) (live_all s r)"
    using own_okD(1) [OF R(6)] b(1) by (simp_all add: own_batch_ok_def)
  obtain x where x: "x < length (live_all s r)" "live_all s r ! x = t" using b(2) by (auto simp: in_set_conv_nth)
  have d: "drop ?j ?buf = map (op_of (sy_rep s r)) (live_all s r)" "?j \<le> length ?buf" using C by (simp_all add: collected_def)
  have len: "length ?buf = ?j + length (live_all s r)" using arg_cong [OF d(1), of length] d(2) by simp
  let ?q = "b + ?j + x"
  have q: "?q < b + length ?buf" using x(1) len by simp
  have own: "sy_own s ! ?q = call_id s r t" using arg_cong [OF OB(2), of "\<lambda>xs. xs ! x"] x q OB(1) by simp
  have "hist (sy_log s) ! (b + (?j + x)) = (?buf ! (?j + x), r + 1)"
    using R(4) b(1) q unfolding data_ok_def placed_def by simp
  moreover have "?buf ! (?j + x) = op_of (sy_rep s r) t"
  proof -
    have "drop ?j ?buf ! x = op_of (sy_rep s r) t" using d(1) x by simp
    then show ?thesis using q by simp
  qed
  moreover have "pending_write (sy_pc s r t) = Some (op_of (sy_rep s r) t)"
  proof -
    have t: "0 < t" "t \<le> MAX_THREADS_PER_REPLICA" using b(2) by (auto simp: live_def)
    have "flag_ok (sy_rep s r) t" using C b(2) by (auto simp: collected_def)
    then show ?thesis using ctx_cases [OF inv t] by (auto simp: flag_ok_def op_of_def)
  qed
  ultimately show ?thesis using own q OB(1) by (intro exI [of _ ?q]) (simp add: add.assoc)
qed

lemma own_pending:
  assumes inv: "nr_inv k N D d0 s" and p: "p < length (hist (sy_log s))"
  shows "sy_own s ! p \<in> an_id ` set (sy_calls s)
    \<or> (\<exists>r<k. \<exists>t. sy_own s ! p = call_id s r t \<and> pending_write (sy_pc s r t) = Some (fst (hist (sy_log s) ! p)))"
proof -
  note G = nr_invG [OF inv]
  obtain r t c where o: "sy_own s ! p = (r, t, c)" using prod_cases3 by blast
  then have mem: "(r, t, c) \<in> set (sy_own s)" using p G(3) by (metis nth_mem)
  then have r: "r < k" using G(4) by auto
  note R = rep_invD [OF sys_invD(1) [OF inv r]]
  note O = own_okD(2) [OF R(6) mem]
  have uniq: "q = p" if "q < length (sy_own s)" "sy_own s ! q = call_id s r t" "c = sy_cnt s r t" for q
    using that o p G(2,3) nth_eq_iff_index_eq [of "sy_own s" q p] by (simp add: calls_ok_def)
  have tc: "pc_ctx D d0 s r t (sy_pc s r t)" using R(5) [of t] O by (simp add: thread_ok_def)
  have "pending_write (sy_pc s r t) = Some (fst (hist (sy_log s) ! p))" if c: "c = sy_cnt s r t"
  proof (cases "answers (ctx s r t) = []")
    case False
    then obtain oper n resp where w: "answer_ok D d0 s r t oper n resp" "pending_write (sy_pc s r t) = Some oper"
      using tc by (cases "sy_pc s r t") (auto simp: wait_ok_def idle_ctx_def)
    then obtain q where "q < ran_to s r" "hist (sy_log s) ! q = (oper, r + 1)" "sy_own s ! q = call_id s r t" by (auto simp: answer_ok_def)
    moreover from this(1) have "q < length (sy_own s)" using sys_invD(2) [OF inv r] G(3) by simp
    ultimately show ?thesis using uniq [of q] c w(2) by simp
  next
    case True
    then obtain b where b: "base s r = Some b" "t \<in> set (live_all s r)" using O c by auto
    from live_entry [OF inv r b] obtain q where "q < length (sy_own s)" "sy_own s ! q = call_id s r t"
      "pending_write (sy_pc s r t) = Some (fst (hist (sy_log s) ! q))" by blast
    then show ?thesis using uniq [of q] c by simp
  qed
  then show ?thesis using O o r by (cases "c = sy_cnt s r t") auto
qed

end
