(* ===== verification/Replica_Runs.thy ===== *)
theory Replica_Runs
  imports Replica_Lin
begin

text \<open>
  Runs of the concurrent object, and its main property. One replica with two threads holds a counter: a write adds its
  argument and returns the old value. The steps of the log and of the replica are given on explicit
  states, and composed to a run in which one combiner serves both threads. The same run, with one
  registration moved between the two loads of the number of threads in \<open>combine\<close>, executes an operation twice.
\<close>

section \<open>States of one replica with two threads\<close>

abbreviation cells :: nat where
  "cells \<equiv> 2 * GC_FROM_HEAD"

definition lg :: "(nat \<Rightarrow> nat line) \<Rightarrow> (nat \<Rightarrow> (nat line \<times> bool) option) \<Rightarrow> nat \<Rightarrow> nat \<Rightarrow> nat \<Rightarrow> nat \<Rightarrow> nat pc \<Rightarrow> (nat \<times> nat) list
    \<Rightarrow> (nat \<times> bool) list \<Rightarrow> nat csys" where
  "lg mem ca cm ta ct lt c h ap =
     \<lparr>cmem = mem, cache = (\<lambda>_ _. None)(0 := ca), chead = 0, ctl = ta, ccommit = cm, cctail = ct, cltails = (\<lambda>_. 0)(0 := lt),
      pcs = (\<lambda>_. Idle)(0 := c), hist = h, applied = (\<lambda>_. [])(0 := ap)\<rparr>"

lemma lg_simps [simp]:
  "cmem (lg mem ca cm ta ct lt c h ap) = mem" "cache (lg mem ca cm ta ct lt c h ap) 0 = ca" "chead (lg mem ca cm ta ct lt c h ap) = 0"
  "ctl (lg mem ca cm ta ct lt c h ap) = ta" "ccommit (lg mem ca cm ta ct lt c h ap) = cm" "cctail (lg mem ca cm ta ct lt c h ap) = ct"
  "cltails (lg mem ca cm ta ct lt c h ap) 0 = lt" "pcs (lg mem ca cm ta ct lt c h ap) 0 = c" "hist (lg mem ca cm ta ct lt c h ap) = h"
  "applied (lg mem ca cm ta ct lt c h ap) 0 = ap"
  by (simp_all add: lg_def)

lemma lg_steps:
  "length ops \<le> GC_FROM_HEAD \<Longrightarrow> log_step 1 cells (lg mem ca cm ta ct lt Idle h ap) (lg mem ca cm ta ct lt (Loaded ops ta) h ap)"
  "t \<le> GC_FROM_HEAD \<Longrightarrow> log_step 1 cells (lg mem ca cm ta ct lt (Loaded ops t) h ap) (lg mem ca cm ta ct lt (Ready ops t) h ap)"
  "log_step 1 cells (lg mem ca cm ta ct lt (Ready ops ta) h ap)
     (lg mem ca cm (ta + length ops) ct lt (next_write ops ta 0) (h @ map (\<lambda>oper. (oper, 1)) ops) ap)"
  "p = st + i \<Longrightarrow> p < cells \<Longrightarrow> ca p = None \<Longrightarrow> log_step 1 cells (lg mem ca cm ta ct lt (WriteOp ops st i) h ap)
     (lg mem (ca(p \<mapsto> ((Some (ops ! i), snd (mem p)), True))) cm ta ct lt (WriteRep ops st i) h ap)"
  "p = st + i \<Longrightarrow> p < cells \<Longrightarrow> ca p = Some ((v, x), b) \<Longrightarrow> log_step 1 cells (lg mem ca cm ta ct lt (WriteRep ops st i) h ap)
     (lg mem (ca(p \<mapsto> ((v, 1), True))) cm ta ct lt (next_write ops st (i + 1)) h ap)"
  "log_step 1 cells (lg mem ca st ta ct lt (Publish st (Suc n)) h ap) (lg mem ca (st + Suc n) ta ct lt Idle h ap)"
  "lt \<noteq> cm \<Longrightarrow> log_step 1 cells (lg mem ca cm ta ct lt Idle h ap) (lg mem ca cm ta ct lt (ExecH cm) h ap)"
  "lt \<le> gt \<Longrightarrow> log_step 1 cells (lg mem ca cm ta ct lt (ExecH gt) h ap) (lg mem ca cm ta ct lt (Inval gt) h ap)"
  "i < gt \<Longrightarrow> i < cells \<Longrightarrow> ca i = None \<Longrightarrow> mem i = (Some oper, 1) \<Longrightarrow> log_step 1 cells (lg mem ca cm ta ct lt (Replay gt i) h ap)
     (lg mem ca cm ta ct lt (Replay gt (i + 1)) h (ap @ [(oper, True)]))"
  "ct \<le> gt \<Longrightarrow> log_step 1 cells (lg mem ca cm ta ct lt (Replay gt gt) h ap) (lg mem ca cm ta gt lt (Done gt) h ap)"
  "log_step 1 cells (lg mem ca cm ta ct lt (Done gt) h ap) (lg mem ca cm ta ct gt Idle h ap)"
proof -
  let ?step = "log_step 1 cells :: nat csys \<Rightarrow> nat csys \<Rightarrow> bool"
  show "?step (lg mem ca cm ta ct lt Idle h ap) (lg mem ca cm ta ct lt (Loaded ops ta) h ap)" if "length ops \<le> GC_FROM_HEAD"
    using load_tail [of 0 1 "lg mem ca cm ta ct lt Idle h ap" ops cells] that by (simp add: lg_def)
  show "?step (lg mem ca cm ta ct lt (Loaded ops t) h ap) (lg mem ca cm ta ct lt (Ready ops t) h ap)" if "t \<le> GC_FROM_HEAD"
    using load_head [of 0 1 "lg mem ca cm ta ct lt (Loaded ops t) h ap" ops t cells] that by (simp add: lg_def)
  show "?step (lg mem ca cm ta ct lt (Ready ops ta) h ap)
     (lg mem ca cm (ta + length ops) ct lt (next_write ops ta 0) (h @ map (\<lambda>oper. (oper, 1)) ops) ap)"
    using cas_ok [of 0 1 "lg mem ca cm ta ct lt (Ready ops ta) h ap" ops ta cells] by (simp add: lg_def)
  show "?step (lg mem ca cm ta ct lt (WriteOp ops st i) h ap)
     (lg mem (ca(p \<mapsto> ((Some (ops ! i), snd (mem p)), True))) cm ta ct lt (WriteRep ops st i) h ap)" if "p = st + i" "p < cells" "ca p = None"
    using write_op [of 0 1 "lg mem ca cm ta ct lt (WriteOp ops st i) h ap" ops st i p cells] that by (simp add: lg_def view_def)
  show "?step (lg mem ca cm ta ct lt (WriteRep ops st i) h ap)
     (lg mem (ca(p \<mapsto> ((v, 1), True))) cm ta ct lt (next_write ops st (i + 1)) h ap)" if "p = st + i" "p < cells" "ca p = Some ((v, x), b)"
    using write_rep [of 0 1 "lg mem ca cm ta ct lt (WriteRep ops st i) h ap" ops st i p cells] that by (simp add: lg_def view_def)
  show "?step (lg mem ca st ta ct lt (Publish st (Suc n)) h ap) (lg mem ca (st + Suc n) ta ct lt Idle h ap)"
    using publish_batch [of 0 1 "lg mem ca st ta ct lt (Publish st (Suc n)) h ap" st "Suc n" cells] by (simp add: lg_def)
  show "?step (lg mem ca cm ta ct lt Idle h ap) (lg mem ca cm ta ct lt (ExecH cm) h ap)" if "lt \<noteq> cm"
    using exec_tail [of 0 1 "lg mem ca cm ta ct lt Idle h ap" cells] that by (simp add: lg_def)
  show "?step (lg mem ca cm ta ct lt (ExecH gt) h ap) (lg mem ca cm ta ct lt (Inval gt) h ap)" if "lt \<le> gt"
    using exec_head [of 0 1 "lg mem ca cm ta ct lt (ExecH gt) h ap" gt cells] that by (simp add: lg_def)
  show "?step (lg mem ca cm ta ct lt (Replay gt i) h ap) (lg mem ca cm ta ct lt (Replay gt (i + 1)) h (ap @ [(oper, True)]))"
    if "i < gt" "i < cells" "ca i = None" "mem i = (Some oper, 1)"
    using replay_some [of 0 1 "lg mem ca cm ta ct lt (Replay gt i) h ap" gt i cells oper 1] that by (simp add: lg_def view_def)
  show "?step (lg mem ca cm ta ct lt (Replay gt gt) h ap) (lg mem ca cm ta gt lt (Done gt) h ap)" if "ct \<le> gt"
    using replay_end [of 0 1 "lg mem ca cm ta ct lt (Replay gt gt) h ap" gt cells] that by (simp add: lg_def max_absorb2)
  show "?step (lg mem ca cm ta ct lt (Done gt) h ap) (lg mem ca cm ta ct gt Idle h ap)"
    using store_ltail [of 0 1 "lg mem ca cm ta ct lt (Done gt) h ap" gt cells] by (simp add: lg_def)
qed

lemma lg_fence:
  assumes "P = slots cells st (st + length ops)" "\<forall>p\<in>P. \<exists>v. ca p = Some (v, True)"
  shows "log_step 1 cells (lg mem ca cm ta ct lt (Fence ops st) h ap)
    (lg (\<lambda>p. if p \<in> P then fst (the (ca p)) else mem p) (\<lambda>p. if p \<in> P then None else ca p) cm ta ct lt (Publish st (length ops)) h ap)"
proof -
  let ?l = "lg mem ca cm ta ct lt (Fence ops st) h ap"
  have "flush_mem ?l 0 P = (\<lambda>p. if p \<in> P then fst (the (ca p)) else mem p)"
    "flush_cache ?l 0 P = (\<lambda>_ _. None)(0 := (\<lambda>p. if p \<in> P then None else ca p))"
    using assms(2) by (fastforce simp: flush_mem_def flush_cache_def lg_def fun_eq_iff)+
  then show ?thesis using fence [of 0 1 ?l ops st P cells] assms(1) by (simp add: lg_def)
qed

lemma lg_inval:
  "log_step 1 cells (lg mem (\<lambda>_. None) cm ta ct lt (Inval gt) h ap) (lg mem (\<lambda>_. None) cm ta ct lt (Replay gt lt) h ap)"
proof -
  let ?l = "lg mem (\<lambda>_. None) cm ta ct lt (Inval gt) h ap" and ?P = "slots cells lt gt"
  have "flush_mem ?l 0 ?P = mem" "flush_cache ?l 0 ?P = (\<lambda>_ _. None)(0 := (\<lambda>_. None))"
    by (auto simp: flush_mem_def flush_cache_def lg_def fun_eq_iff)
  then show ?thesis using inval [of 0 1 ?l gt ?P cells] by (simp add: lg_def)
qed

definition adder :: "(nat, unit, nat, nat) dispatcher" where
  "adder = \<lparr>dispatch = \<lambda>d _. Inr d, dispatch_mut = \<lambda>oper d. Inr (d, d + oper), cn_idx = \<lambda>_. - 1, resp_eq = (=)\<rparr>"

type_synonym rep = "(nat, nat, nat) nr_replica"

definition st :: "nat csys \<Rightarrow> rep \<Rightarrow> phase \<Rightarrow> nat \<Rightarrow> (nat, unit) tpc \<Rightarrow> (nat, unit) tpc \<Rightarrow> (nat, unit, nat) answered list
    \<Rightarrow> (nat \<times> nat \<times> nat) list \<Rightarrow> nat \<Rightarrow> (nat, unit, nat, nat) nsys" where
  "st l rep ph ho p1 p2 calls own n1 =
     \<lparr>sy_log = l, sy_rep = (\<lambda>_. replica_with_data 0 0)(0 := rep), sy_phase = (\<lambda>_. Unlocked)(0 := ph), sy_holder = (\<lambda>_. 0)(0 := ho),
      sy_pc = (\<lambda>_ _. Out)(0 := (\<lambda>_. Out)(1 := p1, 2 := p2)), sy_calls = calls, sy_own = own, sy_cnt = (\<lambda>_ _. 0)(0 := (\<lambda>_. 0)(1 := n1))\<rparr>"

lemma st_simps [simp]:
  "sy_log (st l rep ph ho p1 p2 calls own n1) = l" "sy_rep (st l rep ph ho p1 p2 calls own n1) 0 = rep"
  "sy_phase (st l rep ph ho p1 p2 calls own n1) 0 = ph" "sy_holder (st l rep ph ho p1 p2 calls own n1) 0 = ho"
  "sy_pc (st l rep ph ho p1 p2 calls own n1) 0 1 = p1" "sy_pc (st l rep ph ho p1 p2 calls own n1) 0 2 = p2"
  "sy_calls (st l rep ph ho p1 p2 calls own n1) = calls" "sy_own (st l rep ph ho p1 p2 calls own n1) = own"
  "sy_cnt (st l rep ph ho p1 p2 calls own n1) 0 1 = n1" "sy_cnt (st l rep ph ho p1 p2 calls own n1) 0 2 = 0"
  by (simp_all add: st_def)

lemma st_updates [simp]:
  "set_rep (st l rep ph ho p1 p2 calls own n1) 0 rep' = st l rep' ph ho p1 p2 calls own n1"
  "set_phase (st l rep ph ho p1 p2 calls own n1) 0 ph' = st l rep ph' ho p1 p2 calls own n1"
  "set_holder (st l rep ph ho p1 p2 calls own n1) 0 ho' = st l rep ph ho' p1 p2 calls own n1"
  "set_pc (st l rep ph ho p1 p2 calls own n1) 0 1 p = st l rep ph ho p p2 calls own n1"
  "set_pc (st l rep ph ho p1 p2 calls own n1) 0 2 p = st l rep ph ho p1 p calls own n1"
  "(st l rep ph ho p1 p2 calls own n1)\<lparr>sy_log := l', sy_own := own'\<rparr> = st l' rep ph ho p1 p2 calls own' n1"
  by (simp_all add: st_def fun_upd_twist)

abbreviation run_step :: "bool \<Rightarrow> (nat, unit, nat, nat) nsys \<Rightarrow> (nat, unit, nat, nat) nsys \<Rightarrow> bool" where
  "run_step race \<equiv> nr_step race 1 cells adder"

lemma st_log:
  assumes "log_step 1 cells l l'" "pcs l' 0 \<noteq> pcs l 0" "comb_move (buffer rep) ph (pcs l 0) (pcs l' 0) = Some ph'" "applied l' 0 = applied l 0" "hist l' = hist l"
  shows "run_step race (st l rep ph ho p1 p2 calls own n1) (st l' rep ph' ho p1 p2 calls own n1)"
  using combine_log [of 0 1 cells "st l rep ph ho p1 p2 calls own n1" l' ph' adder "combine_view rep" race] assms by (simp add: news_def)

definition rp :: "nat \<Rightarrow> nat \<Rightarrow> (nat, nat, unit) op_context list \<Rightarrow> nat list \<Rightarrow> nat list \<Rightarrow> nat list \<Rightarrow> bool \<Rightarrow> nat \<Rightarrow> rep" where
  "rp nx co cs buf fl res w d = (replica_with_data_base_addr 1 0 0 0)\<lparr>rep_next := nx, combiner := co, contexts := cs, buffer := buf,
     inflight := fl, results := res, rep_data := \<lparr>wlock = w, rlock = replicate MAX_READER_THREADS 0, rw_data = d\<rparr>\<rparr>"

lemma rp_simps [simp]:
  "rep_next (rp nx co cs buf fl res w d) = nx" "combiner (rp nx co cs buf fl res w d) = co" "contexts (rp nx co cs buf fl res w d) = cs"
  "buffer (rp nx co cs buf fl res w d) = buf" "inflight (rp nx co cs buf fl res w d) = fl" "results (rp nx co cs buf fl res w d) = res"
  "rep_data (rp nx co cs buf fl res w d) = \<lparr>wlock = w, rlock = replicate MAX_READER_THREADS 0, rw_data = d\<rparr>"
  by (simp_all add: rp_def)

lemma rp_updates [simp]:
  "(rp nx co cs buf fl res w d)\<lparr>rep_next := nx'\<rparr> = rp nx' co cs buf fl res w d"
  "(rp nx co cs buf fl res w d)\<lparr>combiner := co'\<rparr> = rp nx co' cs buf fl res w d"
  "(rp nx co cs buf fl res w d)\<lparr>contexts := cs'\<rparr> = rp nx co cs' buf fl res w d"
  "(rp nx co cs buf fl res w d)\<lparr>results := res', buffer := buf'\<rparr> = rp nx co cs buf' fl res' w d"
  "(rp nx co cs buf fl res w d)\<lparr>buffer := buf', inflight := fl'\<rparr> = rp nx co cs buf' fl' res w d"
  "(rp nx co cs buf fl res w d)\<lparr>inflight := fl', contexts := cs'\<rparr> = rp nx co cs' buf fl' res w d"
  "(rp nx co cs buf fl res w d)\<lparr>rep_data := \<lparr>wlock = w', rlock = replicate MAX_READER_THREADS 0, rw_data = d'\<rparr>\<rparr> = rp nx co cs buf fl res w' d'"
  by (simp_all add: rp_def replica_with_data_base_addr_def)

lemma st_cas:
  assumes "log_step 1 cells l l'" "pcs l' 0 \<noteq> pcs l 0" "comb_move buf ph (pcs l 0) (pcs l' 0) = Some ph'" "applied l' 0 = applied l 0" "hist l' \<noteq> hist l"
  shows "run_step race (st l (rp nx co cs buf fl res w d) ph ho p1 p2 calls own n1)
    (st l' (rp nx co cs buf fl res w d) ph' ho p1 p2 calls
       (own @ map (call_id (st l (rp nx co cs buf fl res w d) ph ho p1 p2 calls own n1) 0) (batch_threads fl)) n1)"
  using combine_log [of 0 1 cells "st l (rp nx co cs buf fl res w d) ph ho p1 p2 calls own n1" l' ph' adder
      "combine_view (rp nx co cs buf fl res w d)" race] assms by (simp add: news_def)

lemma st_replay:
  assumes "log_step 1 cells l l'" "pcs l' 0 \<noteq> pcs l 0" "comb_move buf ph (pcs l 0) (pcs l' 0) = Some ph" "applied l' 0 = applied l 0 @ [(x, True)]" "hist l' = hist l"
  shows "run_step race (st l (rp nx co cs buf fl res w d) ph ho p1 p2 calls own n1) (st l' (rp nx co cs buf fl (res @ [d]) w (d + x)) ph ho p1 p2 calls own n1)"
proof -
  let ?rep = "rp nx co cs buf fl res w d"
  let ?s = "st l ?rep ph ho p1 p2 calls own n1"
  have same: "notify n (- 1) cn = cn" for n cn by (simp add: notify_def)
  have "combine_op True adder n a z x True (combine_view ?rep) = Inr (d + x, res @ [d], change_notif ?rep, flushed ?rep)" for n a z
    by (simp add: combine_op_def combine_view_def adder_def same Let_def)
  then have "feed (combine_op True adder n a z) (news l l' 0) (combine_view ?rep) = Inr (d + x, res @ [d], change_notif ?rep, flushed ?rep)" for n a z
    using assms(4) by (simp add: news_def)
  moreover have "with_data ?rep (d + x, res @ [d], change_notif ?rep, flushed ?rep) = rp nx co cs buf fl (res @ [d]) w (d + x)"
    by (simp add: with_data_def rp_def replica_with_data_base_addr_def)
  ultimately show ?thesis
    using combine_log [of 0 1 cells ?s l' ph adder "(d + x, res @ [d], change_notif ?rep, flushed ?rep)" race] assms by simp
qed

text \<open>Contexts: empty, with one operation, with its answer.\<close>

abbreviation c0 :: "(nat, nat, unit) op_context" where
  "c0 \<equiv> context_default ()"

definition asked :: "nat \<Rightarrow> (nat, nat, unit) op_context" where
  "asked x = snd (context_enqueue x () c0)"

lemma c0_idle: "ctx_inv c0" "pending_ops c0 = []" "answers c0 = []"
proof -
  have "c0 = context_new () 0" by (simp add: context_new_def context_default_def)
  then show "ctx_inv c0" "pending_ops c0 = []" "answers c0 = []" by (simp_all only: context_new_inv)
qed

lemma asked_facts: "context_enqueue x () c0 = (True, asked x)" "ctx_inv (asked x)" "pending_ops (asked x) = [(x, ())]" "answers (asked x) = []"
proof -
  have "fst (context_enqueue x () c0)" using cb.enq_full [OF c0_idle(1), of "(x, ())"] by (simp add: c0_idle MAX_PENDING_OPS_def)
  then show e: "context_enqueue x () c0 = (True, asked x)" by (simp add: asked_def prod_eq_iff)
  show "ctx_inv (asked x)" "pending_ops (asked x) = [(x, ())]" "answers (asked x) = []"
    using cb.enq_ok [OF c0_idle(1), of "(x, ())" "asked x"] e by (simp_all add: c0_idle)
qed

lemma st_thread_steps:
  shows "nx \<le> MAX_THREADS_PER_REPLICA \<Longrightarrow> race \<or> (\<forall>n. ph \<noteq> Counted n) \<Longrightarrow> run_step race (st l (rp nx co cs buf fl res w d) ph ho p1 p2 calls own n1)
      (st l (rp (nx + 1) co cs buf fl res w d) ph ho p1 p2 calls own n1)"
    "1 < nx \<Longrightarrow> run_step race (st l (rp nx co cs buf fl res w d) ph ho Out p2 calls own n1)
      (st l (rp nx co cs buf fl res w d) ph ho (Put x (length calls)) p2 calls own n1)"
    "2 < nx \<Longrightarrow> run_step race (st l (rp nx co cs buf fl res w d) ph ho p1 Out calls own n1)
      (st l (rp nx co cs buf fl res w d) ph ho p1 (Put x (length calls)) calls own n1)"
    "0 < length cs \<Longrightarrow> cs ! 0 = c0 \<Longrightarrow> run_step race (st l (rp nx co cs buf fl res w d) ph ho (Put x n) p2 calls own n1)
      (st l (rp nx co (cs[0 := asked x]) buf fl res w d) ph ho (Try x n) p2 calls own n1)"
    "1 < length cs \<Longrightarrow> cs ! 1 = c0 \<Longrightarrow> run_step race (st l (rp nx co cs buf fl res w d) ph ho p1 (Put x n) calls own n1)
      (st l (rp nx co (cs[1 := asked x]) buf fl res w d) ph ho p1 (Try x n) calls own n1)"
proof -
  let ?s = "\<lambda>rep p1 p2. st l rep ph ho p1 p2 calls own n1" and ?r = "rp nx co cs buf fl res w d"
  show "run_step race (?s ?r p1 p2) (?s (rp (nx + 1) co cs buf fl res w d) p1 p2)" if "nx \<le> MAX_THREADS_PER_REPLICA" "race \<or> (\<forall>n. ph \<noteq> Counted n)"
    using register_step [of 0 1 race "?s ?r p1 p2" nx "rp (nx + 1) co cs buf fl res w d" cells adder] that by (simp add: Let_def)
  show "run_step race (?s ?r Out p2) (?s ?r (Put x (length calls)) p2)" if "1 < nx"
    using invoke_mut [of 0 1 1 "?s ?r Out p2" race cells adder x] that by simp
  show "run_step race (?s ?r p1 Out) (?s ?r p1 (Put x (length calls)))" if "2 < nx"
    using invoke_mut [of 0 1 2 "?s ?r p1 Out" race cells adder x] that by simp
  show "run_step race (?s ?r (Put x n) p2) (?s (rp nx co (cs[0 := asked x]) buf fl res w d) (Try x n) p2)" if "0 < length cs" "cs ! 0 = c0"
    using pend [of 0 1 "?s ?r (Put x n) p2" 1 x n "rp nx co (cs[0 := asked x]) buf fl res w d" race cells adder] that
    by (simp add: make_pending_def asked_facts(1))
  show "run_step race (?s ?r p1 (Put x n)) (?s (rp nx co (cs[1 := asked x]) buf fl res w d) p1 (Try x n))" if "1 < length cs" "cs ! 1 = c0"
    using pend [of 0 1 "?s ?r p1 (Put x n)" 2 x n "rp nx co (cs[1 := asked x]) buf fl res w d" race cells adder] that
    by (simp add: make_pending_def asked_facts(1) flip: One_nat_def)
qed

lemma two_slots:
  "length ((replicate MAX_THREADS_PER_REPLICA z)[0 := x, 1 := y]) = MAX_THREADS_PER_REPLICA"
  "(replicate MAX_THREADS_PER_REPLICA z)[0 := x, 1 := y] ! 0 = x" "(replicate MAX_THREADS_PER_REPLICA z)[0 := x, 1 := y] ! 1 = y"
  "((replicate MAX_THREADS_PER_REPLICA z)[0 := x, 1 := y])[0 := x'] = (replicate MAX_THREADS_PER_REPLICA z)[0 := x', 1 := y]"
  "((replicate MAX_THREADS_PER_REPLICA z)[0 := x, 1 := y])[1 := y'] = (replicate MAX_THREADS_PER_REPLICA z)[0 := x, 1 := y']"
  by (simp_all add: MAX_THREADS_PER_REPLICA_def list_update_swap)

abbreviation cx :: "(nat, nat, unit) op_context \<Rightarrow> (nat, nat, unit) op_context \<Rightarrow> (nat, nat, unit) op_context list" where
  "cx a b \<equiv> (replicate MAX_THREADS_PER_REPLICA c0)[0 := a, 1 := b]"

abbreviation fx :: "nat \<Rightarrow> nat \<Rightarrow> nat list" where
  "fx a b \<equiv> (replicate MAX_THREADS_PER_REPLICA 0)[0 := a, 1 := b]"

lemma st_collect:
  assumes "i < m" "i \<in> {1, 2}" "ctx_inv a" "ctx_inv b"
  shows "run_step race (st l (rp nx co (cx a b) buf (fx x y) res w d) (Gather n m i) ho p1 p2 calls own n1)
    (st l (rp nx co (cx a b) (buf @ map fst (pending_ops (if i = 1 then a else b)))
        (if i = 1 then fx (length (pending_ops a)) y else fx x (length (pending_ops b))) res w d) (Gather n m (i + 1)) ho p1 p2 calls own n1)"
proof -
  have j: "i - 1 = (if i = 1 then 0 else 1)" "(if i = 1 then 0 else 1) < MAX_THREADS_PER_REPLICA"
    using assms(2) by (auto simp: MAX_THREADS_PER_REPLICA_def)
  have i: "i - 1 < length (cx a b)" "i - 1 < length (fx x y)" "cx a b ! (i - 1) = (if i = 1 then a else b)"
    unfolding j(1) two_slots(1) using j(2) by (simp_all add: two_slots)
  have c: "ctx_inv (cx a b ! (i - 1))" using i(3) assms(3,4) by simp
  have "(fx x y)[i - 1 := z] = (if i = 1 then fx z y else fx x z)" for z unfolding j(1) by (simp add: two_slots)
  then have "collect_thread_ops [i] (cx a b) buf (fx x y) = Inr (buf @ map fst (pending_ops (if i = 1 then a else b)),
      if i = 1 then fx (length (pending_ops a)) y else fx x (length (pending_ops b)))"
    using collect_single [OF c i(1,2)] i(3) by (auto simp del: collect_thread_ops.simps)
  then show ?thesis
    using collect_one [of 0 1 "st l (rp nx co (cx a b) buf (fx x y) res w d) (Gather n m i) ho p1 p2 calls own n1" n m i _ _ race cells adder] assms(1)
    by (simp del: collect_thread_ops.simps)
qed

lemma free_readers [simp]: "rw_write n \<lparr>wlock = False, rlock = replicate m 0, rw_data = d\<rparr> = Inr \<lparr>wlock = True, rlock = replicate m 0, rw_data = d\<rparr>"
  by (simp add: rw_write_def list_all_iff in_set_conv_nth)

lemma st_combine_steps:
  shows "run_step race (st l (rp nx 0 cs buf fl res w d) ph 0 (Try x n) p2 calls own n1) (st l (rp nx 1 cs buf fl res w d) Acquired 1 (Try x n) p2 calls own n1)"
    "run_step race (st l (rp nx 0 cs buf fl res w d) ph 0 p1 (Try x n) calls own n1) (st l (rp nx 1 cs buf fl res w d) Acquired 2 p1 (Try x n) calls own n1)"
    "run_step race (st l (rp nx co cs buf fl res w d) Acquired ho p1 p2 calls own n1) (st l (rp nx co cs [] fl [] w d) (Counted nx) ho p1 p2 calls own n1)"
    "run_step race (st l (rp nx co cs buf fl res w d) (Counted n) ho p1 p2 calls own n1) (st l (rp nx co cs buf fl res w d) (Gather n nx 1) ho p1 p2 calls own n1)"
    "run_step race (st l (rp nx co cs buf fl res False d) (Gather n m m) ho p1 p2 calls own n1) (st l (rp nx co cs buf fl res True d) (Appending n) ho p1 p2 calls own n1)"
    "pcs l 0 = Idle \<Longrightarrow> run_step race (st l (rp nx co cs buf fl res True d) (Appended n b) ho p1 p2 calls own n1)
      (st l (rp nx co cs buf fl res False d) (Between n b False) ho p1 p2 calls own n1)"
    "run_step race (st l (rp nx co cs buf fl res False d) (Between n b False) ho p1 p2 calls own n1)
      (st l (rp nx co cs buf fl res True d) (Executing n b False) ho p1 p2 calls own n1)"
    "run_step race (st l (rp nx co cs buf fl res True d) (Unlocking n b False) ho p1 p2 calls own n1)
      (st l (rp nx co cs buf fl res False d) (Answering n b False 1 0) ho p1 p2 calls own n1)"
    "run_step race (st l (rp nx co cs buf fl res w d) (Answering n b False n j) 1 (Try x m) p2 calls own n1)
      (st l (rp nx 0 cs buf fl res w d) Unlocked 0 (Poll x m) p2 calls own n1)"
proof -
  let ?s = "\<lambda>co buf res w ph ho p1 p2. st l (rp nx co cs buf fl res w d) ph ho p1 p2 calls own n1"
  show "run_step race (?s 0 buf res w ph 0 (Try x n) p2) (?s 1 buf res w Acquired 1 (Try x n) p2)"
    using take_lock [of 0 1 "?s 0 buf res w ph 0 (Try x n) p2" 1 "rp nx 1 cs buf fl res w d" race cells adder] by (simp add: acquire_combiner_lock_def)
  show "run_step race (?s 0 buf res w ph 0 p1 (Try x n)) (?s 1 buf res w Acquired 2 p1 (Try x n))"
    using take_lock [of 0 1 "?s 0 buf res w ph 0 p1 (Try x n)" 2 "rp nx 1 cs buf fl res w d" race cells adder] by (simp add: acquire_combiner_lock_def)
  show "run_step race (?s co buf res w Acquired ho p1 p2) (?s co [] [] w (Counted nx) ho p1 p2)"
    using count_threads [of 0 1 "?s co buf res w Acquired ho p1 p2" race cells adder] by simp
  show "run_step race (?s co buf res w (Counted n) ho p1 p2) (?s co buf res w (Gather n nx 1) ho p1 p2)"
    using collect_start [of 0 1 "?s co buf res w (Counted n) ho p1 p2" n race cells adder] by simp
  show "run_step race (?s co buf res False (Gather n m m) ho p1 p2) (?s co buf res True (Appending n) ho p1 p2)"
    using append_start [of 0 1 "?s co buf res False (Gather n m m) ho p1 p2" n m m _ race cells adder] by simp
  show "run_step race (?s co buf res True (Appended n b) ho p1 p2) (?s co buf res False (Between n b False) ho p1 p2)" if "pcs l 0 = Idle"
    using append_done [of 0 1 "?s co buf res True (Appended n b) ho p1 p2" n b _ race cells adder False] that by (simp add: rw_write_unlock_def)
  show "run_step race (?s co buf res False (Between n b False) ho p1 p2) (?s co buf res True (Executing n b False) ho p1 p2)"
    using exec_start [of 0 1 "?s co buf res False (Between n b False) ho p1 p2" n b False _ race cells adder] by simp
  show "run_step race (?s co buf res True (Unlocking n b False) ho p1 p2) (?s co buf res False (Answering n b False 1 0) ho p1 p2)"
    using exec_done [of 0 1 "?s co buf res True (Unlocking n b False) ho p1 p2" n b False _ race cells adder] by (simp add: rw_write_unlock_def)
  show "run_step race (?s co buf res w (Answering n b False n j) 1 (Try x m) p2) (?s 0 buf res w Unlocked 0 (Poll x m) p2)"
    using combine_done [of 0 1 "?s co buf res w (Answering n b False n j) 1 (Try x m) p2" n b False n j 1 race cells adder] by (simp add: combiner_drop_def)
qed

lemma st_answer:
  assumes "1 < n"
  shows "run_step race (st l (rp nx co (cx a b) buf (fx 1 y) (v # vs) w d) (Answering n q False 1 0) ho p1 p2 calls own n1)
    (st l (rp nx co (cx (context_enqueue_resp v a) b) buf (fx 0 y) (v # vs) w d) (Answering n q False 2 1) ho p1 p2 calls own n1)"
proof -
  let ?s = "st l (rp nx co (cx a b) buf (fx 1 y) (v # vs) w d) (Answering n q False 1 0) ho p1 p2 calls own n1"
  have "0 < MAX_THREADS_PER_REPLICA" by (simp add: MAX_THREADS_PER_REPLICA_def)
  then have "distribute [1] (v # vs) 0 0 (fx 1 y) (cx a b) = Inr (fx 0 y, cx (context_enqueue_resp v a) b)"
    by (simp add: two_slots segment_def Let_def take_Cons')
  then show ?thesis
    using answer_one [of 0 1 ?s n q False 1 0 "fx 0 y" "cx (context_enqueue_resp v a) b" race cells adder] assms two_slots(2) [of 0 1 y]
    by (simp del: distribute.simps flip: One_nat_def)
qed

lemma st_answer_second:
  assumes "2 < n"
  shows "run_step race (st l (rp nx co (cx a b) buf (fx 0 1) [u, v] w d) (Answering n q False 2 1) ho p1 p2 calls own n1)
    (st l (rp nx co (cx a (context_enqueue_resp v b)) buf (fx 0 0) [u, v] w d) (Answering n q False 3 2) ho p1 p2 calls own n1)"
proof -
  let ?s = "st l (rp nx co (cx a b) buf (fx 0 1) [u, v] w d) (Answering n q False 2 1) ho p1 p2 calls own n1"
  have "1 < MAX_THREADS_PER_REPLICA" "segment 1 (1 + 1) [u, v] = [v]" by (simp_all add: MAX_THREADS_PER_REPLICA_def segment_def One_nat_def)
  then have "distribute [2] [u, v] 1 1 (fx 0 1) (cx a b) = Inr (fx 0 0, cx a (context_enqueue_resp v b))"
    by (simp add: two_slots Let_def flip: One_nat_def)
  then show ?thesis
    using answer_one [of 0 1 ?s n q False 2 1 "fx 0 0" "cx a (context_enqueue_resp v b)" race cells adder] assms two_slots(3) [of "0::nat" 0 1]
    by (simp del: distribute.simps flip: One_nat_def)
qed

lemma st_respond:
  assumes "context_res a = Inr (Some v, a')"
  shows "run_step race (st l (rp nx co (cx a b) buf fl res w d) ph 0 (Poll x n) p2 calls own n1)
    (st l (rp nx co (cx a' b) buf fl res w d) ph 0 Out p2
       (calls @ [\<lparr>an_id = (0, 1, n1), an_start = n, an_call = Write x, an_resp = v, an_pos = position (0, 1, n1) own\<rparr>]) own (n1 + 1))"
proof -
  let ?s = "st l (rp nx co (cx a b) buf fl res w d) ph 0 (Poll x n) p2 calls own n1"
  have "0 < MAX_THREADS_PER_REPLICA" by (simp add: MAX_THREADS_PER_REPLICA_def)
  then have "poll_context 1 (rp nx co (cx a b) buf fl res w d) = Inr (Some v, rp nx co (cx a' b) buf fl res w d)"
    using assms by (simp add: poll_context_def two_slots)
  then show ?thesis
    using respond [of 0 1 ?s 1 x n v "rp nx co (cx a' b) buf fl res w d" race cells adder]
    by (simp add: return_call_def st_def fun_upd_twist)
qed

section \<open>Runs\<close>

text \<open>The batch \<open>ops\<close> is reserved in the log; two operations are written, flushed and published.\<close>

lemma reserve_run:
  assumes "length buf \<le> GC_FROM_HEAD" "ta \<le> GC_FROM_HEAD" "buf \<noteq> []"
    and new: "ta' = ta + length buf" "h' = h @ map (\<lambda>oper. (oper, 1)) buf" "own' = own @ map (\<lambda>t. (0, t, if t = 1 then n1 else 0)) (batch_threads fl)"
  shows "(run_step race)\<^sup>*\<^sup>* (st (lg mem ca cm ta ct lt Idle h ap) (rp nx co cs buf fl res w d) (Appending n) ho p1 p2 calls own n1)
    (st (lg mem ca cm ta' ct lt (WriteOp buf ta 0) h' ap) (rp nx co cs buf fl res w d) (Appending n) ho p1 p2 calls own' n1)"
    (is "(run_step race)\<^sup>*\<^sup>* ?s ?s'")
proof -
  let ?st = "\<lambda>c. st (lg mem ca cm ta ct lt c h ap) (rp nx co cs buf fl res w d) (Appending n) ho p1 p2 calls own n1"
  have "(run_step race)\<^sup>*\<^sup>* (?st Idle) (?st (Loaded buf ta))"
    by (rule r_into_rtranclp, rule st_log [OF lg_steps(1) [OF assms(1)]]) (simp_all add: comb_move_def)
  also have "run_step race (?st (Loaded buf ta)) (?st (Ready buf ta))" by (rule st_log [OF lg_steps(2) [OF assms(2)]]) (simp_all add: comb_move_def)
  also have "run_step race (?st (Ready buf ta)) ?s'"
  proof -
    have i: "call_id (?st (Ready buf ta)) 0 = (\<lambda>t. (0, t, if t = 1 then n1 else 0))" by (simp add: st_def fun_eq_iff)
    have "next_write buf ta 0 = WriteOp buf ta 0" using assms(3) by (simp add: next_write_def)
    from st_cas [OF lg_steps(3) [of mem ca cm ta ct lt buf h ap, unfolded this], of buf "Appending n" "Appending n" race nx co cs fl res w d ho p1 p2 calls own n1, unfolded i]
    show ?thesis unfolding new using assms(3) by (simp add: comb_move_def)
  qed
  finally show ?thesis .
qed

text \<open>The two operations of the first batch in memory.\<close>

definition two_lines :: "nat \<Rightarrow> nat \<Rightarrow> nat \<Rightarrow> nat line" where
  "two_lines x y = (\<lambda>_. (None, 0))(0 := (Some x, 1), 1 := (Some y, 1))"

lemma write_run:
  "(run_step race)\<^sup>*\<^sup>* (st (lg (\<lambda>_. (None, 0)) (\<lambda>_. None) 0 2 0 0 (WriteOp [x, y] 0 0) h ap) (rp nx co cs buf fl res w d) (Appending n) ho p1 p2 calls own n1)
    (st (lg (two_lines x y) (\<lambda>_. None) 2 2 0 0 Idle h ap) (rp nx co cs buf fl res w d) (Appended n 0) ho p1 p2 calls own n1)"
proof -
  let ?st = "\<lambda>mem ca c. st (lg mem ca 0 2 0 0 c h ap) (rp nx co cs buf fl res w d) (Appending n) ho p1 p2 calls own n1"
  let ?m = "\<lambda>_. (None, 0)" and ?ops = "[x, y]"
  let ?c1 = "(\<lambda>_. None)(0 \<mapsto> ((Some x, 0), True))" and ?c2 = "(\<lambda>_. None)(0 \<mapsto> ((Some x, 1), True))"
  let ?c3 = "?c2(1 \<mapsto> ((Some y, 0), True))" and ?c4 = "?c2(1 \<mapsto> ((Some y, 1), True))"
  have cells: "0 < cells" "1 < cells" by (simp_all add: GC_FROM_HEAD_def MAX_PENDING_OPS_def MAX_THREADS_PER_REPLICA_def)
  have nw: "next_write ?ops 0 (0 + 1) = WriteOp ?ops 0 1" "next_write ?ops 0 (1 + 1) = Fence ?ops 0" by (simp_all add: next_write_def)
  have "(run_step race)\<^sup>*\<^sup>* (?st ?m (\<lambda>_. None) (WriteOp ?ops 0 0)) (?st ?m ?c1 (WriteRep ?ops 0 0))"
    using lg_steps(4) [of 0 0 0 "\<lambda>_. None" ?m 0 2 0 0 ?ops h ap] cells
    by (intro r_into_rtranclp st_log) (simp_all add: comb_move_def)
  also have "run_step race (?st ?m ?c1 (WriteRep ?ops 0 0)) (?st ?m ?c2 (WriteOp ?ops 0 1))"
    using lg_steps(5) [of 0 0 0 ?c1 "Some x" 0 True ?m 0 2 0 0 ?ops h ap, unfolded nw] cells
    by (intro st_log) (simp_all add: comb_move_def)
  also have "run_step race (?st ?m ?c2 (WriteOp ?ops 0 1)) (?st ?m ?c3 (WriteRep ?ops 0 1))"
    using lg_steps(4) [of 1 0 1 ?c2 ?m 0 2 0 0 ?ops h ap] cells
    by (intro st_log) (simp_all add: comb_move_def)
  also have "run_step race (?st ?m ?c3 (WriteRep ?ops 0 1)) (?st ?m ?c4 (Fence ?ops 0))"
    using lg_steps(5) [of 1 0 1 ?c3 "Some y" 0 True ?m 0 2 0 0 ?ops h ap, unfolded nw] cells
    by (intro st_log) (simp_all add: comb_move_def)
  also have "run_step race (?st ?m ?c4 (Fence ?ops 0)) (?st (two_lines x y) (\<lambda>_. None) (Publish 0 2))"
  proof (rule st_log)
    have "slots cells 0 (0 + length ?ops) = {0, 1}" using cells by (auto simp: slots_def image_def)
    then have P: "{0, 1} = slots cells 0 (0 + length ?ops)" by simp
    have e: "(\<lambda>p. if p \<in> {0, 1} then fst (the (?c4 p)) else ?m p) = two_lines x y" "(\<lambda>p. if p \<in> {0, 1} then None else ?c4 p) = (\<lambda>_. None)"
      "length ?ops = 2" by (auto simp: two_lines_def fun_eq_iff)
    have "\<forall>p\<in>{0, 1}. \<exists>v. ?c4 p = Some (v, True)" by simp
    from lg_fence [OF P this, of ?m 0 2 0 0 h ap, unfolded e]
    show "log_step 1 cells (lg ?m ?c4 0 2 0 0 (Fence ?ops 0) h ap) (lg (two_lines x y) (\<lambda>_. None) 0 2 0 0 (Publish 0 2) h ap)" .
  qed (simp_all add: comb_move_def)
  also have "run_step race (?st (two_lines x y) (\<lambda>_. None) (Publish 0 2))
      (st (lg (two_lines x y) (\<lambda>_. None) 2 2 0 0 Idle h ap) (rp nx co cs buf fl res w d) (Appended n 0) ho p1 p2 calls own n1)"
    using lg_steps(6) [of "two_lines x y" "\<lambda>_. None" 0 2 0 0 1 h ap]
    by (intro st_log) (simp_all add: comb_move_def numeral_2_eq_2 One_nat_def)
  finally show ?thesis .
qed

text \<open>The replica executes the two operations of the batch.\<close>

lemma replay_run:
  "(run_step race)\<^sup>*\<^sup>* (st (lg (two_lines x y) (\<lambda>_. None) 2 2 0 0 Idle h []) (rp nx co cs buf fl [] w d) (Executing n b False) ho p1 p2 calls own n1)
    (st (lg (two_lines x y) (\<lambda>_. None) 2 2 2 2 Idle h [(x, True), (y, True)]) (rp nx co cs buf fl [d, d + x] w (d + x + y)) (Unlocking n b False)
       ho p1 p2 calls own n1)"
proof -
  let ?st = "\<lambda>ct lt c ap res d. st (lg (two_lines x y) (\<lambda>_. None) 2 2 ct lt c h ap) (rp nx co cs buf fl res w d) (Executing n b False) ho p1 p2 calls own n1"
  let ?l = "two_lines x y"
  have cells: "0 < cells" "1 < cells" by (simp_all add: GC_FROM_HEAD_def MAX_PENDING_OPS_def MAX_THREADS_PER_REPLICA_def)
  have "(run_step race)\<^sup>*\<^sup>* (?st 0 0 Idle [] [] d) (?st 0 0 (ExecH 2) [] [] d)"
    using lg_steps(7) [of 0 2 ?l "\<lambda>_. None" 2 0 h "[]"] by (intro r_into_rtranclp st_log) (simp_all add: comb_move_def)
  also have "run_step race (?st 0 0 (ExecH 2) [] [] d) (?st 0 0 (Inval 2) [] [] d)"
    using lg_steps(8) [of 0 2 ?l "\<lambda>_. None" 2 2 0 h "[]"] by (intro st_log) (simp_all add: comb_move_def)
  also have "run_step race (?st 0 0 (Inval 2) [] [] d) (?st 0 0 (Replay 2 0) [] [] d)"
    using lg_inval [of ?l 2 2 0 0 2 h "[]"] by (intro st_log) (simp_all add: comb_move_def)
  also have "run_step race (?st 0 0 (Replay 2 0) [] [] d) (?st 0 0 (Replay 2 1) [(x, True)] [d] (d + x))"
    using lg_steps(9) [of 0 2 "\<lambda>_. None" ?l x 2 2 0 0 h "[]"] cells
      st_replay [of "lg ?l (\<lambda>_. None) 2 2 0 0 (Replay 2 0) h []" "lg ?l (\<lambda>_. None) 2 2 0 0 (Replay 2 1) h [(x, True)]" buf
         "Executing n b False" x race nx co cs fl "[]" w d] by (simp add: comb_move_def two_lines_def)
  also have "run_step race (?st 0 0 (Replay 2 1) [(x, True)] [d] (d + x)) (?st 0 0 (Replay 2 2) [(x, True), (y, True)] [d, d + x] (d + x + y))"
    using lg_steps(9) [of 1 2 "\<lambda>_. None" ?l y 2 2 0 0 h "[(x, True)]"] cells
      st_replay [of "lg ?l (\<lambda>_. None) 2 2 0 0 (Replay 2 1) h [(x, True)]" "lg ?l (\<lambda>_. None) 2 2 0 0 (Replay 2 2) h [(x, True), (y, True)]" buf
         "Executing n b False" y race nx co cs fl "[d]" w "d + x"] by (simp add: comb_move_def two_lines_def)
  also have "run_step race (?st 0 0 (Replay 2 2) [(x, True), (y, True)] [d, d + x] (d + x + y)) (?st 2 0 (Done 2) [(x, True), (y, True)] [d, d + x] (d + x + y))"
    using lg_steps(10) [of 0 2 ?l "\<lambda>_. None" 2 2 0 h "[(x, True), (y, True)]"] by (intro st_log) (simp_all add: comb_move_def)
  also have "run_step race (?st 2 0 (Done 2) [(x, True), (y, True)] [d, d + x] (d + x + y)) (st (lg ?l (\<lambda>_. None) 2 2 2 2 Idle h [(x, True), (y, True)])
      (rp nx co cs buf fl [d, d + x] w (d + x + y)) (Unlocking n b False) ho p1 p2 calls own n1)"
    using lg_steps(11) [of ?l "\<lambda>_. None" 2 2 2 0 2 h "[(x, True), (y, True)]"] by (intro st_log) (simp_all add: comb_move_def)
  finally show ?thesis .
qed

abbreviation mem0 :: "nat \<Rightarrow> nat line" where
  "mem0 \<equiv> \<lambda>_. (None, 0)"

abbreviation log0 :: "nat csys" where
  "log0 \<equiv> lg mem0 (\<lambda>_. None) 0 0 0 0 Idle [] []"

text \<open>Both threads have put in an operation; the combiner collects both.\<close>

lemma collect_run:
  "(run_step race)\<^sup>*\<^sup>* (st log0 (rp 3 1 (cx (asked 1) (asked 5)) [] (fx 0 0) [] False 0) (Counted n) 1 (Try 1 0) (Try 5 0) [] [] 0)
    (st log0 (rp 3 1 (cx (asked 1) (asked 5)) [1, 5] (fx 1 1) [] True 0) (Appending n) 1 (Try 1 0) (Try 5 0) [] [] 0)"
proof -
  let ?a = "asked 1" and ?b = "asked 5"
  let ?st = "\<lambda>buf x y w ph. st log0 (rp 3 1 (cx ?a ?b) buf (fx x y) [] w 0) ph 1 (Try 1 0) (Try 5 0) [] [] 0"
  have "(run_step race)\<^sup>*\<^sup>* (?st [] 0 0 False (Counted n)) (?st [] 0 0 False (Gather n 3 1))"
    by (rule r_into_rtranclp, rule st_combine_steps(4))
  also have "run_step race (?st [] 0 0 False (Gather n 3 1)) (?st [1] 1 0 False (Gather n 3 2))"
    using st_collect [of 1 3 ?a ?b race log0 3 1 "[]" 0 0 "[]" False 0 n 1] by (simp add: asked_facts flip: One_nat_def)
  also have "run_step race (?st [1] 1 0 False (Gather n 3 2)) (?st [1, 5] 1 1 False (Gather n 3 3))"
    using st_collect [of 2 3 ?a ?b race log0 3 1 "[1]" 1 0 "[]" False 0 n 1] by (simp add: asked_facts flip: One_nat_def)
  also have "run_step race (?st [1, 5] 1 1 False (Gather n 3 3)) (?st [1, 5] 1 1 True (Appending n))"
    by (rule st_combine_steps(5))
  finally show ?thesis .
qed

lemma batch_of_two: "batch_threads (fx x y) = replicate x 1 @ replicate y 2"
proof -
  let ?g = "\<lambda>t. replicate (fx x y ! (t - 1)) t" and ?m = "MAX_THREADS_PER_REPLICA + 1"
  have m: "2 < ?m" by (simp add: MAX_THREADS_PER_REPLICA_def)
  have "[1..<?m] = 1 # 2 # [3..<?m]" using m by (simp add: upt_conv_Cons numeral_2_eq_2 numeral_3_eq_3 One_nat_def)
  moreover have "fx x y ! (t - 1) = 0" if "t \<in> set [3..<?m]" for t
  proof -
    have "t - 1 \<noteq> 1" "t - 1 \<noteq> 0" "t - 1 < MAX_THREADS_PER_REPLICA" using that by auto
    then show ?thesis by simp
  qed
  then have "concat (map ?g [3..<?m]) = []" by simp
  moreover have "?g 1 = replicate x 1" "?g 2 = replicate y 2" using two_slots(2,3) [of 0 x y] by (simp_all flip: One_nat_def)
  ultimately have "concat (map ?g [1..<?m]) = replicate x 1 @ replicate y 2" by (simp only: list.map concat.simps append_Nil2)
  then show ?thesis by (simp add: batch_threads_def)
qed

lemma the_batches: "batch_threads (fx 1 1) = [1, 2]" "batch_threads (fx 0 1) = [2]"
  unfolding batch_of_two by (simp_all add: One_nat_def)

text \<open>The batch goes through the log and is executed; thread 1 finds its response in its context.\<close>

abbreviation log2 :: "nat csys" where
  "log2 \<equiv> lg (two_lines 1 5) (\<lambda>_. None) 2 2 2 2 Idle [(1, 1), (5, 1)] [(1, True), (5, True)]"

abbreviation served :: "(nat, nat, unit) op_context" where
  "served \<equiv> context_enqueue_resp 0 (asked 1)"

lemma batch_run:
  assumes "1 < n"
  shows "(run_step race)\<^sup>*\<^sup>* (st log0 (rp 3 1 (cx (asked 1) (asked 5)) [1, 5] (fx 1 1) [] True 0) (Appending n) 1 (Try 1 0) (Try 5 0) [] [] 0)
    (st log2 (rp 3 1 (cx served (asked 5)) [1, 5] (fx 0 1) [0, 1] False 6) (Answering n 0 False 2 1) 1 (Try 1 0) (Try 5 0) [] [(0, 1, 0), (0, 2, 0)] 0)"
    (is "(run_step race)\<^sup>*\<^sup>* ?s0 _")
proof -
  let ?a = "asked 1" and ?b = "asked 5" and ?ids = "[(0, 1, 0), (0, 2, 0)]"
  let ?l = "lg (two_lines 1 5) (\<lambda>_. None) 2 2 0 0 Idle [(1, 1), (5, 1)] []"
  let ?st = "\<lambda>l a x res w d ph. st l (rp 3 1 (cx a ?b) [1, 5] (fx x 1) res w d) ph 1 (Try 1 0) (Try 5 0) [] ?ids 0"
  have g: "2 \<le> GC_FROM_HEAD" by (simp add: GC_FROM_HEAD_def MAX_PENDING_OPS_def MAX_THREADS_PER_REPLICA_def)
  have "(run_step race)\<^sup>*\<^sup>* ?s0 (?st (lg mem0 (\<lambda>_. None) 0 2 0 0 (WriteOp [1, 5] 0 0) [(1, 1), (5, 1)] []) ?a 1 [] True 0 (Appending n))"
    by (rule reserve_run) (use g in \<open>simp_all add: the_batches\<close>)
  then have "(run_step race)\<^sup>*\<^sup>* ?s0 (?st ?l ?a 1 [] True 0 (Appended n 0))" by (rule rtranclp_trans [OF _ write_run])
  also have "run_step race (?st ?l ?a 1 [] True 0 (Appended n 0)) (?st ?l ?a 1 [] False 0 (Between n 0 False))"
    by (rule st_combine_steps(6)) simp
  also have "run_step race (?st ?l ?a 1 [] False 0 (Between n 0 False)) (?st ?l ?a 1 [] True 0 (Executing n 0 False))"
    by (rule st_combine_steps(7))
  finally have "(run_step race)\<^sup>*\<^sup>* ?s0 (?st ?l ?a 1 [] True 0 (Executing n 0 False))" .
  moreover have "(run_step race)\<^sup>*\<^sup>* (?st ?l ?a 1 [] True 0 (Executing n 0 False)) (?st log2 ?a 1 [0, 1] True 6 (Unlocking n 0 False))"
    using replay_run [of race 1 5 "[(1, 1), (5, 1)]" 3 1 "cx ?a ?b" "[1, 5]" "fx 1 1" True 0] by simp
  ultimately have "(run_step race)\<^sup>*\<^sup>* ?s0 (?st log2 ?a 1 [0, 1] True 6 (Unlocking n 0 False))" by (rule rtranclp_trans)
  also have "run_step race (?st log2 ?a 1 [0, 1] True 6 (Unlocking n 0 False)) (?st log2 ?a 1 [0, 1] False 6 (Answering n 0 False 1 0))"
    by (rule st_combine_steps(8))
  also have "run_step race (?st log2 ?a 1 [0, 1] False 6 (Answering n 0 False 1 0)) (?st log2 served 0 [0, 1] False 6 (Answering n 0 False 2 1))"
    by (rule st_answer [OF assms])
  finally show ?thesis .
qed

definition answered1 :: "(nat, unit, nat) answered" where
  "answered1 = \<lparr>an_id = (0, 1, 0), an_start = 0, an_call = Write 1, an_resp = 0, an_pos = 0\<rparr>"

lemma served_context:
  obtains c where "context_res served = Inr (Some 0, c)" "ctx_inv c" "pending_ops c = []"
proof -
  have "ctx_inv served" "answers served = [0]" "pending_ops served = []"
    using cb.put_ok [OF asked_facts(2) [of 1], of 0] asked_facts(3,4) [of 1] by simp_all
  then show thesis using cb.get_some that by metis
qed

lemma respond_run:
  assumes "context_res served = Inr (Some 0, c)"
  shows "(run_step race)\<^sup>*\<^sup>*
    (st log2 (rp 3 1 (cx served b) [1, 5] (fx 0 y) [0, 1] False 6) (Answering n 0 False n j) 1 (Try 1 0) (Try 5 0) [] [(0, 1, 0), (0, 2, 0)] 0)
    (st log2 (rp 3 0 (cx c b) [1, 5] (fx 0 y) [0, 1] False 6) Unlocked 0 Out (Try 5 0) [answered1] [(0, 1, 0), (0, 2, 0)] 1)"
    (is "(run_step race)\<^sup>*\<^sup>* ?s0 ?s2")
proof -
  let ?s1 = "st log2 (rp 3 0 (cx served b) [1, 5] (fx 0 y) [0, 1] False 6) Unlocked 0 (Poll 1 0) (Try 5 0) [] [(0, 1, 0), (0, 2, 0)] 0"
  have "(run_step race)\<^sup>*\<^sup>* ?s0 ?s1" by (rule r_into_rtranclp, rule st_combine_steps(9))
  also have "run_step race ?s1 ?s2"
    using st_respond [OF assms, where calls = "[]" and own = "[(0, 1, 0), (0, 2, 0)]" and ?n1.0 = 0] by (simp add: answered1_def position_def)
  finally show ?thesis .
qed

text \<open>
  The two ways to the collection. In the first one both threads are registered from the start. In
  the second one thread 2 registers and issues its operation after the combiner has loaded the number
  of threads for the responses, and before it loads it for the collection.
\<close>

abbreviation sys0 :: "(nat, unit, nat, nat) nsys" where
  "sys0 \<equiv> st log0 (rp 1 0 (cx c0 c0) [] (fx 0 0) [] False 0) Unlocked 0 Out Out [] [] 0"

lemma two_threads: "(1::nat) \<le> MAX_THREADS_PER_REPLICA" "(2::nat) \<le> MAX_THREADS_PER_REPLICA" "0 < length (cx a b)" "1 < length (cx a b)"
  by (simp_all add: MAX_THREADS_PER_REPLICA_def)

lemma early_run:
  "(run_step race)\<^sup>*\<^sup>* sys0 (st log0 (rp 3 1 (cx (asked 1) (asked 5)) [] (fx 0 0) [] False 0) (Counted 3) 1 (Try 1 0) (Try 5 0) [] [] 0)"
proof -
  let ?st = "\<lambda>nx co a b ph ho p1 p2. st log0 (rp nx co (cx a b) [] (fx 0 0) [] False 0) ph ho p1 p2 [] [] 0"
  let ?i = "c0" and ?a = "asked 1" and ?b = "asked 5"
  have "(run_step race)\<^sup>*\<^sup>* sys0 (?st 2 0 ?i ?i Unlocked 0 Out Out)"
    using st_thread_steps(1) [OF two_threads(1), of race Unlocked] by (intro r_into_rtranclp) (metis one_add_one phase.distinct(3))
  also have "run_step race (?st 2 0 ?i ?i Unlocked 0 Out Out) (?st 3 0 ?i ?i Unlocked 0 Out Out)"
    using st_thread_steps(1) [OF two_threads(2), of race Unlocked] by simp
  also have "run_step race (?st 3 0 ?i ?i Unlocked 0 Out Out) (?st 3 0 ?i ?i Unlocked 0 (Put 1 0) Out)"
    by (rule st_thread_steps(2) [where calls = "[]", unfolded list.size]) simp
  also have "run_step race (?st 3 0 ?i ?i Unlocked 0 (Put 1 0) Out) (?st 3 0 ?a ?i Unlocked 0 (Try 1 0) Out)"
    using st_thread_steps(4) [OF two_threads(3) two_slots(2)] unfolding two_slots(4) .
  also have "run_step race (?st 3 0 ?a ?i Unlocked 0 (Try 1 0) Out) (?st 3 0 ?a ?i Unlocked 0 (Try 1 0) (Put 5 0))"
    by (rule st_thread_steps(3) [where calls = "[]", unfolded list.size]) simp
  also have "run_step race (?st 3 0 ?a ?i Unlocked 0 (Try 1 0) (Put 5 0)) (?st 3 0 ?a ?b Unlocked 0 (Try 1 0) (Try 5 0))"
    using st_thread_steps(5) [OF two_threads(4) two_slots(3)] unfolding two_slots(5) .
  also have "run_step race (?st 3 0 ?a ?b Unlocked 0 (Try 1 0) (Try 5 0)) (?st 3 1 ?a ?b Acquired 1 (Try 1 0) (Try 5 0))"
    by (rule st_combine_steps(1))
  also have "run_step race (?st 3 1 ?a ?b Acquired 1 (Try 1 0) (Try 5 0)) (?st 3 1 ?a ?b (Counted 3) 1 (Try 1 0) (Try 5 0))"
    by (rule st_combine_steps(3))
  finally show ?thesis .
qed

lemma late_run:
  "(run_step True)\<^sup>*\<^sup>* sys0 (st log0 (rp 3 1 (cx (asked 1) (asked 5)) [] (fx 0 0) [] False 0) (Counted 2) 1 (Try 1 0) (Try 5 0) [] [] 0)"
proof -
  let ?st = "\<lambda>nx co a b ph ho p1 p2. st log0 (rp nx co (cx a b) [] (fx 0 0) [] False 0) ph ho p1 p2 [] [] 0"
  let ?i = "c0" and ?a = "asked 1" and ?b = "asked 5"
  have "(run_step True)\<^sup>*\<^sup>* sys0 (?st 2 0 ?i ?i Unlocked 0 Out Out)"
    using st_thread_steps(1) [OF two_threads(1), of True] by (intro r_into_rtranclp) (metis one_add_one)
  also have "run_step True (?st 2 0 ?i ?i Unlocked 0 Out Out) (?st 2 0 ?i ?i Unlocked 0 (Put 1 0) Out)"
    by (rule st_thread_steps(2) [where calls = "[]", unfolded list.size]) simp
  also have "run_step True (?st 2 0 ?i ?i Unlocked 0 (Put 1 0) Out) (?st 2 0 ?a ?i Unlocked 0 (Try 1 0) Out)"
    using st_thread_steps(4) [OF two_threads(3) two_slots(2)] unfolding two_slots(4) .
  also have "run_step True (?st 2 0 ?a ?i Unlocked 0 (Try 1 0) Out) (?st 2 1 ?a ?i Acquired 1 (Try 1 0) Out)"
    by (rule st_combine_steps(1))
  also have "run_step True (?st 2 1 ?a ?i Acquired 1 (Try 1 0) Out) (?st 2 1 ?a ?i (Counted 2) 1 (Try 1 0) Out)"
    by (rule st_combine_steps(3))
  also have "run_step True (?st 2 1 ?a ?i (Counted 2) 1 (Try 1 0) Out) (?st 3 1 ?a ?i (Counted 2) 1 (Try 1 0) Out)"
    using st_thread_steps(1) [OF two_threads(2), of True] by simp
  also have "run_step True (?st 3 1 ?a ?i (Counted 2) 1 (Try 1 0) Out) (?st 3 1 ?a ?i (Counted 2) 1 (Try 1 0) (Put 5 0))"
    by (rule st_thread_steps(3) [where calls = "[]", unfolded list.size]) simp
  also have "run_step True (?st 3 1 ?a ?i (Counted 2) 1 (Try 1 0) (Put 5 0)) (?st 3 1 ?a ?b (Counted 2) 1 (Try 1 0) (Try 5 0))"
    using st_thread_steps(5) [OF two_threads(4) two_slots(3)] unfolding two_slots(5) .
  finally show ?thesis .
qed

lemma same_slots: "(replicate m z)[0 := z, 1 := z] = replicate m z"
  by (metis list_update_beyond list_update_id length_replicate linorder_not_less nth_replicate)

lemma sys0_start: "sys_start 1 cells 0 sys0"
proof -
  have "rp 1 0 (cx c0 c0) [] (fx 0 0) [] False 0 = replica_with_data_base_addr 1 0 0 0"
    by (simp add: rp_def replica_with_data_base_addr_def rwlock_new_def same_slots)
  then have "\<exists>a z. sy_rep sys0 0 = replica_with_data_base_addr (0 + 1) 0 a z" by (metis add_0 st_simps(2))
  then show ?thesis by (simp add: sys_start_def log_start_def st_def lg_def fun_eq_iff)
qed

text \<open>The next round takes the operation of thread 2 again.\<close>

lemma again_run:
  assumes "ctx_inv c" "pending_ops c = []"
  shows "(run_step race)\<^sup>*\<^sup>* (st (lg m (\<lambda>_. None) 2 2 2 2 Idle h ap) (rp 3 0 (cx c (asked 5)) buf (fx 0 1) res False d) Unlocked 0 Out (Try 5 0) calls own 1)
    (st (lg m (\<lambda>_. None) 2 3 2 2 (WriteOp [5] 2 0) (h @ [(5, 1)]) ap) (rp 3 1 (cx c (asked 5)) [5] (fx 0 1) [] True d) (Appending 3) 2 Out (Try 5 0)
       calls (own @ [(0, 2, 0)]) 1)"
proof -
  let ?b = "asked 5"
  let ?st = "\<lambda>co buf res w ph ho. st (lg m (\<lambda>_. None) 2 2 2 2 Idle h ap) (rp 3 co (cx c ?b) buf (fx 0 1) res w d) ph ho Out (Try 5 0) calls own 1"
  have g: "2 \<le> GC_FROM_HEAD" by (simp add: GC_FROM_HEAD_def MAX_PENDING_OPS_def MAX_THREADS_PER_REPLICA_def)
  have "(run_step race)\<^sup>*\<^sup>* (?st 0 buf res False Unlocked 0) (?st 1 buf res False Acquired 2)"
    by (rule r_into_rtranclp, rule st_combine_steps(2))
  also have "run_step race (?st 1 buf res False Acquired 2) (?st 1 [] [] False (Counted 3) 2)" by (rule st_combine_steps(3))
  also have "run_step race (?st 1 [] [] False (Counted 3) 2) (?st 1 [] [] False (Gather 3 3 1) 2)" by (rule st_combine_steps(4))
  also have "run_step race (?st 1 [] [] False (Gather 3 3 1) 2) (?st 1 [] [] False (Gather 3 3 2) 2)"
    using st_collect [of 1 3 c ?b race _ 3 1 "[]" 0 1] assms by (simp add: asked_facts flip: One_nat_def)
  also have "run_step race (?st 1 [] [] False (Gather 3 3 2) 2) (?st 1 [5] [] False (Gather 3 3 3) 2)"
    using st_collect [of 2 3 c ?b race _ 3 1 "[]" 0 1] assms(1) by (simp add: asked_facts flip: One_nat_def)
  also have "run_step race (?st 1 [5] [] False (Gather 3 3 3) 2) (?st 1 [5] [] True (Appending 3) 2)" by (rule st_combine_steps(5))
  finally have "(run_step race)\<^sup>*\<^sup>* (?st 0 buf res False Unlocked 0) (?st 1 [5] [] True (Appending 3) 2)" .
  moreover have "(run_step race)\<^sup>*\<^sup>* (?st 1 [5] [] True (Appending 3) 2)
      (st (lg m (\<lambda>_. None) 2 3 2 2 (WriteOp [5] 2 0) (h @ [(5, 1)]) ap) (rp 3 1 (cx c (asked 5)) [5] (fx 0 1) [] True d) (Appending 3) 2 Out (Try 5 0)
       calls (own @ [(0, 2, 0)]) 1)"
    by (rule reserve_run) (use g in \<open>simp_all add: the_batches\<close>)
  ultimately show ?thesis by (rule rtranclp_trans)
qed

text \<open>In the first way, both threads get their responses.\<close>

lemma early_reachable:
  obtains s where "reachable (sys_start 1 cells 0) (run_step False) s" "hist (sy_log s) = [(1, 1), (5, 1)]" "sy_calls s = [answered1]"
proof -
  obtain c where c: "context_res served = Inr (Some 0, c)" "ctx_inv c" "pending_ops c = []" by (rule served_context)
  note answer = r_into_rtranclp [where r = "run_step False", OF st_answer_second [of 3]]
  have "1 < (3::nat)" "2 < (3::nat)" by simp_all
  then have "(run_step False)\<^sup>*\<^sup>* sys0 (st log2 (rp 3 0 (cx c (context_enqueue_resp 1 (asked 5))) [1, 5] (fx 0 0) [0, 1] False 6) Unlocked 0 Out (Try 5 0)
      [answered1] [(0, 1, 0), (0, 2, 0)] 1)"
    by (intro rtranclp_trans [OF early_run rtranclp_trans [OF collect_run rtranclp_trans [OF batch_run rtranclp_trans [OF answer respond_run [OF c(1)]]]]])
  then have "reachable (sys_start 1 cells 0) (run_step False)
      (st log2 (rp 3 0 (cx c (context_enqueue_resp 1 (asked 5))) [1, 5] (fx 0 0) [0, 1] False 6) Unlocked 0 Out (Try 5 0) [answered1] [(0, 1, 0), (0, 2, 0)] 1)"
    by (rule reachable_steps [OF _ reach_init [of "sys_start 1 cells 0", OF sys0_start]])
  then show thesis by (rule that) simp_all
qed

section \<open>Linearizability, and where it ends\<close>



text \<open>
  C5. Linearizability is lost when a thread registers while a combiner is between its two loads of the number of threads.
  The combiner collects, appends and executes the operation \<open>5\<close> of the new thread, but hands out responses only to
  the threads it had counted first. The operation is still pending in its context, and the next
  combiner appends it to the log again: the history holds the one call of thread 2 twice.
\<close>

theorem register_race_duplicates:
  "\<exists>s. reachable (sys_start 1 cells 0) (nr_step True 1 cells adder) s \<and> hist (sy_log s) = [(1, 1), (5, 1), (5, 1)]
     \<and> sy_own s = [(0, 1, 0), (0, 2, 0), (0, 2, 0)] \<and> sy_calls s = [answered1] \<and> sy_pc s 0 2 = Try 5 0
     \<and> \<not> linearizable adder 0 (hist (sy_log s)) (sy_own s) (sy_calls s)"
proof -
  obtain c where c: "context_res served = Inr (Some 0, c)" "ctx_inv c" "pending_ops c = []" by (rule served_context)
  let ?s = "st (lg (two_lines 1 5) (\<lambda>_. None) 2 3 2 2 (WriteOp [5] 2 0) ([(1, 1), (5, 1)] @ [(5, 1)]) [(1, True), (5, True)])
    (rp 3 1 (cx c (asked 5)) [5] (fx 0 1) [] True 6) (Appending 3) 2 Out (Try 5 0) [answered1] ([(0, 1, 0), (0, 2, 0)] @ [(0, 2, 0)]) 1"
  have "1 < (2::nat)" by simp
  then have "(run_step True)\<^sup>*\<^sup>* sys0 ?s"
    by (intro rtranclp_trans [OF late_run rtranclp_trans [OF collect_run rtranclp_trans [OF batch_run rtranclp_trans [OF respond_run [OF c(1)] again_run [OF c(2,3)]]]]])
  then have "reachable (sys_start 1 cells 0) (run_step True) ?s"
    by (rule reachable_steps [OF _ reach_init [of "sys_start 1 cells 0", OF sys0_start]])
  then show ?thesis by (intro exI [of _ ?s]) (simp add: linearizable_def)
qed

end
