(* ===== verification/Cnr_Log.thy ===== *)
theory Cnr_Log
  imports Shared_Log
begin

text \<open>
  The log of concurrent node replication, \<open>node-replication/src/cnr/log.rs\<close>. A data structure uses
  several logs; a closure that executes an entry of one log may touch the others, so the state
  \<open>'s\<close> of a run is the whole system, and a log is named by a pair of functions that read it from
  the state and put it back. Entries carry the thread that issued them, a scan entry the positions
  it depends on in the other logs, and a reference count of the replicas that have still to
  execute it: the last one clears the operation.

  Each function is the run of one thread. The loops of \<open>append\<close> and \<open>advance_head\<close> have no bound in the
  source; they take fuel, and running out of it is \<open>Hang\<close>.
\<close>

section \<open>Metadata\<close>

record entry_meta =
  is_scan :: bool
  thread :: nat
  is_read_op :: bool
  depends_on :: "nat list option"
  refcnt :: nat

definition entry_meta_default :: entry_meta where
  "entry_meta_default = \<lparr>is_scan = False, thread = 0, is_read_op = False, depends_on = None, refcnt = 0\<rparr>"

text \<open>The callback \<open>gc\<close> gets the flags of the dormant replicas and the number of the log, and may change the flags.\<close>

record log_meta =
  lm_idx :: nat
  scanlock :: nat
  gc :: "bool list \<Rightarrow> nat \<Rightarrow> bool list"
  notify_replicas :: bool
  dormant_replicas :: "bool list"

definition log_meta_new :: "nat \<Rightarrow> log_meta" where
  "log_meta_new idx = \<lparr>lm_idx = idx, scanlock = 0, gc = (\<lambda>rids lid. rids), notify_replicas = True,
     dormant_replicas = replicate MAX_REPLICAS_PER_LOG False\<rparr>"

definition log_meta_default :: log_meta where
  "log_meta_default = log_meta_new 1"

type_synonym 'op cnr_log = "('op, log_meta, entry_meta) log"

type_synonym ('op, 's) log_ref = "('s \<Rightarrow> 'op cnr_log) \<times> ('op cnr_log \<Rightarrow> 's \<Rightarrow> 's)"

type_synonym ('op, 's) cnr_closure = "'op \<Rightarrow> nat \<Rightarrow> nat \<Rightarrow> bool \<Rightarrow> bool \<Rightarrow> nat list option \<Rightarrow> 's \<Rightarrow> (bool \<times> 's) run"

definition update_closure :: "(bool list \<Rightarrow> nat \<Rightarrow> bool list) \<Rightarrow> 'op cnr_log \<Rightarrow> 'op cnr_log" where
  "update_closure f l = l\<lparr>log_metadata := (log_metadata l)\<lparr>gc := f\<rparr>\<rparr>"

section \<open>Entries\<close>

type_synonym 'op cnr_op = "'op \<times> nat \<times> bool"

definition update_entry :: "nat \<Rightarrow> 'op cnr_op \<Rightarrow> nat \<Rightarrow> bool \<Rightarrow> nat list option \<Rightarrow> 'op cnr_log \<Rightarrow> 'op cnr_log" where
  "update_entry offset oper idx scan deps l =
     (case oper of (o1, tid, ro) \<Rightarrow>
        let num_replicas = next_id l - 1;
            p = index l offset;
            e = slog l ! p;
            m0 = lmasks l ! (idx - 1);
            m = (if alivef e = m0 then \<not> m0 else m0)
        in l\<lparr>slog := (slog l)[p := e\<lparr>operation := Some o1, replica := idx,
               metadata := \<lparr>is_scan = scan, thread = tid, is_read_op = ro, depends_on = deps, refcnt = num_replicas\<rparr>,
               alivef := m\<rparr>]\<rparr>)"

fun update_entries :: "nat \<Rightarrow> 'op cnr_op list \<Rightarrow> nat \<Rightarrow> 'op cnr_log \<Rightarrow> 'op cnr_log" where
  "update_entries pos [] idx l = l"
| "update_entries pos (oper # ops) idx l = update_entries (pos + 1) ops idx (update_entry pos oper idx False None l)"

definition fix_scan_entry :: "'op cnr_op \<Rightarrow> nat \<Rightarrow> nat list \<Rightarrow> 'op cnr_log \<Rightarrow> 'op cnr_log run" where
  "fix_scan_entry oper idx offsets l =
     bind_run (array_get offsets 0) (\<lambda>off. Inr (update_entry off oper idx True (Some offsets) l))"

section \<open>The scan lock\<close>

text \<open>\<open>won\<close> is the outcome of the weak compare-and-exchange when the lock is free.\<close>

definition try_scan_lock :: "bool \<Rightarrow> nat \<Rightarrow> 'op cnr_log \<Rightarrow> bool \<times> 'op cnr_log" where
  "try_scan_lock won tid l =
     (if scanlock (log_metadata l) = 0 \<and> won then (True, l\<lparr>log_metadata := (log_metadata l)\<lparr>scanlock := tid\<rparr>\<rparr>)
      else (False, l))"

text \<open>The number of attempts that fail spuriously comes first; a lock that is held is never released by this thread.\<close>

fun acquire_scan_lock :: "nat \<Rightarrow> nat \<Rightarrow> 'op cnr_log \<Rightarrow> 'op cnr_log run" where
  "acquire_scan_lock 0 tid l = (case try_scan_lock True tid l of (True, l') \<Rightarrow> Inr l' | (False, _) \<Rightarrow> Inl Hang)"
| "acquire_scan_lock (Suc n) tid l =
     (case try_scan_lock False tid l of (True, l') \<Rightarrow> Inr l' | (False, l') \<Rightarrow> acquire_scan_lock n tid l')"

definition release_scan_lock :: "'op cnr_log \<Rightarrow> 'op cnr_log" where
  "release_scan_lock l = l\<lparr>log_metadata := (log_metadata l)\<lparr>scanlock := 0\<rparr>\<rparr>"

section \<open>Execution\<close>

text \<open>An entry was executed: one reader less, the local tail moves on, the mask flips at the end of the buffer.\<close>

definition consume_entry :: "nat \<Rightarrow> nat \<Rightarrow> 'op cnr_log \<Rightarrow> 'op cnr_log" where
  "consume_entry idx p l =
     (let e = slog l ! p;
          n = refcnt (metadata e);
          e1 = e\<lparr>metadata := (metadata e)\<lparr>refcnt := usize_sub n 1\<rparr>\<rparr>
      in l\<lparr>slog := (slog l)[p := if n = 1 then e1\<lparr>operation := None\<rparr> else e1],
           ltails := (ltails l)[idx - 1 := ltails l ! (idx - 1) + 1],
           lmasks := (if p = length (slog l) - 1 then (lmasks l)[idx - 1 := \<not> lmasks l ! (idx - 1)] else lmasks l)\<rparr>)"

fun cnr_exec_loop :: "('op, 's) log_ref \<Rightarrow> nat \<Rightarrow> ('op, 's) cnr_closure \<Rightarrow> nat list \<Rightarrow> 's \<Rightarrow> (bool \<times> 's) run" where
  "cnr_exec_loop ref idx d [] st = Inr (True, st)"
| "cnr_exec_loop ref idx d (i # is) st =
     (let l = fst ref st;
          e = slog l ! index l i
      in if alivef e \<noteq> lmasks l ! (idx - 1) then Inl Hang
         else if is_scan (metadata e) \<and> depends_on (metadata e) = None then Inl unwrap_panic
         else (case operation e of
                 None \<Rightarrow> Inl unwrap_panic
               | Some oper \<Rightarrow>
                   bind_run (d oper (replica e) (thread (metadata e)) (is_scan (metadata e)) (is_read_op (metadata e))
                       (if is_scan (metadata e) then depends_on (metadata e) else None) st) (\<lambda>(ok, st1).
                     let l1 = fst ref st1
                     in if \<not> ok then Inr (False, snd ref (l1\<lparr>ctail := max (ctail l1) i\<rparr>) st1)
                        else cnr_exec_loop ref idx d is (snd ref (consume_entry idx (index l1 i) l1) st1))))"

definition cnr_exec :: "('op, 's) log_ref \<Rightarrow> nat \<Rightarrow> ('op, 's) cnr_closure \<Rightarrow> 's \<Rightarrow> 's run" where
  "cnr_exec ref idx d st =
     (let l = fst ref st
      in bind_run (if idx = 0 then Inl index_panic else array_get (ltails l) (idx - 1)) (\<lambda>ltail.
         let gtail = tail l
         in if ltail = gtail then Inr st
            else if ltail > gtail \<or> ltail < head l then Inl (Panic ''Local tail not within the shared log!'')
            else bind_run (cnr_exec_loop ref idx d [ltail..<gtail] st) (\<lambda>(finished, st1).
                   if \<not> finished then Inr st1
                   else let l1 = fst ref st1
                        in Inr (snd ref (l1\<lparr>ctail := max (ctail l1) gtail, ltails := (ltails l1)[idx - 1 := gtail]\<rparr>) st1))))"

section \<open>Garbage collection\<close>

fun cnr_advance_head :: "nat \<Rightarrow> ('op, 's) log_ref \<Rightarrow> nat \<Rightarrow> ('op, 's) cnr_closure \<Rightarrow> 's \<Rightarrow> 's run" where
  "cnr_advance_head 0 ref rid s st = Inl Hang"
| "cnr_advance_head (Suc n) ref rid s st =
     (let l = fst ref st; global_head = head l; f = tail l
      in bind_run (find_min_tail l) (\<lambda>(_, min_local_tail).
         if min_local_tail = global_head
         then bind_run (cnr_exec ref rid s st) (cnr_advance_head n ref rid s)
         else let st1 = snd ref (l\<lparr>head := min_local_tail, log_metadata := (log_metadata l)\<lparr>notify_replicas := True\<rparr>\<rparr>) st
              in if f < min_local_tail + length (slog l) - GC_FROM_HEAD then Inr st1
                 else bind_run (cnr_exec ref rid s st1) (cnr_advance_head n ref rid s)))"

section \<open>Appending\<close>

text \<open>The replicas that lag more than a third of the log behind the caller are marked as dormant.\<close>

definition lags :: "'op cnr_log \<Rightarrow> nat \<Rightarrow> nat \<Rightarrow> bool" where
  "lags l idx i \<longleftrightarrow> ltails l ! (idx - 1) > ltails l ! (i - 1)
     \<and> ltails l ! (idx - 1) - ltails l ! (i - 1) > length (slog l) div 3"

fun mark_dormant :: "nat \<Rightarrow> nat list \<Rightarrow> bool \<Rightarrow> 'op cnr_log \<Rightarrow> bool \<times> 'op cnr_log" where
  "mark_dormant idx [] stuck l = (stuck, l)"
| "mark_dormant idx (i # is) stuck l =
     (if lags l idx i
      then mark_dormant idx is True
             (l\<lparr>log_metadata := (log_metadata l)\<lparr>dormant_replicas := (dormant_replicas (log_metadata l))[i - 1 := True]\<rparr>\<rparr>)
      else mark_dormant idx is stuck l)"

definition notify_lagging :: "bool \<Rightarrow> nat \<Rightarrow> 'op cnr_log \<Rightarrow> 'op cnr_log" where
  "notify_lagging won idx l =
     (if usize_sub (tail l) (head l) + 1 > length (slog l) div 3
      then (case mark_dormant idx [1..<next_id l] False l of
              (stuck, l1) \<Rightarrow>
                let md = log_metadata l1
                in if stuck \<and> notify_replicas md \<and> won
                   then l1\<lparr>log_metadata := md\<lparr>notify_replicas := False, dormant_replicas := gc md (dormant_replicas md) (lm_idx md)\<rparr>\<rparr>
                   else l1)
      else l)"

text \<open>\<open>env n\<close> tells whether the compare-and-exchanges on the tail and on the notification flag succeed with \<open>n\<close> turns left.\<close>

fun cnr_append :: "nat \<Rightarrow> (nat \<Rightarrow> bool \<times> bool) \<Rightarrow> ('op, 's) log_ref \<Rightarrow> 'op cnr_op list \<Rightarrow> nat \<Rightarrow> ('op, 's) cnr_closure \<Rightarrow> 's \<Rightarrow> 's run" where
  "cnr_append 0 env ref ops idx s st = Inl Hang"
| "cnr_append (Suc n) env ref ops idx s st =
     (let l = notify_lagging (snd (env n)) idx (fst ref st);
          st1 = snd ref l st;
          nops = length ops
      in if tail l > head l + length (slog l) - GC_FROM_HEAD
         then bind_run (cnr_exec ref idx s st1) (cnr_append n env ref ops idx s)
         else if \<not> fst (env n) then cnr_append n env ref ops idx s st1
         else let advance = (tail l + nops > head l + length (slog l) - GC_FROM_HEAD);
                  st2 = snd ref (update_entries (tail l) ops idx (l\<lparr>tail := tail l + nops\<rparr>)) st1
              in if advance then cnr_advance_head n ref idx s st2 else Inr st2)"

text \<open>One attempt to append a scan entry; \<open>None\<close> asks the caller to try again.\<close>

definition try_append_scan :: "nat \<Rightarrow> bool \<Rightarrow> ('op, 's) log_ref \<Rightarrow> 'op cnr_op \<Rightarrow> nat \<Rightarrow> nat list \<Rightarrow> ('op, 's) cnr_closure
    \<Rightarrow> 's \<Rightarrow> (nat option \<times> 's) run" where
  "try_append_scan n won ref oper idx offset s st =
     (let l = fst ref st; tl = tail l; nops = 1
      in if tl > head l + length (slog l) - GC_FROM_HEAD
         then bind_run (cnr_exec ref idx s st) (\<lambda>st1. Inr (None, st1))
         else if \<not> won then Inr (None, st)
         else let advance = (tl + nops > head l + length (slog l) - GC_FROM_HEAD);
                  l1 = l\<lparr>tail := tl + nops\<rparr>
              in bind_run (if lm_idx (log_metadata l) \<noteq> 1
                           then bind_run (array_get offset 0) (\<lambda>off. Inr (update_entry tl oper idx True (Some [off]) l1))
                           else Inr l1) (\<lambda>l2.
                 let st2 = snd ref l2 st
                 in bind_run (if advance then cnr_advance_head n ref idx s st2 else Inr st2) (\<lambda>st3. Inr (Some tl, st3))))"

section \<open>Invariant\<close>

text \<open>
  The history is the list of all entries: the operation with its thread and whether it only reads,
  the token of the replica, and for a scan the positions it depends on. \<open>k\<close> replicas are registered.
\<close>

type_synonym 'op cnr_entry = "'op cnr_op \<times> nat \<times> nat list option"

definition readers :: "nat \<Rightarrow> 'op cnr_log \<Rightarrow> nat \<Rightarrow> nat set" where
  "readers k l i = {j. j < k \<and> ltails l ! j \<le> i}"

definition shows_entry :: "nat \<Rightarrow> ('op, entry_meta) entry \<Rightarrow> 'op cnr_entry \<Rightarrow> bool" where
  "shows_entry n e x \<longleftrightarrow>
     (case x of ((o1, tid, ro), rid, deps) \<Rightarrow>
        operation e = Some o1 \<and> replica e = rid \<and>
        metadata e = \<lparr>is_scan = (deps \<noteq> None), thread = tid, is_read_op = ro, depends_on = deps, refcnt = n\<rparr>)"

definition cnr_content :: "nat \<Rightarrow> 'op cnr_log \<Rightarrow> 'op cnr_entry list \<Rightarrow> bool" where
  "cnr_content k l h \<longleftrightarrow>
     (\<forall>i<tail l. readers k l i \<noteq> {} \<longrightarrow> shows_entry (card (readers k l i)) (slog l ! (i mod length (slog l))) (h ! i))"

definition cnr_alive :: "'op cnr_log \<Rightarrow> bool" where
  "cnr_alive l \<longleftrightarrow>
     (\<forall>i. tail l \<le> i \<and> i < tail l + length (slog l) \<longrightarrow>
        alivef (slog l ! (i mod length (slog l))) = odd (i div length (slog l)))"

definition cnr_tails :: "nat \<Rightarrow> 'op cnr_log \<Rightarrow> bool" where
  "cnr_tails k l \<longleftrightarrow>
     (\<forall>j<k. head l \<le> ltails l ! j \<and> ltails l ! j \<le> tail l \<and> lmasks l ! j = even (ltails l ! j div length (slog l)))"

definition cnr_inv :: "nat \<Rightarrow> 'op cnr_log \<Rightarrow> 'op cnr_entry list \<Rightarrow> bool" where
  "cnr_inv k l h \<longleftrightarrow> log_wf l \<and> 0 < k \<and> next_id l = k + 1 \<and> length h = tail l \<and> head l \<le> tail l
     \<and> tail l \<le> head l + length (slog l) \<and> cnr_content k l h \<and> cnr_alive l \<and> cnr_tails k l \<and> ctail l \<le> tail l"

lemma cnr_invD:
  assumes "cnr_inv k l h"
  shows "log_wf l" "0 < k" "next_id l = k + 1" "length h = tail l" "head l \<le> tail l" "tail l \<le> head l + length (slog l)"
    "cnr_content k l h" "cnr_alive l" "cnr_tails k l" "ctail l \<le> tail l"
  using assms by (simp_all add: cnr_inv_def)

lemma cnr_inv_lengths:
  assumes "cnr_inv k l h"
  shows "0 < length (slog l)" "GC_FROM_HEAD \<le> length (slog l)" "k \<le> MAX_REPLICAS_PER_LOG" "length (ltails l) = MAX_REPLICAS_PER_LOG"
    "length (lmasks l) = MAX_REPLICAS_PER_LOG"
  using cnr_invD(1,3) [OF assms] log_wf_slots [OF cnr_invD(1) [OF assms]] by (auto simp: log_wf_def)

lemma cnr_tailsD:
  assumes "cnr_inv k l h" "j < k"
  shows "head l \<le> ltails l ! j" "ltails l ! j \<le> tail l" "lmasks l ! j = even (ltails l ! j div length (slog l))"
  using cnr_invD(9) [OF assms(1)] assms(2) by (simp_all add: cnr_tails_def)

text \<open>Replaying entries: the closure may refuse a scan entry, which ends the run.\<close>

type_synonym ('op, 's) cnr_step = "'op \<Rightarrow> nat \<Rightarrow> nat \<Rightarrow> bool \<Rightarrow> bool \<Rightarrow> nat list option \<Rightarrow> 's \<Rightarrow> (bool \<times> 's) run"

fun creplay :: "('op, 's) cnr_step \<Rightarrow> 'op cnr_entry list \<Rightarrow> 's \<Rightarrow> (bool \<times> nat \<times> 's) run" where
  "creplay f [] s = Inr (True, 0, s)"
| "creplay f (((o1, tid, ro), rid, deps) # es) s =
     bind_run (f o1 rid tid (deps \<noteq> None) ro deps s) (\<lambda>(ok, s1).
       if \<not> ok then Inr (False, 0, s1)
       else bind_run (creplay f es s1) (\<lambda>(b, n, s2). Inr (b, n + 1, s2)))"

text \<open>A closure on a state beside the log.\<close>

definition own_log :: "('op, 'op cnr_log \<times> 's) log_ref" where
  "own_log = (fst, \<lambda>l st. (l, snd st))"

definition beside :: "('op, 's) cnr_step \<Rightarrow> ('op, 'op cnr_log \<times> 's) cnr_closure" where
  "beside f o1 rid tid sc ro deps st = bind_run (f o1 rid tid sc ro deps (snd st)) (\<lambda>(ok, s). Inr (ok, fst st, s))"

section \<open>Execution is replay\<close>

lemma mod_window:
  assumes "(i :: nat) \<noteq> j" "h \<le> i" "h \<le> j" "i < h + n" "j < h + n"
  shows "i mod n \<noteq> j mod n"
proof
  assume eq: "i mod n = j mod n"
  have "n dvd (if i < j then j - i else i - j)" using eq assms(1) mod_eq_dvd_iff_nat [of i j n] mod_eq_dvd_iff_nat [of j i n] by simp
  then have "n \<le> (if i < j then j - i else i - j)" using assms(1) by (intro dvd_imp_le) auto
  then show False using assms by (auto split: if_splits)
qed

lemma alive_now:
  assumes inv: "cnr_inv k l h" and i: "head l \<le> i" "i < tail l"
  shows "alivef (slog l ! (i mod length (slog l))) = even (i div length (slog l))"
proof -
  let ?n = "length (slog l)"
  have "tail l \<le> i + ?n" "i + ?n < tail l + ?n" using i cnr_invD(6) [OF inv] by simp_all
  then have "alivef (slog l ! ((i + ?n) mod ?n)) = odd ((i + ?n) div ?n)" using cnr_invD(8) [OF inv] unfolding cnr_alive_def by blast
  moreover have "(i + ?n) div ?n = i div ?n + 1" using div_add_self2 [of ?n i] cnr_inv_lengths(1) [OF inv] by auto
  ultimately show ?thesis by simp
qed

lemma div_next:
  assumes "0 < (n :: nat)"
  shows "(i + 1) div n = (if i mod n = n - 1 then i div n + 1 else i div n)"
proof (cases "i mod n = n - 1")
  case True
  have "i + 1 = (i div n) * n + i mod n + 1" by simp
  also have "\<dots> = (i div n + 1) * n" using True assms by (simp add: algebra_simps)
  finally show ?thesis using True assms by simp
next
  case False
  have "i mod n < n" using assms by simp
  with False have "i mod n + 1 < n" by linarith
  moreover have "i + 1 = (i mod n + 1) + (i div n) * n" by simp
  then have "(i + 1) div n = ((i mod n + 1) + (i div n) * n) div n" by (rule arg_cong)
  ultimately have "(i + 1) div n = i div n" using div_mult_self1 [of n "i mod n + 1" "i div n"] assms by simp
  then show ?thesis using False by simp
qed

lemma consume_frame [simp]:
  "tail (consume_entry idx p l) = tail l" "head (consume_entry idx p l) = head l" "next_id (consume_entry idx p l) = next_id l"
  "ctail (consume_entry idx p l) = ctail l" "length (slog (consume_entry idx p l)) = length (slog l)"
  "ltails (consume_entry idx p l) = (ltails l)[idx - 1 := ltails l ! (idx - 1) + 1]"
  by (simp_all add: consume_entry_def Let_def)

lemma consume_wf: "log_wf l \<Longrightarrow> log_wf (consume_entry idx p l)"
  by (simp add: log_wf_def consume_entry_def Let_def)

lemma consume_alive: "alivef (slog (consume_entry idx p l) ! q) = alivef (slog l ! q)"
  by (cases "q < length (slog l)"; cases "p = q") (simp_all add: consume_entry_def Let_def nth_list_update list_update_beyond)

lemma consume_other: "q \<noteq> p \<Longrightarrow> slog (consume_entry idx p l) ! q = slog l ! q"
  by (simp add: consume_entry_def Let_def)

lemma consume_shows:
  "shows_entry (n + 1) (slog l ! p) x \<Longrightarrow> n \<noteq> 0 \<Longrightarrow> p < length (slog l) \<Longrightarrow> shows_entry n (slog (consume_entry idx p l) ! p) x"
  by (auto simp: consume_entry_def Let_def shows_entry_def split: prod.splits)

lemma consume_entry_inv:
  assumes inv: "cnr_inv k l h" and idx: "1 \<le> idx" "idx \<le> k" and i: "ltails l ! (idx - 1) = i" "i < tail l"
    and l': "l' = consume_entry idx (i mod length (slog l)) l"
  shows "cnr_inv k l' h"
proof -
  let ?n = "length (slog l)"
  note L = cnr_inv_lengths [OF inv] and I = cnr_invD [OF inv]
  have j: "idx - 1 < k" "idx - 1 < length (ltails l)" "idx - 1 < length (lmasks l)" using idx L(3-5) by auto
  have lt: "ltails l' = (ltails l)[idx - 1 := i + 1]" "tail l' = tail l" "length (slog l') = ?n" using i by (simp_all add: l')
  have hd: "head l \<le> i" using cnr_tailsD(1) [OF inv j(1)] i by simp
  have same: "readers k l' x = readers k l x" if "x \<noteq> i" for x
    using that j i by (auto simp: readers_def lt(1) nth_list_update)
  have here: "readers k l i = insert (idx - 1) (readers k l' i)" "idx - 1 \<notin> readers k l' i"
    using j i by (auto simp: readers_def lt(1) nth_list_update)
  have fin: "finite (readers k l' i)" by (simp add: readers_def)
  have "cnr_content k l' h"
    unfolding cnr_content_def
  proof (intro allI impI)
    fix x assume x: "x < tail l'" "readers k l' x \<noteq> {}"
    show "shows_entry (card (readers k l' x)) (slog l' ! (x mod length (slog l'))) (h ! x)"
    proof (cases "x = i")
      case True
      have old: "shows_entry (card (readers k l' i) + 1) (slog l ! (i mod ?n)) (h ! i)"
      proof -
        have "card (readers k l i) = card (readers k l' i) + 1" "readers k l i \<noteq> {}" using here fin by simp_all
        moreover have "readers k l i \<noteq> {} \<longrightarrow> shows_entry (card (readers k l i)) (slog l ! (i mod ?n)) (h ! i)"
          using I(7) i(2) unfolding cnr_content_def by blast
        ultimately show ?thesis by simp
      qed
      have "card (readers k l' i) \<noteq> 0" using x(2) True fin by simp
      from consume_shows [OF old this] show ?thesis using True L(1) by (simp add: l')
    next
      case False
      obtain q where q: "q < k" "ltails l ! q \<le> x" using x(2) same [OF False] by (auto simp: readers_def)
      then have "head l \<le> x" using cnr_tailsD(1) [OF inv q(1)] by simp
      then have "i mod ?n \<noteq> x mod ?n" using mod_window [OF False [symmetric], of "head l" ?n] hd x(1) i(2) I(6) lt(2) by simp
      then have "slog l' ! (x mod ?n) = slog l ! (x mod ?n)" unfolding l' by (intro consume_other) simp
      moreover have "shows_entry (card (readers k l x)) (slog l ! (x mod ?n)) (h ! x)"
        using I(7) x same [OF False] lt(2) by (simp add: cnr_content_def)
      ultimately show ?thesis using lt(3) same [OF False] by simp
    qed
  qed
  moreover have "cnr_alive l'" using I(8) by (simp add: cnr_alive_def lt l' consume_alive)
  moreover have "cnr_tails k l'"
    unfolding cnr_tails_def
  proof (intro allI impI conjI)
    fix q assume q: "q < k"
    note T = cnr_tailsD [OF inv q]
    show "head l' \<le> ltails l' ! q" "ltails l' ! q \<le> tail l'" using T i j q by (auto simp: l' nth_list_update)
    show "lmasks l' ! q = even (ltails l' ! q div length (slog l'))"
      using T(3) i j q div_next [OF L(1), of i] by (auto simp: l' consume_entry_def Let_def nth_list_update)
  qed
  ultimately show ?thesis using I consume_wf by (simp add: cnr_inv_def l')
qed

lemma unread_entry:
  assumes inv: "cnr_inv k l h" and idx: "1 \<le> idx" "idx \<le> k" and i: "ltails l ! (idx - 1) \<le> i" "i < tail l"
  shows "\<exists>n. shows_entry n (slog l ! index l i) (h ! i)"
    and "i = ltails l ! (idx - 1) \<Longrightarrow> alivef (slog l ! index l i) = lmasks l ! (idx - 1)"
proof -
  have ix: "index l x = x mod length (slog l)" for x by (rule index_eq_mod [OF cnr_invD(1) [OF inv]])
  have j: "idx - 1 < k" using idx by simp
  then have "readers k l i \<noteq> {}" using i(1) by (auto simp: readers_def)
  then show "\<exists>n. shows_entry n (slog l ! index l i) (h ! i)" using cnr_invD(7) [OF inv] i(2) by (auto simp: cnr_content_def ix)
  assume "i = ltails l ! (idx - 1)"
  then show "alivef (slog l ! index l i) = lmasks l ! (idx - 1)"
    using alive_now [OF inv _ i(2)] cnr_tailsD(1,3) [OF inv j] by (simp add: ix)
qed

text \<open>One turn of the loop on an entry of the history.\<close>

lemma exec_turn:
  assumes inv: "cnr_inv k l h" and idx: "1 \<le> idx" "idx \<le> k" and i: "i = ltails l ! (idx - 1)" "i < tail l"
    and x: "h ! i = ((o1, tid, ro), rid, deps)"
  shows "cnr_exec_loop own_log idx (beside f) (i # is) (l, s) =
     bind_run (f o1 rid tid (deps \<noteq> None) ro deps s) (\<lambda>(ok, s1).
       if \<not> ok then Inr (False, l\<lparr>ctail := max (ctail l) i\<rparr>, s1)
       else cnr_exec_loop own_log idx (beside f) is (consume_entry idx (i mod length (slog l)) l, s1))"
proof -
  have le: "ltails l ! (idx - 1) \<le> i" using i(1) by simp
  obtain n where e: "shows_entry n (slog l ! index l i) (h ! i)" using unread_entry(1) [OF inv idx le i(2)] by blast
  have a: "alivef (slog l ! index l i) = lmasks l ! (idx - 1)" using unread_entry(2) [OF inv idx le i(2) i(1)] .
  have ix: "index l i = i mod length (slog l)" by (rule index_eq_mod [OF cnr_invD(1) [OF inv]])
  show ?thesis
    using e a x by (auto simp: shows_entry_def own_log_def beside_def Let_def ix bind_run_assoc intro!: bind_run_cong split: prod.splits)
qed

lemma cnr_loop_replay:
  assumes "cnr_inv k l h" "1 \<le> idx" "idx \<le> k" "ltails l ! (idx - 1) \<le> m" "m \<le> tail l"
  shows "case creplay f (take (m - ltails l ! (idx - 1)) (drop (ltails l ! (idx - 1)) h)) s of
      Inl x \<Rightarrow> cnr_exec_loop own_log idx (beside f) [ltails l ! (idx - 1)..<m] (l, s) = Inl x
    | Inr (b, n, s') \<Rightarrow> \<exists>l'. cnr_exec_loop own_log idx (beside f) [ltails l ! (idx - 1)..<m] (l, s) = Inr (b, l', s')
        \<and> cnr_inv k l' h \<and> ltails l' = (ltails l)[idx - 1 := ltails l ! (idx - 1) + n]
        \<and> tail l' = tail l \<and> head l' = head l \<and> (b \<longrightarrow> ltails l ! (idx - 1) + n = m)"
  using assms
proof (induction "m - ltails l ! (idx - 1)" arbitrary: l s)
  case 0
  then have e: "ltails l ! (idx - 1) = m" by simp
  then have "ltails l = (ltails l)[idx - 1 := m]" by (metis list_update_id)
  then show ?case using 0 e by simp
next
  case (Suc c)
  let ?i = "ltails l ! (idx - 1)"
  note inv = Suc.prems(1) and idx = Suc.prems(2,3)
  have lt: "?i < m" "?i < tail l" and jl: "idx - 1 < length (ltails l)" using Suc.hyps(2) Suc.prems(5) idx cnr_inv_lengths(3,4) [OF inv] by auto
  have "drop ?i h = h ! ?i # drop (?i + 1) h" using lt cnr_invD(4) [OF inv] Cons_nth_drop_Suc [of ?i h] by (simp flip: Suc_eq_plus1)
  then have dr: "take (m - ?i) (drop ?i h) = h ! ?i # take (m - (?i + 1)) (drop (?i + 1) h)" using Suc_diff_Suc [OF lt(1)] by (metis Suc_eq_plus1 take_Suc_Cons)
  have up: "[?i..<m] = ?i # [?i + 1..<m]" using lt by (simp add: upt_conv_Cons flip: Suc_eq_plus1)
  obtain o1 tid ro rid deps where x: "h ! ?i = ((o1, tid, ro), rid, deps)" by (metis prod.exhaust)
  note turn = exec_turn [OF inv idx refl lt(2) x, of f "[?i + 1..<m]" s]
  show ?case
  proof (cases "f o1 rid tid (deps \<noteq> None) ro deps s")
    case (Inl e)
    then show ?thesis using turn by (simp add: dr up x)
  next
    case (Inr y)
    obtain ok s1 where y: "y = (ok, s1)" by fastforce
    show ?thesis
    proof (cases ok)
      case False
      have "cnr_inv k (l\<lparr>ctail := max (ctail l) ?i\<rparr>) h" using inv lt
        by (simp add: cnr_inv_def log_wf_def cnr_content_def readers_def cnr_alive_def cnr_tails_def)
      then show ?thesis using turn Inr y False by (simp add: dr up x)
    next
      case True
      define l1 where "l1 = consume_entry idx (?i mod length (slog l)) l"
      have inv1: "cnr_inv k l1 h" by (rule consume_entry_inv [OF inv idx refl lt(2) l1_def])
      have f1: "ltails l1 ! (idx - 1) = ?i + 1" "tail l1 = tail l" "head l1 = head l" "ltails l1 = (ltails l)[idx - 1 := ?i + 1]"
        using jl by (simp_all add: l1_def)
      have run: "cnr_exec_loop own_log idx (beside f) [?i..<m] (l, s) = cnr_exec_loop own_log idx (beside f) [?i + 1..<m] (l1, s1)"
        using turn Inr y True by (simp add: up l1_def)
      have "c = m - ltails l1 ! (idx - 1)" "ltails l1 ! (idx - 1) \<le> m" "m \<le> tail l1" using Suc.hyps(2) Suc.prems(5) f1 lt by simp_all
      from Suc.hyps(1) [OF this(1) inv1 idx this(2,3), of s1, unfolded f1(1-3), unfolded f1(4)]
      show ?thesis unfolding run using Inr y True
        by (cases "creplay f (take (m - (?i + 1)) (drop (?i + 1) h)) s1") (auto simp: dr x add.assoc add.commute [of 1])
    qed
  qed
qed

lemma cnr_loop_replay_all:
  assumes "cnr_inv k l h" "1 \<le> idx" "idx \<le> k" "ltails l ! (idx - 1) \<le> tail l"
  shows "case creplay f (drop (ltails l ! (idx - 1)) h) s of
      Inl x \<Rightarrow> cnr_exec_loop own_log idx (beside f) [ltails l ! (idx - 1)..<tail l] (l, s) = Inl x
    | Inr (b, n, s') \<Rightarrow> \<exists>l'. cnr_exec_loop own_log idx (beside f) [ltails l ! (idx - 1)..<tail l] (l, s) = Inr (b, l', s')
        \<and> cnr_inv k l' h \<and> ltails l' = (ltails l)[idx - 1 := ltails l ! (idx - 1) + n]
        \<and> tail l' = tail l \<and> head l' = head l \<and> (b \<longrightarrow> ltails l ! (idx - 1) + n = tail l)"
  using cnr_loop_replay [OF assms order_refl, of f s] cnr_invD(4) [OF assms(1)] by simp

lemma cnr_inv_keep:
  assumes "cnr_inv k l h" "ltails l ! j = t" "c \<le> tail l"
  shows "cnr_inv k (l\<lparr>ctail := c, ltails := (ltails l)[j := t]\<rparr>) h"
  using assms by (simp add: cnr_inv_def log_wf_def cnr_content_def readers_def cnr_alive_def cnr_tails_def list_update_id [of "ltails l" j, unfolded assms(2)])

lemma cnr_exec_replay:
  assumes inv: "cnr_inv k l h" and idx: "1 \<le> idx" "idx \<le> k"
  shows "case creplay f (drop (ltails l ! (idx - 1)) h) s of
      Inl x \<Rightarrow> cnr_exec own_log idx (beside f) (l, s) = Inl x
    | Inr (b, n, s') \<Rightarrow> \<exists>l'. cnr_exec own_log idx (beside f) (l, s) = Inr (l', s')
        \<and> cnr_inv k l' h \<and> ltails l' = (ltails l)[idx - 1 := ltails l ! (idx - 1) + n] \<and> tail l' = tail l \<and> head l' = head l
        \<and> (b \<longrightarrow> ltails l ! (idx - 1) + n = tail l)"
proof -
  let ?i = "ltails l ! (idx - 1)"
  have j: "idx - 1 < k" "idx - 1 < length (ltails l)" "idx \<noteq> 0" using idx cnr_inv_lengths(3,4) [OF inv] by auto
  note T = cnr_tailsD [OF inv j(1)] and R = cnr_loop_replay_all [OF inv idx, of f s]
  show ?thesis
  proof (cases "?i = tail l")
    case True
    moreover from True have "(ltails l)[idx - 1 := tail l] = ltails l" by (metis list_update_id)
    ultimately show ?thesis using inv cnr_invD(4) [OF inv] j by (simp add: cnr_exec_def own_log_def)
  next
    case False
    then have run: "cnr_exec own_log idx (beside f) (l, s) =
        bind_run (cnr_exec_loop own_log idx (beside f) [?i..<tail l] (l, s)) (\<lambda>(finished, st1).
          if \<not> finished then Inr st1
          else Inr ((fst st1)\<lparr>ctail := max (ctail (fst st1)) (tail l), ltails := (ltails (fst st1))[idx - 1 := tail l]\<rparr>, snd st1))"
      using j T by (auto simp: cnr_exec_def own_log_def Let_def intro!: bind_run_cong)
    show ?thesis
    proof (cases "creplay f (drop ?i h) s")
      case (Inl e)
      then show ?thesis using R T(2) run by simp
    next
      case (Inr y)
      obtain b n s' where y: "y = (b, n, s')" by (metis prod.exhaust)
      with Inr R T(2) obtain l' where l': "cnr_exec_loop own_log idx (beside f) [?i..<tail l] (l, s) = Inr (b, l', s')" "cnr_inv k l' h"
        "ltails l' = (ltails l)[idx - 1 := ?i + n]" "tail l' = tail l" "head l' = head l" "b \<longrightarrow> ?i + n = tail l" by auto
      show ?thesis
      proof (cases b)
        case True
        then have "ltails l' ! (idx - 1) = tail l" using l'(3,6) j(2) by simp
        then have "cnr_inv k (l'\<lparr>ctail := max (ctail l') (tail l), ltails := (ltails l')[idx - 1 := tail l]\<rparr>) h"
          by (rule cnr_inv_keep [OF l'(2)]) (use l'(4) cnr_invD(10) [OF l'(2)] in simp)
        then show ?thesis using Inr y run l' True by simp
      next
        case False
        then show ?thesis using Inr y run l' by simp
      qed
    qed
  qed
qed

section \<open>Appending extends the history\<close>

lemma update_entry_tail: "update_entry off x idx sc deps (l\<lparr>tail := t\<rparr>) = (update_entry off x idx sc deps l)\<lparr>tail := t\<rparr>"
  by (simp add: update_entry_def index_def Let_def split: prod.split)

lemma update_entries_tail: "update_entries pos ops idx (l\<lparr>tail := t\<rparr>) = (update_entries pos ops idx l)\<lparr>tail := t\<rparr>"
  by (induction pos ops idx l rule: update_entries.induct) (simp_all add: update_entry_tail)

lemma update_entry_frame [simp]:
  "tail (update_entry off x idx sc deps l) = tail l" "head (update_entry off x idx sc deps l) = head l"
  "next_id (update_entry off x idx sc deps l) = next_id l" "ltails (update_entry off x idx sc deps l) = ltails l"
  "lmasks (update_entry off x idx sc deps l) = lmasks l" "length (slog (update_entry off x idx sc deps l)) = length (slog l)"
  "ctail (update_entry off x idx sc deps l) = ctail l"
  by (simp_all add: update_entry_def Let_def split: prod.split)

lemma append_one:
  assumes inv: "cnr_inv k l h" and idx: "1 \<le> idx" "idx \<le> k" and room: "tail l < head l + length (slog l)"
    and l': "l' = (update_entry (tail l) x idx (deps \<noteq> None) deps l)\<lparr>tail := tail l + 1\<rparr>"
  shows "cnr_inv k l' (h @ [(x, idx, deps)])"
proof -
  let ?n = "length (slog l)" and ?t = "tail l"
  note I = cnr_invD [OF inv] and L = cnr_inv_lengths [OF inv]
  have ix: "index l ?t = ?t mod ?n" by (rule index_eq_mod [OF I(1)])
  have fr: "tail l' = ?t + 1" "head l' = head l" "ltails l' = ltails l" "lmasks l' = lmasks l" "length (slog l') = ?n" "next_id l' = next_id l" "ctail l' = ctail l"
    by (simp_all add: l')
  have other: "slog l' ! q = slog l ! q" if "q \<noteq> ?t mod ?n" for q
    using that by (simp add: l' update_entry_def ix Let_def split: prod.split)
  have rd: "readers k l' i = readers k l i" for i by (simp add: readers_def fr)
  have "alivef (slog l ! (?t mod ?n)) = odd (?t div ?n)" using I(8) L(1) by (simp add: cnr_alive_def)
  then have new: "alivef (slog l' ! (?t mod ?n)) = even (?t div ?n)" "shows_entry k (slog l' ! (?t mod ?n)) (x, idx, deps)"
    using L(1) I(3) by (auto simp: l' update_entry_def ix Let_def shows_entry_def split: prod.split)
  have "readers k l ?t = {..<k}" using cnr_tailsD(2) [OF inv] by (auto simp: readers_def)
  then have all: "card (readers k l ?t) = k" by simp
  have "cnr_content k l' (h @ [(x, idx, deps)])"
    unfolding cnr_content_def
  proof (intro allI impI)
    fix i assume i: "i < tail l'" "readers k l' i \<noteq> {}"
    show "shows_entry (card (readers k l' i)) (slog l' ! (i mod length (slog l'))) ((h @ [(x, idx, deps)]) ! i)"
    proof (cases "i = ?t")
      case True
      then show ?thesis using new(2) all I(4) by (simp add: rd fr nth_append)
    next
      case False
      obtain q where "q < k" "ltails l ! q \<le> i" using i(2) by (auto simp: readers_def fr)
      then have "head l \<le> i" using cnr_tailsD(1) [OF inv] order_trans by blast
      then have "i mod ?n \<noteq> ?t mod ?n" using mod_window [OF False, of "head l" ?n] i(1) False room I(5) fr(1) by simp
      moreover have "shows_entry (card (readers k l i)) (slog l ! (i mod ?n)) (h ! i)"
        using I(7) i False by (simp add: cnr_content_def rd fr)
      ultimately show ?thesis using other i(1) False I(4) by (simp add: rd fr nth_append)
    qed
  qed
  moreover have "cnr_alive l'"
    unfolding cnr_alive_def
  proof (intro allI impI)
    fix i assume i: "tail l' \<le> i \<and> i < tail l' + length (slog l')"
    show "alivef (slog l' ! (i mod length (slog l'))) = odd (i div length (slog l'))"
    proof (cases "i = ?t + ?n")
      case True
      then have "i mod ?n = ?t mod ?n" "i div ?n = ?t div ?n + 1" using L(1) div_add_self2 [of ?n ?t] by auto
      then show ?thesis using new(1) by (simp add: fr)
    next
      case False
      then have "i mod ?n \<noteq> ?t mod ?n" using mod_window [of i ?t ?t ?n] i L(1) by (simp add: fr)
      then show ?thesis using other I(8) i False by (simp add: cnr_alive_def fr)
    qed
  qed
  moreover have "cnr_tails k l'" using I(9) by (auto simp: cnr_tails_def fr intro: le_SucI)
  moreover have "log_wf l'" using I(1) by (simp add: log_wf_def fr)
  ultimately show ?thesis using I room by (simp add: cnr_inv_def fr)
qed

definition batch_entries :: "'op cnr_op list \<Rightarrow> nat \<Rightarrow> 'op cnr_entry list" where
  "batch_entries ops idx = map (\<lambda>x. (x, idx, None)) ops"

lemma append_batch:
  assumes "cnr_inv k l h" "1 \<le> idx" "idx \<le> k" "tail l + length ops \<le> head l + length (slog l)"
  shows "cnr_inv k ((update_entries (tail l) ops idx l)\<lparr>tail := tail l + length ops\<rparr>) (h @ batch_entries ops idx)"
  using assms
proof (induction ops arbitrary: l h)
  case (Cons x ops)
  let ?l = "(update_entry (tail l) x idx False None l)\<lparr>tail := tail l + 1\<rparr>"
  have "cnr_inv k ?l (h @ [(x, idx, None)])" using append_one [OF Cons.prems(1-3), of _ x None] Cons.prems(4) by simp
  from Cons.IH [OF this Cons.prems(2,3)] Cons.prems(4) show ?case
    by (simp add: update_entries_tail batch_entries_def add.assoc add.commute [of 1] flip: Suc_eq_plus1)
qed (simp add: batch_entries_def)

lemma metadata_irrelevant [simp]: "cnr_inv k (l\<lparr>log_metadata := md\<rparr>) h = cnr_inv k l h"
  by (simp add: cnr_inv_def log_wf_def cnr_content_def readers_def cnr_alive_def cnr_tails_def)

lemma mark_dormant_frame: "\<exists>md. snd (mark_dormant idx is stuck l) = l\<lparr>log_metadata := md\<rparr>"
proof (induction idx "is" stuck l rule: mark_dormant.induct)
  case (1 idx stuck l)
  have "l = l\<lparr>log_metadata := log_metadata l\<rparr>" by simp
  then show ?case unfolding mark_dormant.simps snd_conv by blast
next
  case (2 idx i "is" stuck l)
  then show ?case by (cases "lags l idx i") auto
qed

lemma notify_frame: "\<exists>md. notify_lagging won idx l = l\<lparr>log_metadata := md\<rparr>"
proof -
  obtain md where "snd (mark_dormant idx [1..<next_id l] False l) = l\<lparr>log_metadata := md\<rparr>" using mark_dormant_frame by blast
  moreover have "\<exists>md. l = l\<lparr>log_metadata := md\<rparr>" by (rule exI [of _ "log_metadata l"]) simp
  note same = this
  ultimately show ?thesis unfolding notify_lagging_def
    by (cases "mark_dormant idx [1..<next_id l] False l") (auto simp: Let_def intro: same)
qed

lemma cnr_exec_inv:
  assumes "cnr_inv k l h" "1 \<le> idx" "idx \<le> k" "cnr_exec own_log idx (beside f) (l, s) = Inr (l', s')"
  shows "cnr_inv k l' h"
  using cnr_exec_replay [OF assms(1-3), of f s] assms(4) by (auto split: sum.splits)

lemma advance_head_inv:
  assumes "cnr_inv k l h" "1 \<le> idx" "idx \<le> k" "cnr_advance_head n own_log idx (beside f) (l, s) = Inr (l', s')"
  shows "cnr_inv k l' h"
  using assms
proof (induction n arbitrary: l s)
  case (Suc n)
  note inv = Suc.prems(1)
  have reg: "registered l idx" using Suc.prems(2,3) cnr_invD(3) [OF inv] by (simp add: registered_def)
  obtain m t where mt: "find_min_tail l = Inr (m, t)" using find_min_tail_wf [OF cnr_invD(1) [OF inv]] by blast
  note S = find_min_tail_spec [OF mt reg]
  have t: "t \<le> ltails l ! j" if "j < k" for j using S(3) [of "j + 1"] that cnr_invD(3) [OF inv] by (simp add: registered_def)
  have m: "m < k" using S(2) cnr_invD(3) [OF inv] by (simp add: registered_def)
  let ?l = "l\<lparr>head := t, log_metadata := (log_metadata l)\<lparr>notify_replicas := True\<rparr>\<rparr>"
  have "head l \<le> t" "t \<le> tail l" using cnr_tailsD [OF inv m] S(1) by simp_all
  then have inv1: "cnr_inv k ?l h"
    using inv t by (simp add: cnr_inv_def log_wf_def cnr_content_def readers_def cnr_alive_def cnr_tails_def)
  have step: "cnr_inv k l' h" if "cnr_inv k l1 h" "bind_run (cnr_exec own_log idx (beside f) (l1, s)) (cnr_advance_head n own_log idx (beside f)) = Inr (l', s')" for l1
  proof -
    from that(2) obtain l2 s2 where e: "cnr_exec own_log idx (beside f) (l1, s) = Inr (l2, s2)" "cnr_advance_head n own_log idx (beside f) (l2, s2) = Inr (l', s')"
      by (auto simp: bind_run_Inr)
    from Suc.IH [OF cnr_exec_inv [OF that(1) Suc.prems(2,3) e(1)] Suc.prems(2,3) e(2)] show ?thesis .
  qed
  show ?case using Suc.prems(4) mt step [OF inv] step [OF inv1] inv1
    by (auto simp: own_log_def Let_def split: if_splits)
qed simp

lemma cnr_append_inv:
  assumes "cnr_inv k l h" "1 \<le> idx" "idx \<le> k" "length ops \<le> GC_FROM_HEAD"
    and "cnr_append n env own_log ops idx (beside f) (l, s) = Inr (l', s')"
  shows "cnr_inv k l' (h @ batch_entries ops idx)"
  using assms
proof (induction n arbitrary: l s)
  case (Suc n)
  obtain md where md: "notify_lagging (snd (env n)) idx l = l\<lparr>log_metadata := md\<rparr>" using notify_frame by blast
  let ?l = "l\<lparr>log_metadata := md\<rparr>"
  let ?l2 = "update_entries (tail l) ops idx (?l\<lparr>tail := tail l + length ops\<rparr>)"
  have inv: "cnr_inv k ?l h" using Suc.prems(1) by simp
  have exec: "cnr_inv k l' (h @ batch_entries ops idx)" if full: "tail l > head l + length (slog l) - GC_FROM_HEAD"
  proof -
    from Suc.prems(5) full obtain l1 s1 where e: "cnr_exec own_log idx (beside f) (?l, s) = Inr (l1, s1)"
      "cnr_append n env own_log ops idx (beside f) (l1, s1) = Inr (l', s')" by (auto simp: own_log_def md Let_def bind_run_Inr)
    from Suc.IH [OF cnr_exec_inv [OF inv Suc.prems(2,3) e(1)] Suc.prems(2-4) e(2)] show ?thesis .
  qed
  have new: "cnr_inv k ?l2 (h @ batch_entries ops idx)" if "\<not> tail l > head l + length (slog l) - GC_FROM_HEAD"
  proof -
    have "tail ?l + length ops \<le> head ?l + length (slog ?l)" using that Suc.prems(4) cnr_inv_lengths(2) [OF Suc.prems(1)] by simp
    from append_batch [OF inv Suc.prems(2,3) this] show ?thesis by (simp add: update_entries_tail)
  qed
  show ?case
  proof (cases "tail l > head l + length (slog l) - GC_FROM_HEAD")
    case True
    then show ?thesis by (rule exec)
  next
    case False
    show ?thesis
    proof (cases "fst (env n)")
      case True
      from Suc.prems(5) False True consider "cnr_advance_head n own_log idx (beside f) (?l2, s) = Inr (l', s')" | "l' = ?l2"
        by (auto simp: own_log_def md Let_def split: if_splits)
      then show ?thesis
      proof cases
        case 1
        from advance_head_inv [OF new [OF False] Suc.prems(2,3) 1] show ?thesis .
      qed (use new [OF False] in simp)
    next
      case f: False
      with Suc.prems(5) False have "cnr_append n env own_log ops idx (beside f) (?l, s) = Inr (l', s')"
        by (simp add: own_log_def md Let_def)
      from Suc.IH [OF inv Suc.prems(2-4) this] show ?thesis .
    qed
  qed
qed simp

section \<open>Scans\<close>

lemma exec_loop_append:
  "cnr_exec_loop ref idx d (xs @ ys) st =
     bind_run (cnr_exec_loop ref idx d xs st) (\<lambda>(fin, st1). if fin then cnr_exec_loop ref idx d ys st1 else Inr (False, st1))"
proof (induction xs arbitrary: st)
  case (Cons i xs)
  show ?case
    by (auto simp: Let_def bind_run_assoc Cons.IH intro!: bind_run_cong split: option.split)
qed simp

lemma consume_tail: "consume_entry idx p (l\<lparr>tail := t\<rparr>) = (consume_entry idx p l)\<lparr>tail := t\<rparr>"
  by (simp add: consume_entry_def Let_def)

text \<open>The loop does not look at the tail.\<close>

lemma exec_loop_own:
  "cnr_exec_loop own_log idx (beside f) (i # is) (l, s) =
     (let e = slog l ! index l i
      in if alivef e \<noteq> lmasks l ! (idx - 1) then Inl Hang
         else if is_scan (metadata e) \<and> depends_on (metadata e) = None then Inl unwrap_panic
         else (case operation e of
                 None \<Rightarrow> Inl unwrap_panic
               | Some oper \<Rightarrow>
                   bind_run (f oper (replica e) (thread (metadata e)) (is_scan (metadata e)) (is_read_op (metadata e))
                       (if is_scan (metadata e) then depends_on (metadata e) else None) s) (\<lambda>(ok, s1).
                     if \<not> ok then Inr (False, l\<lparr>ctail := max (ctail l) i\<rparr>, s1)
                     else cnr_exec_loop own_log idx (beside f) is (consume_entry idx (index l i) l, s1))))"
  by (auto simp: own_log_def beside_def Let_def bind_run_assoc intro!: bind_run_cong split: option.split)

lemma exec_loop_tail:
  "cnr_exec_loop own_log idx (beside f) is (l\<lparr>tail := t\<rparr>, s) =
     bind_run (cnr_exec_loop own_log idx (beside f) is (l, s)) (\<lambda>(fin, l', s'). Inr (fin, l'\<lparr>tail := t\<rparr>, s'))"
proof (induction "is" arbitrary: l s)
  case (Cons i "is")
  have ix: "index (l\<lparr>tail := t\<rparr>) i = index l i" by (simp add: index_def)
  let ?e = "slog l ! index l i"
  consider "alivef ?e \<noteq> lmasks l ! (idx - 1) \<or> is_scan (metadata ?e) \<and> depends_on (metadata ?e) = None \<or> operation ?e = None"
    | oper where "alivef ?e = lmasks l ! (idx - 1)" "\<not> (is_scan (metadata ?e) \<and> depends_on (metadata ?e) = None)" "operation ?e = Some oper"
    by blast
  then show ?case
  proof cases
    case 1
    then show ?thesis unfolding exec_loop_own by (auto simp: ix Let_def split: option.split)
  next
    case 2
    then show ?thesis unfolding exec_loop_own
      by (simp add: ix Let_def bind_run_assoc del: cnr_exec_loop.simps) (auto simp: ix Cons.IH consume_tail intro!: bind_run_cong)
  qed
qed simp

lemma exec_unwritten:
  assumes inv: "cnr_inv k l h" and idx: "1 \<le> idx" "idx \<le> k"
    and run: "creplay f (drop (ltails l ! (idx - 1)) h) s = Inr (True, n, s')"
  shows "cnr_exec own_log idx (beside f) (l\<lparr>tail := tail l + 1\<rparr>, s) = Inl Hang"
proof -
  let ?i = "ltails l ! (idx - 1)" and ?n = "length (slog l)"
  have j: "idx - 1 < k" "idx - 1 < length (ltails l)" "idx \<noteq> 0" using idx cnr_inv_lengths(3,4) [OF inv] by auto
  note T = cnr_tailsD [OF inv j(1)]
  from cnr_loop_replay_all [OF inv idx T(2), of f s] run obtain l' where
    l': "cnr_exec_loop own_log idx (beside f) [?i..<tail l] (l, s) = Inr (True, l', s')" "cnr_inv k l' h"
    "ltails l' = (ltails l)[idx - 1 := tail l]" "tail l' = tail l" by auto
  have ix: "index l' x = x mod length (slog l')" for x by (rule index_eq_mod [OF cnr_invD(1) [OF l'(2)]])
  have "alivef (slog l' ! (tail l mod length (slog l'))) = odd (tail l div length (slog l'))"
    using cnr_invD(8) [OF l'(2)] cnr_inv_lengths(1) [OF l'(2)] l'(4) by (simp add: cnr_alive_def)
  moreover have "lmasks l' ! (idx - 1) = even (tail l div length (slog l'))" using cnr_tailsD(3) [OF l'(2) j(1)] l'(3) j(2) by simp
  ultimately have "cnr_exec_loop own_log idx (beside f) [tail l] (l', s') = Inl Hang" by (simp add: own_log_def ix)
  then have "cnr_exec_loop own_log idx (beside f) ([?i..<tail l] @ [tail l]) (l, s) = Inl Hang" using l'(1) by (simp add: exec_loop_append)
  moreover have "[?i..<tail l + 1] = [?i..<tail l] @ [tail l]" using T(2) by (simp flip: Suc_eq_plus1)
  ultimately have "cnr_exec_loop own_log idx (beside f) [?i..<tail l + 1] (l\<lparr>tail := tail l + 1\<rparr>, s) = Inl Hang" by (simp add: exec_loop_tail)
  then show ?thesis using T j by (simp add: cnr_exec_def own_log_def)
qed

section \<open>A new log\<close>

fun cnr_register :: "nat \<Rightarrow> 'op cnr_log \<Rightarrow> 'op cnr_log" where
  "cnr_register 0 l = l"
| "cnr_register (Suc k) l = cnr_register k (snd (log_register 0 l))"

lemma cnr_register_eq: "next_id l + k \<le> MAX_REPLICAS_PER_LOG + 1 \<Longrightarrow> cnr_register k l = l\<lparr>next_id := next_id l + k\<rparr>"
proof (induction k arbitrary: l)
  case (Suc k)
  then show ?case by (simp add: log_register_eq flip: Suc_eq_plus1)
qed simp

definition cnr_fresh :: "nat \<Rightarrow> nat \<Rightarrow> nat \<Rightarrow> 'op cnr_log" where
  "cnr_fresh k n lid = cnr_register k (new_with_entries entry_meta_default n (log_meta_new lid))"

lemma cnr_fresh_inv:
  assumes "0 < k" "k \<le> MAX_REPLICAS_PER_LOG"
  shows "cnr_inv k (cnr_fresh k n lid) []"
proof -
  let ?l = "new_with_entries entry_meta_default n (log_meta_new lid) :: 'a cnr_log"
  have eq: "cnr_fresh k n lid = ?l\<lparr>next_id := k + 1\<rparr>"
    using assms by (simp add: cnr_fresh_def cnr_register_eq new_with_entries_def)
  have wf: "log_wf ?l" by (rule log_wf_new)
  note n = log_wf_slots(1) [OF wf]
  have slot: "slog ?l ! (i mod length (slog ?l)) = entry_default entry_meta_default" for i
    using n mod_less_divisor [OF n, of i] by (simp add: new_with_entries_def)
  have "cnr_alive (?l\<lparr>next_id := k + 1\<rparr>)"
    unfolding cnr_alive_def by (simp add: slot) (simp add: entry_default_def new_with_entries_def)
  then show ?thesis unfolding eq using wf assms
    by (simp add: cnr_inv_def log_wf_def cnr_content_def cnr_tails_def) (simp add: new_with_entries_def)
qed

lemma creplay_total: "(\<And>o1 rid tid sc ro deps s. \<exists>s'. f o1 rid tid sc ro deps s = Inr (True, s')) \<Longrightarrow> \<exists>n s'. creplay f es s = Inr (True, n, s')"
proof (induction es arbitrary: s)
  case (Cons e es)
  obtain o1 tid ro rid deps where e: "e = ((o1, tid, ro), rid, deps)" by (metis prod.exhaust)
  obtain s1 where "f o1 rid tid (deps \<noteq> None) ro deps s = Inr (True, s1)" using Cons.prems by blast
  moreover obtain n s' where "creplay f es s1 = Inr (True, n, s')" using Cons.IH Cons.prems by blast
  ultimately show ?case by (simp add: e)
qed simp

definition count_step :: "(nat, nat) cnr_step" where
  "count_step o1 rid tid sc ro deps s = Inr (True, s + 1)"

section \<open>Properties\<close>

text \<open>
  C20. \<open>exec\<close> of the multi-log variant replays the part of the history its replica has not executed, in
  order and each entry once, and stops before the first scan entry the closure refuses. It waits
  for nothing, never finds an entry whose operation was already cleared, keeps the reference counts
  equal to the number of replicas that have still to execute an entry, and fails only where the closure does.
\<close>

theorem cnr_exec_correct:
  assumes "cnr_inv k l h" "1 \<le> idx" "idx \<le> k"
  shows "case creplay f (drop (ltails l ! (idx - 1)) h) s of
      Inl x \<Rightarrow> cnr_exec own_log idx (beside f) (l, s) = Inl x
    | Inr (b, n, s') \<Rightarrow> \<exists>l'. cnr_exec own_log idx (beside f) (l, s) = Inr (l', s')
        \<and> cnr_inv k l' h \<and> ltails l' = (ltails l)[idx - 1 := ltails l ! (idx - 1) + n] \<and> tail l' = tail l \<and> head l' = head l
        \<and> (b \<longrightarrow> ltails l ! (idx - 1) + n = tail l)"
  by (rule cnr_exec_replay [OF assms])

text \<open>A log of two replicas with one entry, appended by the first.\<close>

definition cnr_one :: "nat cnr_log" where
  "cnr_one = (update_entries 0 [(7, 1, False)] 1 (cnr_fresh 2 0 1))\<lparr>tail := 1\<rparr>"

lemma cnr_one_inv: "cnr_inv 2 cnr_one [((7, 1, False), 1, None)]" "ltails cnr_one ! 1 = 0"
proof -
  have inv: "cnr_inv 2 (cnr_fresh 2 0 1 :: nat cnr_log) []" by (rule cnr_fresh_inv) (simp_all add: MAX_REPLICAS_PER_LOG_def)
  have z: "tail (cnr_fresh 2 0 1 :: nat cnr_log) = 0" "ltails (cnr_fresh 2 0 1 :: nat cnr_log) ! 1 = 0"
    by (simp_all add: cnr_fresh_def cnr_register_eq new_with_entries_def MAX_REPLICAS_PER_LOG_def)
  have room: "tail (cnr_fresh 2 0 1 :: nat cnr_log) + length [(7, 1, False)] \<le> head (cnr_fresh 2 0 1 :: nat cnr_log) + length (slog (cnr_fresh 2 0 1 :: nat cnr_log))"
    using z cnr_inv_lengths(1) [OF inv] by (simp add: Suc_le_eq)
  show "cnr_inv 2 cnr_one [((7, 1, False), 1, None)]"
    using append_batch [OF inv _ _ room, of 1] by (simp add: cnr_one_def batch_entries_def z [unfolded One_nat_def] One_nat_def)
  show "ltails cnr_one ! 1 = 0" using z by (simp add: cnr_one_def)
qed

theorem cnr_exec_correct_witness:
  "\<exists>l'. cnr_exec own_log 2 (beside count_step) (cnr_one, 5) = Inr (l', 6) \<and> cnr_inv 2 l' [((7, 1, False), 1, None)]"
proof -
  have "creplay count_step (drop (ltails cnr_one ! (2 - 1)) [((7, 1, False), 1, None)]) 5 = Inr (True, 1, 6)"
    using cnr_one_inv(2) by (simp add: count_step_def One_nat_def)
  then show ?thesis using cnr_exec_correct [OF cnr_one_inv(1), of 2 count_step 5] by auto
qed

text \<open>
  C21. \<open>append\<close> of the multi-log variant: however long it waited for garbage collection, when it returns the
  history has grown by exactly its batch and the invariant holds; and if the batch fits in front
  of the reserve it returns as soon as its compare-and-exchange succeeds, without executing anything.
\<close>

theorem cnr_append_correct:
  assumes "cnr_inv k l h" "1 \<le> idx" "idx \<le> k" "length ops \<le> GC_FROM_HEAD"
  shows "(\<forall>l' s'. cnr_append n env own_log ops idx (beside f) (l, s) = Inr (l', s') \<longrightarrow> cnr_inv k l' (h @ batch_entries ops idx))
    \<and> (tail l + length ops \<le> head l + length (slog l) - GC_FROM_HEAD \<and> fst (env n) \<longrightarrow>
         (\<exists>l'. cnr_append (Suc n) env own_log ops idx (beside f) (l, s) = Inr (l', s) \<and> cnr_inv k l' (h @ batch_entries ops idx)))"
proof (intro conjI allI impI)
  fix l' s' assume "cnr_append n env own_log ops idx (beside f) (l, s) = Inr (l', s')"
  from cnr_append_inv [OF assms this] show "cnr_inv k l' (h @ batch_entries ops idx)" .
next
  assume room: "tail l + length ops \<le> head l + length (slog l) - GC_FROM_HEAD \<and> fst (env n)"
  obtain md where md: "notify_lagging (snd (env n)) idx l = l\<lparr>log_metadata := md\<rparr>" using notify_frame by blast
  let ?l = "update_entries (tail l) ops idx (l\<lparr>log_metadata := md, tail := tail l + length ops\<rparr>)"
  have run: "cnr_append (Suc n) env own_log ops idx (beside f) (l, s) = Inr (?l, s)" using room by (simp add: own_log_def md Let_def)
  then show "\<exists>l'. cnr_append (Suc n) env own_log ops idx (beside f) (l, s) = Inr (l', s) \<and> cnr_inv k l' (h @ batch_entries ops idx)"
    using cnr_append_inv [OF assms run] by blast
qed

theorem cnr_append_correct_witness:
  "\<exists>l'. cnr_append 1 (\<lambda>_. (True, True)) own_log [(7, 1, False)] 2 (beside count_step) (cnr_fresh 2 0 1, 5) = Inr (l', 5)
     \<and> cnr_inv 2 l' [((7, 1, False), 2, None)]"
proof -
  have inv: "cnr_inv 2 (cnr_fresh 2 0 1 :: nat cnr_log) []" by (rule cnr_fresh_inv) (simp_all add: MAX_REPLICAS_PER_LOG_def)
  have "tail (cnr_fresh 2 0 1 :: nat cnr_log) = 0" by (simp add: cnr_fresh_def cnr_register_eq new_with_entries_def MAX_REPLICAS_PER_LOG_def)
  moreover have "1 \<le> length (slog (cnr_fresh 2 0 1 :: nat cnr_log)) - GC_FROM_HEAD"
    using log_wf_slots(3) [OF cnr_invD(1) [OF inv]] by (simp add: log_constants)
  ultimately show ?thesis
    using cnr_append_correct [OF inv, of 2 "[(7, 1, False)]" 0 "\<lambda>_. (True, True)" count_step 5]
    by (simp add: batch_entries_def log_constants One_nat_def)
qed

text \<open>
  C22. Appending a scan entry to the first log can deadlock on itself. The entry is reserved at once but
  written only after the scan was appended to every log. When the reservation uses up the room in
  front of the reserve and some replica has executed nothing since the head, \<open>try_append_scan\<close>
  executes the log up to and including its own unwritten entry, and waits for it forever, with any fuel.
\<close>

theorem scan_append_deadlocks:
  assumes "cnr_inv k l h" "1 \<le> idx" "idx \<le> k" "lm_idx (log_metadata l) = 1"
    and "tail l = head l + length (slog l) - GC_FROM_HEAD" "j < k" "ltails l ! j = head l"
    and "creplay f (drop (ltails l ! (idx - 1)) h) s = Inr (True, m, s')"
  shows "try_append_scan n True own_log oper idx offs (beside f) (l, s) = Inl Hang"
proof (cases n)
  case 0
  then show ?thesis using assms(4,5) by (simp add: try_append_scan_def own_log_def)
next
  case (Suc n')
  let ?l = "l\<lparr>tail := tail l + 1\<rparr>"
  have reg: "registered l idx" using assms(2,3) cnr_invD(3) [OF assms(1)] by (simp add: registered_def)
  obtain a t where mt: "find_min_tail l = Inr (a, t)" using find_min_tail_wf [OF cnr_invD(1) [OF assms(1)]] by blast
  note S = find_min_tail_spec [OF mt reg]
  have "a < k" using S(2) cnr_invD(3) [OF assms(1)] by (simp add: registered_def)
  then have "head l \<le> t" using cnr_tailsD(1) [OF assms(1)] S(1) by simp
  moreover have "t \<le> head l" using S(3) [of "j + 1"] assms(6,7) cnr_invD(3) [OF assms(1)] by (simp add: registered_def)
  ultimately have "find_min_tail ?l = Inr (a, head l)" using mt by (auto simp: find_min_tail_def split: if_splits)
  moreover have "cnr_exec own_log idx (beside f) (?l, s) = Inl Hang" by (rule exec_unwritten [OF assms(1-3,8)])
  ultimately have "cnr_advance_head (Suc n') own_log idx (beside f) (?l, s) = Inl Hang" by (simp add: own_log_def)
  then show ?thesis using assms(4,5) Suc by (simp add: try_append_scan_def own_log_def)
qed

text \<open>Two replicas and a log with 1024 entries, of which none was executed.\<close>

theorem scan_append_deadlocks_witness:
  "\<exists>l. cnr_inv 2 l (batch_entries (replicate GC_FROM_HEAD (7, 1, False)) 1)
     \<and> try_append_scan 1000 True own_log (8, 2, False) 2 [] (beside count_step) (l, 0) = Inl Hang"
proof -
  let ?l0 = "cnr_fresh 2 0 1 :: nat cnr_log" and ?ops = "replicate GC_FROM_HEAD (7, 1, False) :: nat cnr_op list"
  have inv: "cnr_inv 2 ?l0 []" by (rule cnr_fresh_inv) (simp_all add: MAX_REPLICAS_PER_LOG_def)
  have e: "entries_to_log_entries 0 = 2 * GC_FROM_HEAD"
    using entries_to_log_entries_fix [of "2 * GC_FROM_HEAD"] two_gc_pow2 by (simp add: log_constants entries_to_log_entries_def)
  have z: "tail ?l0 = 0" "head ?l0 = 0" "ltails ?l0 ! 0 = 0" "lm_idx (log_metadata ?l0) = 1" "length (slog ?l0) = 2 * GC_FROM_HEAD"
    by (simp_all add: cnr_fresh_def cnr_register_eq new_with_entries_def MAX_REPLICAS_PER_LOG_def log_meta_new_def e)
  define l where "l = (update_entries (tail ?l0) ?ops 1 ?l0)\<lparr>tail := tail ?l0 + length ?ops\<rparr>"
  have frame: "head (update_entries p ops i x) = head x" "ltails (update_entries p ops i x) = ltails x"
    "log_metadata (update_entries p ops i x) = log_metadata x" "length (slog (update_entries p ops i x)) = length (slog x)" for p ops i and x :: "nat cnr_log"
    by (induction p ops i x rule: update_entries.induct) (simp_all add: update_entry_def Let_def split: prod.splits)
  have li: "cnr_inv 2 l (batch_entries ?ops 1)" using append_batch [OF inv, of 1 ?ops] z by (simp add: l_def)
  have "\<exists>s'. count_step o1 rid tid sc ro deps s = Inr (True, s')" for o1 rid tid sc ro deps s by (simp add: count_step_def)
  from creplay_total [of count_step, OF this] obtain n s' where run: "creplay count_step (drop (ltails l ! (2 - 1)) (batch_entries ?ops 1)) 0 = Inr (True, n, s')" by blast
  have "try_append_scan 1000 True own_log (8, 2, False) 2 [] (beside count_step) (l, 0) = Inl Hang"
    by (rule scan_append_deadlocks [OF li _ _ _ _ _ _ run, of 0]) (simp_all add: l_def frame z)
  with li show ?thesis by blast
qed

end
