(* ===== verification/Cnr_Replica.thy ===== *)
theory Cnr_Replica
  imports Cnr_Log Op_Context Dispatch
begin

text \<open>
  The replica of concurrent node replication, \<open>node-replication/src/cnr/replica.rs\<close>. Each operation is
  mapped to one of several logs, with a combiner lock for each; a scan is appended to all logs and
  executed when the replica has caught up with the positions it depends on. The state of a run is
  the list of the shared logs and one replica; every method is the run of one thread. Combining one
  log may combine another (\<open>handle_scan_op\<close>), so \<open>try_combine\<close> takes fuel for the depth and the loops of
  the log, and running out of it is \<open>Hang\<close>.
\<close>

section \<open>State\<close>

type_synonym pending_meta = "nat \<times> bool \<times> bool"

text \<open>\<open>LogMapper::hash\<close>: the logs of an operation, given the number of logs.\<close>

type_synonym 'op log_mapper = "'op \<Rightarrow> nat \<Rightarrow> nat list"

record log_state =
  ls_idx :: nat
  ls_combiner :: nat
  ls_pending :: "bool list"

record ('d, 'op, 'r) cnr_replica =
  c_next :: nat
  c_data :: 'd
  c_contexts :: "('op, 'r, pending_meta) op_context list"
  logstate :: "log_state list"

type_synonym ('d, 'op, 'r) cnr_state = "'op cnr_log list \<times> ('d, 'op, 'r) cnr_replica"

text \<open>\<open>LogState::new\<close> registers the replica with the log.\<close>

definition log_state_new :: "'op cnr_log \<Rightarrow> (log_state \<times> 'op cnr_log) run" where
  "log_state_new l =
     (case log_register 0 l of
        (None, _) \<Rightarrow> Inl unwrap_panic
      | (Some idx, l') \<Rightarrow> Inr (\<lparr>ls_idx = idx, ls_combiner = 0, ls_pending = replicate MAX_THREADS_PER_REPLICA False\<rparr>, l'))"

fun log_states :: "'op cnr_log list \<Rightarrow> (log_state list \<times> 'op cnr_log list) run" where
  "log_states [] = Inr ([], [])"
| "log_states (l # ls) =
     bind_run (log_state_new l) (\<lambda>(s, l'). bind_run (log_states ls) (\<lambda>(ss, ls'). Inr (s # ss, l' # ls')))"

definition cnr_with_data :: "'op cnr_log list \<Rightarrow> 'd \<Rightarrow> ('d, 'op, 'r) cnr_state run" where
  "cnr_with_data ls d =
     bind_run (log_states ls) (\<lambda>(ss, ls').
       Inr (ls', \<lparr>c_next = 1, c_data = d, c_contexts = map (\<lambda>idx. context_new (0, False, False) (idx + 1)) [0..<MAX_THREADS_PER_REPLICA],
                  logstate = ss\<rparr>))"

text \<open>The default value of the data structure is an argument.\<close>

definition cnr_new :: "'d \<Rightarrow> 'op cnr_log list \<Rightarrow> ('d, 'op, 'r) cnr_state run" where
  "cnr_new dflt ls = cnr_with_data ls dflt"

fun cnr_replica_register :: "nat \<Rightarrow> ('d, 'op, 'r) cnr_replica \<Rightarrow> nat option \<times> ('d, 'op, 'r) cnr_replica" where
  "cnr_replica_register fails r =
     (let idx = c_next r
      in if idx > MAX_THREADS_PER_REPLICA then (None, r)
         else (case fails of
                 Suc fails' \<Rightarrow> cnr_replica_register fails' r
               | 0 \<Rightarrow> (Some idx, r\<lparr>c_next := idx + 1\<rparr>)))"

declare cnr_replica_register.simps [simp del]

text \<open>
  The outcomes of the weak compare-and-exchanges at one level of fuel: on the combiner lock, on the
  pending flag of each thread, on the tail and the notification flag of the log, and on its tail for a scan.
\<close>

record cnr_env =
  lock_won :: bool
  flag_won :: "nat \<Rightarrow> bool"
  tail_won :: "bool \<times> bool"
  scan_won :: bool

section \<open>Accesses\<close>

definition log_at :: "nat \<Rightarrow> ('op, ('d, 'op, 'r) cnr_state) log_ref" where
  "log_at h = (\<lambda>st. fst st ! h, \<lambda>l st. ((fst st)[h := l], snd st))"

definition set_logstate :: "nat \<Rightarrow> (log_state \<Rightarrow> log_state) \<Rightarrow> ('d, 'op, 'r) cnr_state \<Rightarrow> ('d, 'op, 'r) cnr_state" where
  "set_logstate h f st = (fst st, (snd st)\<lparr>logstate := (logstate (snd st))[h := f (logstate (snd st) ! h)]\<rparr>)"

definition token_of :: "nat \<Rightarrow> ('d, 'op, 'r) cnr_state \<Rightarrow> nat" where
  "token_of h st = ls_idx (logstate (snd st) ! h)"

definition synced :: "nat \<Rightarrow> nat \<Rightarrow> ('d, 'op, 'r) cnr_state \<Rightarrow> bool" where
  "synced h ct st = is_replica_synced_for_reads (fst st ! h) (token_of h st) ct"

definition answer :: "nat \<Rightarrow> 'r \<Rightarrow> ('d, 'op, 'r) cnr_state \<Rightarrow> ('d, 'op, 'r) cnr_state run" where
  "answer tid resp st =
     (if 0 < tid \<and> tid - 1 < length (c_contexts (snd st))
      then Inr (fst st, (snd st)\<lparr>c_contexts := (c_contexts (snd st))[tid - 1 := context_enqueue_resp resp (c_contexts (snd st) ! (tid - 1))]\<rparr>)
      else Inl index_panic)"

definition run_op :: "('d, 'ro, 'op, 'r) dispatcher \<Rightarrow> 'op \<Rightarrow> ('d, 'op, 'r) cnr_state \<Rightarrow> ('r \<times> ('d, 'op, 'r) cnr_state) run" where
  "run_op D oper st =
     bind_run (dispatch_mut D oper (c_data (snd st))) (\<lambda>(resp, d). Inr (resp, fst st, (snd st)\<lparr>c_data := d\<rparr>))"

section \<open>Scans\<close>

definition is_replica_sync_for_logs :: "nat \<Rightarrow> nat \<Rightarrow> nat list \<Rightarrow> ('d, 'op, 'r) cnr_state \<Rightarrow> bool" where
  "is_replica_sync_for_logs start stop tails st = list_all (\<lambda>h. synced h (tails ! h) st) [start..<min stop (length tails)]"

text \<open>
  The recursive calls of \<open>try_combine\<close> are the argument \<open>combine_log\<close>, on the number of a log.
\<close>

fun sync_leaves :: "(nat \<Rightarrow> ('d, 'op, 'r) cnr_state \<Rightarrow> ('d, 'op, 'r) cnr_state run) \<Rightarrow> nat list \<Rightarrow> nat list
    \<Rightarrow> ('d, 'op, 'r) cnr_state \<Rightarrow> ('d, 'op, 'r) cnr_state run" where
  "sync_leaves combine_log [] deps st = Inr st"
| "sync_leaves combine_log (h # hs) deps st =
     bind_run (if synced h (deps ! h) st then Inr st else combine_log h st) (sync_leaves combine_log hs deps)"

definition handle_scan_op :: "('d, 'ro, 'op, 'r) dispatcher \<Rightarrow> (nat \<Rightarrow> ('d, 'op, 'r) cnr_state \<Rightarrow> ('d, 'op, 'r) cnr_state run)
    \<Rightarrow> 'op \<Rightarrow> nat \<Rightarrow> nat \<Rightarrow> nat \<Rightarrow> bool \<Rightarrow> nat list \<Rightarrow> ('d, 'op, 'r) cnr_state \<Rightarrow> (bool \<times> ('d, 'op, 'r) cnr_state) run" where
  "handle_scan_op D combine_log oper hashidx issuer_rid issuer_tid ro deps st =
     (if ro \<and> issuer_rid \<noteq> token_of hashidx st then Inr (True, st)
      else let nlogs = length (logstate (snd st))
           in if length deps = nlogs
              then bind_run (sync_leaves combine_log [1..<nlogs] deps st) (\<lambda>st1.
                     if is_replica_sync_for_logs 1 nlogs deps st1
                     then bind_run (run_op D oper st1) (\<lambda>(resp, st2).
                            bind_run (if issuer_rid = token_of hashidx st2 then answer issuer_tid resp st2 else Inr st2) (\<lambda>st3.
                              Inr (True, st3)))
                     else Inr (False, st1))
              else bind_run (array_get deps 0) (\<lambda>d0.
                     if synced 0 d0 st then Inr (True, st)
                     else bind_run (combine_log 0 st) (\<lambda>st1. Inr (is_replica_sync_for_logs 0 1 deps st1, st1))))"

text \<open>The closure that the replica hands to log \<open>hashidx\<close>.\<close>

definition cnr_apply :: "('d, 'ro, 'op, 'r) dispatcher \<Rightarrow> (nat \<Rightarrow> ('d, 'op, 'r) cnr_state \<Rightarrow> ('d, 'op, 'r) cnr_state run)
    \<Rightarrow> nat \<Rightarrow> ('op, ('d, 'op, 'r) cnr_state) cnr_closure" where
  "cnr_apply D combine_log hashidx oper rid tid scan ro deps st =
     (if scan
      then (case deps of None \<Rightarrow> Inl unwrap_panic | Some ds \<Rightarrow> handle_scan_op D combine_log oper hashidx rid tid ro ds st)
      else bind_run (run_op D oper st) (\<lambda>(resp, st1).
             bind_run (if rid = token_of hashidx st1 then answer tid resp st1 else Inr st1) (\<lambda>st2. Inr (True, st2))))"

text \<open>Appending a scan to one log until an attempt succeeds, then to all the logs of the scan.\<close>

fun append_scan_loop :: "nat \<Rightarrow> (nat \<Rightarrow> cnr_env) \<Rightarrow> ('d, 'ro, 'op, 'r) dispatcher \<Rightarrow> (nat \<Rightarrow> ('d, 'op, 'r) cnr_state \<Rightarrow> ('d, 'op, 'r) cnr_state run)
    \<Rightarrow> 'op cnr_op \<Rightarrow> nat \<Rightarrow> nat list \<Rightarrow> ('d, 'op, 'r) cnr_state \<Rightarrow> (nat \<times> ('d, 'op, 'r) cnr_state) run" where
  "append_scan_loop 0 env D combine_log oper h entries st = Inl Hang"
| "append_scan_loop (Suc n) env D combine_log oper h entries st =
     bind_run (try_append_scan n (scan_won (env n)) (log_at h) oper (token_of h st) entries (cnr_apply D combine_log h) st) (\<lambda>(out, st1).
       case out of
         Some entry \<Rightarrow> Inr (entry, st1)
       | None \<Rightarrow> append_scan_loop n env D combine_log oper h entries st1)"

fun append_scan_all :: "nat \<Rightarrow> (nat \<Rightarrow> cnr_env) \<Rightarrow> ('d, 'ro, 'op, 'r) dispatcher \<Rightarrow> (nat \<Rightarrow> ('d, 'op, 'r) cnr_state \<Rightarrow> ('d, 'op, 'r) cnr_state run)
    \<Rightarrow> 'op cnr_op \<Rightarrow> nat list \<Rightarrow> nat list \<Rightarrow> ('d, 'op, 'r) cnr_state \<Rightarrow> (nat list \<times> ('d, 'op, 'r) cnr_state) run" where
  "append_scan_all n env D combine_log oper [] entries st = Inr (entries, st)"
| "append_scan_all n env D combine_log oper (h # hs) entries st =
     bind_run (append_scan_loop n env D combine_log oper h entries st) (\<lambda>(entry, st1).
       append_scan_all n env D combine_log oper hs (entries @ [entry]) st1)"

definition append_scan :: "nat \<Rightarrow> (nat \<Rightarrow> cnr_env) \<Rightarrow> ('d, 'ro, 'op, 'r) dispatcher \<Rightarrow> 'op log_mapper
    \<Rightarrow> (nat \<Rightarrow> ('d, 'op, 'r) cnr_state \<Rightarrow> ('d, 'op, 'r) cnr_state run) \<Rightarrow> 'op cnr_op \<Rightarrow> nat \<Rightarrow> ('d, 'op, 'r) cnr_state
    \<Rightarrow> ('d, 'op, 'r) cnr_state run" where
  "append_scan n env D hash combine_log oper thread_id st =
     (let hash_vec = hash (fst oper) (length (logstate (snd st)))
      in bind_run (array_get hash_vec 0) (\<lambda>root_log.
         bind_run (acquire_scan_lock 0 thread_id (fst st ! root_log)) (\<lambda>l.
         bind_run (append_scan_all n env D combine_log oper hash_vec [] (snd (log_at root_log) l st)) (\<lambda>(entries, st1).
         let st2 = snd (log_at root_log) (release_scan_lock (fst st1 ! root_log)) st1
         in bind_run (fix_scan_entry oper (token_of root_log st2) entries (fst st2 ! root_log)) (\<lambda>l'.
              Inr (snd (log_at root_log) l' st2))))))"

section \<open>Flat combining\<close>

text \<open>
  Collecting the operations for log \<open>hashidx\<close> of the threads with the flag set; \<open>won tid\<close> is the outcome
  of the weak compare-and-exchange on the flag.
\<close>

fun cnr_collect :: "(nat \<Rightarrow> bool) \<Rightarrow> nat \<Rightarrow> nat list \<Rightarrow> 'op cnr_op list \<Rightarrow> 'op cnr_op list \<Rightarrow> ('d, 'op, 'r) cnr_state
    \<Rightarrow> ('op cnr_op list \<times> 'op cnr_op list \<times> ('d, 'op, 'r) cnr_state) run" where
  "cnr_collect won hashidx [] buf scans st = Inr (buf, scans, st)"
| "cnr_collect won hashidx (tid # tids) buf scans st =
     (if ls_pending (logstate (snd st) ! hashidx) ! (tid - 1) \<and> won tid
      then bind_run (array_get (c_contexts (snd st)) (tid - 1)) (\<lambda>c.
           bind_run (context_items c) (\<lambda>items.
             let mine = filter (\<lambda>(_, h, _, _). h = hashidx) items;
                 scan_ops = map (\<lambda>(oper, _, _, ro). (oper, tid, ro)) (filter (\<lambda>(_, _, sc, _). sc) mine);
                 ops = map (\<lambda>(oper, _, _, ro). (oper, tid, ro)) (filter (\<lambda>(_, _, sc, _). \<not> sc) mine)
             in cnr_collect won hashidx tids (buf @ ops) (scans @ scan_ops)
                  (set_logstate hashidx (\<lambda>s. s\<lparr>ls_pending := (ls_pending s)[tid - 1 := False]\<rparr>) st)))
      else cnr_collect won hashidx tids buf scans st)"

fun append_scans :: "nat \<Rightarrow> (nat \<Rightarrow> cnr_env) \<Rightarrow> ('d, 'ro, 'op, 'r) dispatcher \<Rightarrow> 'op log_mapper
    \<Rightarrow> (nat \<Rightarrow> ('d, 'op, 'r) cnr_state \<Rightarrow> ('d, 'op, 'r) cnr_state run) \<Rightarrow> 'op cnr_op list \<Rightarrow> nat \<Rightarrow> ('d, 'op, 'r) cnr_state
    \<Rightarrow> ('d, 'op, 'r) cnr_state run" where
  "append_scans n env D hash combine_log [] thread_id st = Inr st"
| "append_scans n env D hash combine_log (x # xs) thread_id st =
     bind_run (append_scan n env D hash combine_log x thread_id st) (append_scans n env D hash combine_log xs thread_id)"

definition cnr_combine :: "nat \<Rightarrow> (nat \<Rightarrow> cnr_env) \<Rightarrow> ('d, 'ro, 'op, 'r) dispatcher \<Rightarrow> 'op log_mapper
    \<Rightarrow> (nat \<Rightarrow> ('d, 'op, 'r) cnr_state \<Rightarrow> ('d, 'op, 'r) cnr_state run) \<Rightarrow> nat \<Rightarrow> nat \<Rightarrow> ('d, 'op, 'r) cnr_state
    \<Rightarrow> ('d, 'op, 'r) cnr_state run" where
  "cnr_combine n env D hash combine_log thread_id hashidx st =
     bind_run (cnr_collect (flag_won (env n)) hashidx [1..<c_next (snd st)] [] [] st) (\<lambda>(buf, scans, st1).
     bind_run (cnr_append n (\<lambda>i. tail_won (env i)) (log_at hashidx) buf (token_of hashidx st1) (cnr_apply D combine_log hashidx) st1) (\<lambda>st2.
     bind_run (append_scans n env D hash combine_log scans thread_id st2) (\<lambda>st3.
       cnr_exec (log_at hashidx) (token_of hashidx st3) (cnr_apply D combine_log hashidx) st3)))"

fun cnr_try_combine :: "nat \<Rightarrow> (nat \<Rightarrow> cnr_env) \<Rightarrow> ('d, 'ro, 'op, 'r) dispatcher \<Rightarrow> 'op log_mapper \<Rightarrow> nat \<Rightarrow> nat
    \<Rightarrow> ('d, 'op, 'r) cnr_state \<Rightarrow> ('d, 'op, 'r) cnr_state run" where
  "cnr_try_combine 0 env D hash tid hashidx st = Inl Hang"
| "cnr_try_combine (Suc n) env D hash tid hashidx st =
     (if length (logstate (snd st)) \<le> hashidx then Inl index_panic
      else if ls_combiner (logstate (snd st) ! hashidx) \<noteq> 0 \<or> \<not> lock_won (env n) then Inr st
      else bind_run (cnr_combine n env D hash (cnr_try_combine n env D hash tid) tid hashidx
               (set_logstate hashidx (\<lambda>s. s\<lparr>ls_combiner := tid\<rparr>) st)) (\<lambda>st1.
             Inr (set_logstate hashidx (\<lambda>s. s\<lparr>ls_combiner := 0\<rparr>) st1)))"

section \<open>Calls\<close>

text \<open>A full context never empties while its thread waits here.\<close>

definition cnr_make_pending :: "'op \<Rightarrow> nat \<Rightarrow> nat \<Rightarrow> bool \<Rightarrow> bool \<Rightarrow> ('d, 'op, 'r) cnr_state \<Rightarrow> ('d, 'op, 'r) cnr_state run" where
  "cnr_make_pending oper tid h scan ro st =
     (if 0 < tid \<and> tid - 1 < length (c_contexts (snd st))
      then (case context_enqueue oper (h, scan, ro) (c_contexts (snd st) ! (tid - 1)) of
              (False, _) \<Rightarrow> Inl Hang
            | (True, c) \<Rightarrow>
                let st1 = (fst st, (snd st)\<lparr>c_contexts := (c_contexts (snd st))[tid - 1 := c]\<rparr>)
                in if h < length (logstate (snd st))
                   then Inr (set_logstate h (\<lambda>s. s\<lparr>ls_pending := (ls_pending s)[tid - 1 := True]\<rparr>) st1)
                   else Inl index_panic)
      else Inl index_panic)"

text \<open>
  \<open>2 ^ 29\<close> fruitless polls are one turn of the loop: nothing changes between them when only this thread runs.
\<close>

fun cnr_get_response :: "nat \<Rightarrow> (nat \<Rightarrow> cnr_env) \<Rightarrow> ('d, 'ro, 'op, 'r) dispatcher \<Rightarrow> 'op log_mapper \<Rightarrow> nat \<Rightarrow> nat
    \<Rightarrow> ('d, 'op, 'r) cnr_state \<Rightarrow> ('r \<times> ('d, 'op, 'r) cnr_state) run" where
  "cnr_get_response 0 env D hash tid h st = Inl Hang"
| "cnr_get_response (Suc n) env D hash tid h st =
     bind_run (if tid = 0 then Inl index_panic else array_get (c_contexts (snd st)) (tid - 1)) (\<lambda>c.
     bind_run (context_res c) (\<lambda>(out, c').
       let st1 = (fst st, (snd st)\<lparr>c_contexts := (c_contexts (snd st))[tid - 1 := c']\<rparr>)
       in case out of
            Some resp \<Rightarrow> Inr (resp, st1)
          | None \<Rightarrow> bind_run (cnr_try_combine n env D hash tid h st1) (cnr_get_response n env D hash tid h)))"

definition cnr_execute_mut :: "nat \<Rightarrow> (nat \<Rightarrow> cnr_env) \<Rightarrow> ('d, 'ro, 'op, 'r) dispatcher \<Rightarrow> 'op log_mapper \<Rightarrow> 'op \<Rightarrow> nat
    \<Rightarrow> ('d, 'op, 'r) cnr_state \<Rightarrow> ('r \<times> ('d, 'op, 'r) cnr_state) run" where
  "cnr_execute_mut n env D hash oper tid st =
     (let hash_vec = hash oper (length (logstate (snd st)))
      in if length hash_vec \<noteq> 1 then Inl (Panic ''assertion failed: hash_vec.len() == 1'')
         else let h = hash_vec ! 0
              in bind_run (cnr_make_pending oper tid h False False st) (\<lambda>st1.
                 bind_run (cnr_try_combine n env D hash tid h st1) (\<lambda>st2.
                   cnr_get_response n env D hash tid h st2)))"

definition cnr_execute_mut_scan :: "nat \<Rightarrow> (nat \<Rightarrow> cnr_env) \<Rightarrow> ('d, 'ro, 'op, 'r) dispatcher \<Rightarrow> 'op log_mapper \<Rightarrow> 'op \<Rightarrow> nat
    \<Rightarrow> ('d, 'op, 'r) cnr_state \<Rightarrow> ('r \<times> ('d, 'op, 'r) cnr_state) run" where
  "cnr_execute_mut_scan n env D hash oper tid st =
     (if length (logstate (snd st)) = 1 then cnr_execute_mut n env D hash oper tid st
      else bind_run (cnr_make_pending oper tid 0 True False st) (\<lambda>st1.
           bind_run (cnr_try_combine n env D hash tid 0 st1) (\<lambda>st2. cnr_get_response n env D hash tid 0 st2)))"

text \<open>Catching up with a completed tail.\<close>

fun cnr_catch_up :: "nat \<Rightarrow> (nat \<Rightarrow> cnr_env) \<Rightarrow> ('d, 'ro, 'op, 'r) dispatcher \<Rightarrow> 'op log_mapper \<Rightarrow> nat \<Rightarrow> nat \<Rightarrow> nat
    \<Rightarrow> ('d, 'op, 'r) cnr_state \<Rightarrow> ('d, 'op, 'r) cnr_state run" where
  "cnr_catch_up 0 env D hash tid h ct st = (if synced h ct st then Inr st else Inl Hang)"
| "cnr_catch_up (Suc n) env D hash tid h ct st =
     (if synced h ct st then Inr st
      else bind_run (cnr_try_combine n env D hash tid h st) (cnr_catch_up n env D hash tid h ct))"

definition cnr_execute :: "nat \<Rightarrow> (nat \<Rightarrow> cnr_env) \<Rightarrow> ('d, 'ro, 'op, 'r) dispatcher \<Rightarrow> 'op log_mapper \<Rightarrow> 'ro log_mapper
    \<Rightarrow> 'ro \<Rightarrow> nat \<Rightarrow> ('d, 'op, 'r) cnr_state \<Rightarrow> ('r \<times> ('d, 'op, 'r) cnr_state) run" where
  "cnr_execute n env D hash hash_read ro tid st =
     (let hash_vec = hash_read ro (length (logstate (snd st)))
      in if length hash_vec \<noteq> 1 then Inl (Panic ''assertion failed: hash_vec.len() == 1'')
         else let h = hash_vec ! 0
              in if length (logstate (snd st)) \<le> h then Inl index_panic
                 else bind_run (cnr_catch_up n env D hash tid h (get_ctail (fst st ! h)) st) (\<lambda>st1.
                      bind_run (dispatch D (c_data (snd st1)) ro) (\<lambda>resp. Inr (resp, st1))))"

definition cnr_execute_scan :: "nat \<Rightarrow> (nat \<Rightarrow> cnr_env) \<Rightarrow> ('d, 'ro, 'op, 'r) dispatcher \<Rightarrow> 'op log_mapper \<Rightarrow> 'op \<Rightarrow> nat
    \<Rightarrow> ('d, 'op, 'r) cnr_state \<Rightarrow> ('r \<times> ('d, 'op, 'r) cnr_state) run" where
  "cnr_execute_scan n env D hash oper tid st =
     (if length (logstate (snd st)) = 1
      then bind_run (cnr_catch_up n env D hash tid 0 (get_ctail (fst st ! 0)) st) (run_op D oper)
      else bind_run (cnr_make_pending oper tid 0 True True st) (\<lambda>st1.
           bind_run (cnr_try_combine n env D hash tid 0 st1) (\<lambda>st2. cnr_get_response n env D hash tid 0 st2)))"

fun cnr_sync :: "nat \<Rightarrow> (nat \<Rightarrow> cnr_env) \<Rightarrow> ('d, 'ro, 'op, 'r) dispatcher \<Rightarrow> 'op log_mapper \<Rightarrow> nat \<Rightarrow> nat list
    \<Rightarrow> ('d, 'op, 'r) cnr_state \<Rightarrow> ('d, 'op, 'r) cnr_state run" where
  "cnr_sync n env D hash tid [] st = Inr st"
| "cnr_sync n env D hash tid (h # hs) st =
     bind_run (cnr_catch_up n env D hash tid h (get_ctail (fst st ! h)) st) (cnr_sync n env D hash tid hs)"

definition cnr_sync_log :: "nat \<Rightarrow> (nat \<Rightarrow> cnr_env) \<Rightarrow> ('d, 'ro, 'op, 'r) dispatcher \<Rightarrow> 'op log_mapper \<Rightarrow> nat \<Rightarrow> nat
    \<Rightarrow> ('d, 'op, 'r) cnr_state \<Rightarrow> ('d, 'op, 'r) cnr_state run" where
  "cnr_sync_log n env D hash tid log_id st =
     (if log_id = 0 \<or> length (logstate (snd st)) < log_id then Inl index_panic
      else if synced (log_id - 1) (get_ctail (fst st ! (log_id - 1))) st then Inr st
      else cnr_try_combine n env D hash tid (log_id - 1) st)"

text \<open>\<open>verify\<close> executes the first log only, and every entry as a plain write.\<close>

definition cnr_verify :: "('d, 'ro, 'op, 'r) dispatcher \<Rightarrow> ('d, 'op, 'r) cnr_state \<Rightarrow> ('d \<times> ('d, 'op, 'r) cnr_state) run" where
  "cnr_verify D st =
     (if ls_combiner (logstate (snd st) ! 0) \<noteq> 0 then Inl Hang
      else bind_run (cnr_exec (log_at 0) (token_of 0 st)
               (\<lambda>oper rid tid scan ro deps st. bind_run (run_op D oper st) (\<lambda>(_, st'). Inr (True, st'))) st) (\<lambda>st1.
             Inr (c_data (snd st1), st1)))"

section \<open>Invariant\<close>

text \<open>\<open>hs\<close> are the histories of the logs, \<open>k\<close> the number of replicas.\<close>

definition cnr_sys :: "nat \<Rightarrow> 'op cnr_entry list list \<Rightarrow> ('d, 'op, 'r) cnr_state \<Rightarrow> bool" where
  "cnr_sys k hs st \<longleftrightarrow> length (fst st) = length hs \<and> length (logstate (snd st)) = length hs
     \<and> length (c_contexts (snd st)) = MAX_THREADS_PER_REPLICA \<and> c_next (snd st) \<le> MAX_THREADS_PER_REPLICA + 1
     \<and> (\<forall>h<length hs. cnr_inv k (fst st ! h) (hs ! h) \<and> 1 \<le> token_of h st \<and> token_of h st \<le> k
          \<and> length (ls_pending (logstate (snd st) ! h)) = MAX_THREADS_PER_REPLICA)"

definition idle_context :: "('op, 'r, 'm) op_context \<Rightarrow> bool" where
  "idle_context c \<longleftrightarrow> ctx_inv c \<and> pending_ops c = [] \<and> answers c = []"

definition cnr_quiet :: "('d, 'op, 'r) cnr_state \<Rightarrow> bool" where
  "cnr_quiet st \<longleftrightarrow> (\<forall>s\<in>set (logstate (snd st)). ls_combiner s = 0 \<and> ls_pending s = replicate MAX_THREADS_PER_REPLICA False)
     \<and> (\<forall>c\<in>set (c_contexts (snd st)). idle_context c)"

definition unseen :: "nat \<Rightarrow> 'op cnr_entry list list \<Rightarrow> ('d, 'op, 'r) cnr_state \<Rightarrow> 'op cnr_entry list" where
  "unseen h hs st = drop (ltails (fst st ! h) ! (token_of h st - 1)) (hs ! h)"

text \<open>The closure of the replica on plain writes, as a step on the replica alone.\<close>

definition rep_step :: "('d, 'ro, 'op, 'r) dispatcher \<Rightarrow> nat \<Rightarrow> ('op, ('d, 'op, 'r) cnr_replica) cnr_step" where
  "rep_step D h oper rid tid scan ro deps r =
     bind_run (dispatch_mut D oper (c_data r)) (\<lambda>(resp, d).
       if rid = ls_idx (logstate r ! h)
       then if 0 < tid \<and> tid - 1 < length (c_contexts r)
            then Inr (True, r\<lparr>c_data := d, c_contexts := (c_contexts r)[tid - 1 := context_enqueue_resp resp (c_contexts r ! (tid - 1))]\<rparr>)
            else Inl index_panic
       else Inr (True, r\<lparr>c_data := d\<rparr>))"

section \<open>Execution on one of the logs\<close>

lemma cnr_apply_plain:
  "cnr_apply D cl h oper rid tid False ro deps (ls, r) = bind_run (rep_step D h oper rid tid False ro deps r) (\<lambda>(ok, r'). Inr (ok, ls, r'))"
  by (auto simp: cnr_apply_def rep_step_def run_op_def answer_def token_of_def bind_run_assoc intro!: bind_run_cong)

lemma consume_scan: "is_scan (metadata (slog (consume_entry idx p l) ! q)) = is_scan (metadata (slog l ! q))"
  by (cases "q < length (slog l)"; cases "p = q") (simp_all add: consume_entry_def Let_def nth_list_update list_update_beyond)

lemma consume_index: "index (consume_entry idx p l) i = index l i"
  by (simp add: index_def)

lemma exec_loop_at:
  assumes "h < length ls" "\<forall>i\<in>set is. \<not> is_scan (metadata (slog (ls ! h) ! index (ls ! h) i))"
  shows "cnr_exec_loop (log_at h) idx (cnr_apply D cl h) is (ls, r) =
    bind_run (cnr_exec_loop own_log idx (beside (rep_step D h)) is (ls ! h, r)) (\<lambda>(fin, l, r'). Inr (fin, ls[h := l], r'))"
  using assms
proof (induction "is" arbitrary: ls r)
  case Nil
  then show ?case by (simp add: list_update_id)
next
  case (Cons i "is")
  let ?l = "ls ! h"
  let ?e = "slog ?l ! index ?l i"
  let ?l' = "consume_entry idx (index ?l i) ?l"
  have sc: "\<not> is_scan (metadata ?e)" using Cons.prems(2) by simp
  have "\<forall>j\<in>set is. \<not> is_scan (metadata (slog ((ls[h := ?l']) ! h) ! index ((ls[h := ?l']) ! h) j))"
    using Cons.prems by (simp add: consume_scan consume_index)
  note IH = Cons.IH [of "ls[h := ?l']", OF _ this]
  show ?case
  proof (cases "alivef ?e = lmasks ?l ! (idx - 1) \<and> operation ?e \<noteq> None")
    case False
    then show ?thesis using sc unfolding exec_loop_own by (auto simp: log_at_def Let_def split: option.split)
  next
    case True
    then obtain oper where oper: "operation ?e = Some oper" by auto
    show ?thesis
      unfolding exec_loop_own using True oper sc Cons.prems(1) IH
      by (simp add: Let_def log_at_def cnr_apply_plain bind_run_assoc del: cnr_exec_loop.simps) 
        (auto simp: Let_def log_at_def cnr_apply_plain bind_run_assoc intro!: bind_run_cong)
  qed
qed

lemma exec_at:
  assumes inv: "cnr_inv k (ls ! h) es" and h: "h < length ls" and idx: "1 \<le> idx" "idx \<le> k"
    and plain: "\<forall>e\<in>set (drop (ltails (ls ! h) ! (idx - 1)) es). snd (snd e) = None"
  shows "cnr_exec (log_at h) idx (cnr_apply D cl h) (ls, r) =
    bind_run (cnr_exec own_log idx (beside (rep_step D h)) (ls ! h, r)) (\<lambda>(l, r'). Inr (ls[h := l], r'))"
proof -
  let ?l = "ls ! h"
  let ?lt = "ltails ?l ! (idx - 1)"
  have "\<not> is_scan (metadata (slog ?l ! index ?l i))" if "i \<in> set [?lt..<tail ?l]" for i
  proof -
    have i: "?lt \<le> i" "i < tail ?l" using that by auto
    obtain n where "shows_entry n (slog ?l ! index ?l i) (es ! i)" using unread_entry(1) [OF inv idx i] by blast
    moreover have "es ! i \<in> set (drop ?lt es)" using i cnr_invD(4) [OF inv] by (auto simp: in_set_conv_nth intro!: exI [of _ "i - ?lt"])
    ultimately show ?thesis using plain by (auto simp: shows_entry_def split: prod.splits)
  qed
  then have loop: "cnr_exec_loop (log_at h) idx (cnr_apply D cl h) [?lt..<tail ?l] (ls, r) =
      bind_run (cnr_exec_loop own_log idx (beside (rep_step D h)) [?lt..<tail ?l] (?l, r)) (\<lambda>(fin, l, r'). Inr (fin, ls[h := l], r'))"
    by (intro exec_loop_at [OF h]) blast
  have j: "idx - 1 < length (ltails ?l)" "idx \<noteq> 0" using idx cnr_inv_lengths(3,4) [OF inv] by auto
  have run: "cnr_exec (log_at h) idx (cnr_apply D cl h) (ls, r) =
      (if ?lt = tail ?l then Inr (ls, r) else if ?lt > tail ?l \<or> ?lt < head ?l then Inl (Panic ''Local tail not within the shared log!'')
       else bind_run (cnr_exec_loop (log_at h) idx (cnr_apply D cl h) [?lt..<tail ?l] (ls, r)) (\<lambda>(finished, st1).
         if \<not> finished then Inr st1
         else let l1 = fst st1 ! h in Inr ((fst st1)[h := l1\<lparr>ctail := max (ctail l1) (tail ?l), ltails := (ltails l1)[idx - 1 := tail ?l]\<rparr>], snd st1)))"
    using j by (auto simp: cnr_exec_def log_at_def Let_def intro!: bind_run_cong)
  have run': "cnr_exec own_log idx (beside (rep_step D h)) (?l, r) =
      (if ?lt = tail ?l then Inr (?l, r) else if ?lt > tail ?l \<or> ?lt < head ?l then Inl (Panic ''Local tail not within the shared log!'')
       else bind_run (cnr_exec_loop own_log idx (beside (rep_step D h)) [?lt..<tail ?l] (?l, r)) (\<lambda>(finished, l1, r').
         if \<not> finished then Inr (l1, r') else Inr (l1\<lparr>ctail := max (ctail l1) (tail ?l), ltails := (ltails l1)[idx - 1 := tail ?l]\<rparr>, r')))"
    using j by (auto simp: cnr_exec_def own_log_def Let_def intro!: bind_run_cong)
  show ?thesis unfolding run run' loop using h by (auto simp: bind_run_assoc Let_def intro!: bind_run_cong)
qed

lemma creplay_append:
  "creplay f es s = Inr (True, n, s1) \<Longrightarrow>
   creplay f (es @ fs) s = bind_run (creplay f fs s1) (\<lambda>(b, m, s2). Inr (b, n + m, s2))"
proof (induction es arbitrary: s n)
  case Nil
  then show ?case by (cases "creplay f fs s") auto
next
  case (Cons e es)
  obtain o1 tid ro rid deps where e: "e = ((o1, tid, ro), rid, deps)" by (metis prod.exhaust)
  from Cons.prems obtain s' n' where "f o1 rid tid (deps \<noteq> None) ro deps s = Inr (True, s')" "creplay f es s' = Inr (True, n', s1)" "n = n' + 1"
    by (auto simp: e bind_run_Inr split: if_splits)
  with Cons.IH [of s' n'] show ?case by (cases "creplay f fs s1") (auto simp: e)
qed

lemma creplay_foreign:
  assumes "run_ops D (map (fst \<circ> fst) es) (c_data r) = Inr (qs, d)" "\<forall>e\<in>set es. fst (snd e) \<noteq> ls_idx (logstate r ! h)"
  shows "creplay (rep_step D h) es r = Inr (True, length es, r\<lparr>c_data := d\<rparr>)"
  using assms
proof (induction es arbitrary: r qs)
  case (Cons e es)
  obtain o1 tid ro rid deps where e: "e = ((o1, tid, ro), rid, deps)" by (metis prod.exhaust)
  from Cons.prems(1) obtain q d1 qs' where d1: "dispatch_mut D o1 (c_data r) = Inr (q, d1)" "run_ops D (map (fst \<circ> fst) es) d1 = Inr (qs', d)"
    by (auto simp: e bind_run_Inr comp_def)
  have "creplay (rep_step D h) es (r\<lparr>c_data := d1\<rparr>) = Inr (True, length es, r\<lparr>c_data := d\<rparr>)"
    using Cons.IH [of "r\<lparr>c_data := d1\<rparr>" qs'] d1(2) Cons.prems(2) by (simp add: comp_def)
  moreover have "rep_step D h o1 rid tid (deps \<noteq> None) ro deps r = Inr (True, r\<lparr>c_data := d1\<rparr>)"
    using Cons.prems(2) d1(1) by (simp add: e rep_step_def)
  ultimately show ?case by (simp add: e)
qed simp

section \<open>One round of combining\<close>

lemma collect_skip:
  "\<forall>t\<in>set ts. \<not> ls_pending (logstate (snd st) ! h) ! (t - 1) \<Longrightarrow>
   cnr_collect won h (ts @ us) buf scans st = cnr_collect won h us buf scans st"
  by (induction ts) simp_all

lemma collect_one:
  assumes t: "1 \<le> tid" "tid < n" and won: "won tid" and h: "h < length (logstate (snd st))" and c: "tid - 1 < length (c_contexts (snd st))"
    and flags: "ls_pending (logstate (snd st) ! h) = (replicate MAX_THREADS_PER_REPLICA False)[tid - 1 := True]"
    and len: "n \<le> MAX_THREADS_PER_REPLICA + 1"
    and items: "context_items (c_contexts (snd st) ! (tid - 1)) = Inr [(oper, h, sc, ro)]"
  shows "cnr_collect won h [1..<n] [] [] st = Inr (if sc then [] else [(oper, tid, ro)], if sc then [(oper, tid, ro)] else [],
    set_logstate h (\<lambda>s. s\<lparr>ls_pending := replicate MAX_THREADS_PER_REPLICA False\<rparr>) st)"
proof -
  let ?s = "set_logstate h (\<lambda>s. s\<lparr>ls_pending := (ls_pending s)[tid - 1 := False]\<rparr>) st"
  have "(replicate MAX_THREADS_PER_REPLICA False)[tid - 1 := False] = replicate MAX_THREADS_PER_REPLICA False"
    using t len list_update_id [of "replicate MAX_THREADS_PER_REPLICA False" "tid - 1"] by simp
  then have eq: "?s = set_logstate h (\<lambda>s. s\<lparr>ls_pending := replicate MAX_THREADS_PER_REPLICA False\<rparr>) st"
    using flags by (simp add: set_logstate_def)
  have "tid \<le> n" using t by simp
  then have split: "[1..<n] = [1..<tid] @ tid # ([tid + 1..<n] @ [])"
    using t upt_add_eq_append [of 1 tid "n - tid"] by (simp add: upt_conv_Cons flip: Suc_eq_plus1)
  have before: "\<forall>x\<in>set [1..<tid]. \<not> ls_pending (logstate (snd st) ! h) ! (x - 1)"
    using t len by (auto simp: flags nth_list_update)
  have after: "\<forall>x\<in>set [tid + 1..<n]. \<not> ls_pending (logstate (snd ?s) ! h) ! (x - 1)"
    using t len h by (auto simp: set_logstate_def flags nth_list_update)
  have "ls_pending (logstate (snd st) ! h) ! (tid - 1)" using t len by (simp add: flags)
  then have "cnr_collect won h (tid # ([tid + 1..<n] @ [])) [] [] st = cnr_collect won h ([tid + 1..<n] @ [])
      (if sc then [] else [(oper, tid, ro)]) (if sc then [(oper, tid, ro)] else []) ?s"
    using won c items by simp
  also have "\<dots> = Inr (if sc then [] else [(oper, tid, ro)], if sc then [(oper, tid, ro)] else [], ?s)" using collect_skip [OF after, of won "[]"] by simp
  finally show ?thesis using collect_skip [OF before, of won] split eq by simp
qed

lemma append_at:
  assumes "h < length ls" "fst (tail_won (env n))" "tail (ls ! h) + length ops \<le> head (ls ! h) + length (slog (ls ! h)) - GC_FROM_HEAD"
    and "cnr_inv k (ls ! h) es" "1 \<le> idx" "idx \<le> k" "length ops \<le> GC_FROM_HEAD"
  shows "\<exists>l. cnr_append (Suc n) (\<lambda>i. tail_won (env i)) (log_at h) ops idx d (ls, r) = Inr (ls[h := l], r)
    \<and> cnr_inv k l (es @ batch_entries ops idx) \<and> ltails l = ltails (ls ! h)"
proof -
  obtain md where md: "notify_lagging (snd (tail_won (env n))) idx (ls ! h) = (ls ! h)\<lparr>log_metadata := md\<rparr>" using notify_frame by blast
  let ?l = "update_entries (tail (ls ! h)) ops idx ((ls ! h)\<lparr>log_metadata := md, tail := tail (ls ! h) + length ops\<rparr>)"
  have "cnr_append (Suc n) (\<lambda>i. tail_won (env i)) (log_at h) ops idx d (ls, r) = Inr (ls[h := ?l], r)"
    using assms(1-3) by (simp add: log_at_def md Let_def)
  moreover have "cnr_append (Suc n) (\<lambda>i. tail_won (env i)) own_log ops idx (beside (\<lambda>_ _ _ _ _ _ s. Inr (True, s))) (ls ! h, ()) = Inr (?l, ())"
    using assms(2,3) by (simp add: own_log_def md Let_def)
  from cnr_append_inv [OF assms(4-7) this] have "cnr_inv k ?l (es @ batch_entries ops idx)" .
  moreover have "ltails (update_entries p xs i x) = ltails x" for p xs i and x :: "'a cnr_log"
    by (induction p xs i x rule: update_entries.induct) simp_all
  ultimately show ?thesis by (intro exI [of _ ?l]) simp
qed

text \<open>A round for one pending operation: the replica runs what it has not seen of the log, then the operation, and stores its answer.\<close>

lemma combine_one:
  assumes sys: "cnr_sys k hs (ls, r)" and h: "h < length hs" and tid: "1 \<le> tid" "tid < c_next r"
    and flags: "ls_pending (logstate r ! h) = (replicate MAX_THREADS_PER_REPLICA False)[tid - 1 := True]"
    and items: "context_items (c_contexts r ! (tid - 1)) = Inr [(oper, h, False, False)]"
    and plain: "\<forall>e\<in>set (unseen h hs (ls, r)). snd (snd e) = None \<and> fst (snd e) \<noteq> token_of h (ls, r)"
    and won: "flag_won (env (Suc n)) tid" "fst (tail_won (env n))"
    and room: "tail (ls ! h) + 1 \<le> head (ls ! h) + length (slog (ls ! h)) - GC_FROM_HEAD"
    and ops: "run_ops D (map (fst \<circ> fst) (unseen h hs (ls, r))) (c_data r) = Inr (qs, d1)" "dispatch_mut D oper d1 = Inr (resp, d2)"
  shows "\<exists>l. cnr_combine (Suc n) env D hash cl tid h (ls, r) = Inr (ls[h := l], r\<lparr>
      logstate := (logstate r)[h := (logstate r ! h)\<lparr>ls_pending := replicate MAX_THREADS_PER_REPLICA False\<rparr>], c_data := d2,
      c_contexts := (c_contexts r)[tid - 1 := context_enqueue_resp resp (c_contexts r ! (tid - 1))]\<rparr>)
    \<and> cnr_inv k l (hs ! h @ [((oper, tid, False), token_of h (ls, r), None)]) \<and> ltails l ! (token_of h (ls, r) - 1) = tail l"
proof -
  let ?idx = "token_of h (ls, r)" and ?es = "hs ! h" and ?new = "((oper, tid, False), token_of h (ls, r), None)"
  let ?r = "r\<lparr>logstate := (logstate r)[h := (logstate r ! h)\<lparr>ls_pending := replicate MAX_THREADS_PER_REPLICA False\<rparr>]\<rparr>"
  let ?r' = "?r\<lparr>c_data := d2, c_contexts := (c_contexts r)[tid - 1 := context_enqueue_resp resp (c_contexts r ! (tid - 1))]\<rparr>"
  from sys h have S: "cnr_inv k (ls ! h) ?es" "1 \<le> ?idx" "?idx \<le> k" "h < length ls" "h < length (logstate r)"
    "c_next r \<le> MAX_THREADS_PER_REPLICA + 1" "tid - 1 < length (c_contexts r)" using tid by (auto simp: cnr_sys_def)
  have collect: "cnr_collect (flag_won (env (Suc n))) h [1..<c_next r] [] [] (ls, r) = Inr ([(oper, tid, False)], [], ls, ?r)"
    using collect_one [OF tid, of "flag_won (env (Suc n))" h "(ls, r)" oper False False] won(1) S(5-7) flags items by (simp add: set_logstate_def)
  have gc: "length [(oper, tid, False)] \<le> GC_FROM_HEAD" by (simp add: GC_FROM_HEAD_def MAX_PENDING_OPS_def MAX_THREADS_PER_REPLICA_def)
  have "tail (ls ! h) + length [(oper, tid, False)] \<le> head (ls ! h) + length (slog (ls ! h)) - GC_FROM_HEAD" using room by (simp add: One_nat_def)
  from append_at [where env = env and n = n, OF S(4) won(2) this S(1-3) gc, of "cnr_apply D cl h" ?r, unfolded batch_entries_def list.map]
  obtain l where l: "cnr_append (Suc n) (\<lambda>i. tail_won (env i)) (log_at h) [(oper, tid, False)] ?idx (cnr_apply D cl h) (ls, ?r) = Inr (ls[h := l], ?r)"
      "cnr_inv k l (?es @ [?new])" "ltails l = ltails (ls ! h)" by blast
  have un: "drop (ltails l ! (?idx - 1)) (?es @ [?new]) = unseen h hs (ls, r) @ [?new]"
    using cnr_tailsD(2) [OF S(1), of "?idx - 1"] cnr_invD(4) [OF S(1)] S(2,3) by (simp add: unseen_def l(3))
  have tok: "ls_idx (logstate ?r ! h) = ?idx" "c_data ?r = c_data r" using S(5) by (simp_all add: token_of_def)
  have step: "rep_step D h oper ?idx tid False False None (?r\<lparr>c_data := d1\<rparr>) = Inr (True, ?r')"
    using ops(2) tok tid S(7) by (simp add: rep_step_def)
  have replay: "creplay (rep_step D h) (drop (ltails l ! (?idx - 1)) (?es @ [?new])) ?r = Inr (True, length (unseen h hs (ls, r)) + 1, ?r')"
  proof -
    have "creplay (rep_step D h) (unseen h hs (ls, r)) ?r = Inr (True, length (unseen h hs (ls, r)), ?r\<lparr>c_data := d1\<rparr>)"
      by (rule creplay_foreign) (use ops(1) plain tok in auto)
    from creplay_append [OF this, of "[?new]"] step show ?thesis unfolding un by simp
  qed
  from cnr_exec_replay [OF l(2) S(2,3), of "rep_step D h" ?r, unfolded replay]
  obtain l' where l': "cnr_exec own_log ?idx (beside (rep_step D h)) (l, ?r) = Inr (l', ?r')" "cnr_inv k l' (?es @ [?new])"
      "ltails l' = (ltails l)[?idx - 1 := tail l]" "tail l' = tail l" by auto
  have here: "ls[h := l] ! h = l" "h < length (ls[h := l])" using S(4) by simp_all
  have "\<forall>e\<in>set (drop (ltails (ls[h := l] ! h) ! (?idx - 1)) (?es @ [?new])). snd (snd e) = None"
    unfolding here(1) un using plain by auto
  moreover have "cnr_inv k (ls[h := l] ! h) (?es @ [?new])" unfolding here(1) by (rule l(2))
  moreover note exec_at [OF this here(2) S(2,3), of D cl ?r]
  ultimately have "cnr_exec (log_at h) ?idx (cnr_apply D cl h) (ls[h := l], ?r) = Inr (ls[h := l'], ?r')" unfolding here(1) l'(1) by simp
  moreover have "token_of h (ls, ?r) = ?idx" "token_of h (ls[h := l], ?r) = ?idx" using tok by (simp_all add: token_of_def)
  ultimately have "cnr_combine (Suc n) env D hash cl tid h (ls, r) = Inr (ls[h := l'], ?r')"
    using collect l(1) by (simp add: cnr_combine_def del: cnr_append.simps)
  moreover have "ltails l' ! (?idx - 1) = tail l'" using l'(3,4) cnr_inv_lengths(3,4) [OF l(2)] S(2,3) by simp
  ultimately show ?thesis using l'(2) by (intro exI [of _ l']) simp
qed

text \<open>A round with nothing pending: the replica runs what it has not seen of the log.\<close>

lemma combine_idle:
  assumes sys: "cnr_sys k hs (ls, r)" and h: "h < length hs" and flags: "ls_pending (logstate r ! h) = replicate MAX_THREADS_PER_REPLICA False"
    and won: "fst (tail_won (env n))" and room: "tail (ls ! h) \<le> head (ls ! h) + length (slog (ls ! h)) - GC_FROM_HEAD"
  shows "\<exists>l. cnr_combine (Suc n) env D hash cl tid h (ls, r) = cnr_exec (log_at h) (token_of h (ls, r)) (cnr_apply D cl h) (ls[h := l], r)
    \<and> cnr_inv k l (hs ! h) \<and> ltails l = ltails (ls ! h)"
proof -
  let ?idx = "token_of h (ls, r)"
  from sys h have S: "cnr_inv k (ls ! h) (hs ! h)" "1 \<le> ?idx" "?idx \<le> k" "h < length ls" "c_next r \<le> MAX_THREADS_PER_REPLICA + 1" by (auto simp: cnr_sys_def)
  have "\<forall>t\<in>set [1..<c_next r]. \<not> ls_pending (logstate (snd (ls, r)) ! h) ! (t - 1)" using S(5) by (auto simp: flags)
  from collect_skip [OF this, of "flag_won (env (Suc n))" "[]"]
  have collect: "cnr_collect (flag_won (env (Suc n))) h [1..<c_next r] [] [] (ls, r) = Inr ([], [], ls, r)" by simp
  have "tail (ls ! h) + length [] \<le> head (ls ! h) + length (slog (ls ! h)) - GC_FROM_HEAD" "length [] \<le> GC_FROM_HEAD" using room by simp_all
  from append_at [where env = env and n = n, OF S(4) won this(1) S(1-3) this(2), of "cnr_apply D cl h" r]
  obtain l where l: "cnr_append (Suc n) (\<lambda>i. tail_won (env i)) (log_at h) [] ?idx (cnr_apply D cl h) (ls, r) = Inr (ls[h := l], r)"
      "cnr_inv k l (hs ! h)" "ltails l = ltails (ls ! h)" by (auto simp: batch_entries_def)
  moreover have "token_of h (ls[h := l], r) = ?idx" by (simp add: token_of_def)
  ultimately show ?thesis using collect by (intro exI [of _ l]) (simp add: cnr_combine_def del: cnr_append.simps)
qed

lemma combine_none:
  assumes sys: "cnr_sys k hs (ls, r)" and h: "h < length hs" and flags: "ls_pending (logstate r ! h) = replicate MAX_THREADS_PER_REPLICA False"
    and plain: "\<forall>e\<in>set (unseen h hs (ls, r)). snd (snd e) = None \<and> fst (snd e) \<noteq> token_of h (ls, r)" and won: "fst (tail_won (env n))"
    and room: "tail (ls ! h) \<le> head (ls ! h) + length (slog (ls ! h)) - GC_FROM_HEAD"
    and ops: "run_ops D (map (fst \<circ> fst) (unseen h hs (ls, r))) (c_data r) = Inr (qs, d)"
  shows "\<exists>l. cnr_combine (Suc n) env D hash cl tid h (ls, r) = Inr (ls[h := l], r\<lparr>c_data := d\<rparr>)
    \<and> cnr_inv k l (hs ! h) \<and> ltails l ! (token_of h (ls, r) - 1) = tail l"
proof -
  let ?idx = "token_of h (ls, r)" and ?es = "hs ! h" and ?r' = "r\<lparr>c_data := d\<rparr>"
  from sys h have S: "1 \<le> ?idx" "?idx \<le> k" "h < length ls" by (auto simp: cnr_sys_def)
  from combine_idle [where env = env and n = n, OF sys h flags won room, of D hash cl tid]
  obtain l where l: "cnr_combine (Suc n) env D hash cl tid h (ls, r) = cnr_exec (log_at h) ?idx (cnr_apply D cl h) (ls[h := l], r)"
    "cnr_inv k l ?es" "ltails l = ltails (ls ! h)" by blast
  have un: "drop (ltails l ! (?idx - 1)) ?es = unseen h hs (ls, r)" by (simp add: unseen_def l(3))
  have "creplay (rep_step D h) (drop (ltails l ! (?idx - 1)) ?es) r = Inr (True, length (unseen h hs (ls, r)), ?r')"
    unfolding un by (rule creplay_foreign [OF ops]) (use plain in \<open>auto simp: token_of_def\<close>)
  from cnr_exec_replay [OF l(2) S(1,2), of "rep_step D h" r, unfolded this]
  obtain l' where l': "cnr_exec own_log ?idx (beside (rep_step D h)) (l, r) = Inr (l', ?r')" "cnr_inv k l' ?es"
      "ltails l' = (ltails l)[?idx - 1 := tail l]" "tail l' = tail l" by auto
  have here: "ls[h := l] ! h = l" "h < length (ls[h := l])" using S(3) by simp_all
  have "\<forall>e\<in>set (drop (ltails (ls[h := l] ! h) ! (?idx - 1)) ?es). snd (snd e) = None" unfolding here(1) un using plain by auto
  moreover have "cnr_inv k (ls[h := l] ! h) ?es" unfolding here(1) by (rule l(2))
  moreover note exec_at [OF this here(2) S(1,2), of D cl r]
  ultimately have "cnr_exec (log_at h) ?idx (cnr_apply D cl h) (ls[h := l], r) = Inr (ls[h := l'], ?r')" unfolding here(1) l'(1) by simp
  moreover have "ltails l' ! (?idx - 1) = tail l'" using l'(3,4) cnr_inv_lengths(3,4) [OF l(2)] S(1,2) by simp
  ultimately show ?thesis using l(1) l'(2) by auto
qed

lemma update_order:
  "s\<lparr>ls_pending := a, ls_combiner := b\<rparr> = s\<lparr>ls_combiner := b, ls_pending := a\<rparr>" "r\<lparr>c_contexts := c, logstate := d\<rparr> = r\<lparr>logstate := d, c_contexts := c\<rparr>"
  "r\<lparr>c_data := e, logstate := d\<rparr> = r\<lparr>logstate := d, c_data := e\<rparr>"
  by (cases s; simp) (cases r; simp)+

lemma cnr_sys_update:
  assumes "cnr_sys k hs (ls, r)" "h < length hs" "cnr_inv k l es" "ls_idx s = ls_idx (logstate r ! h)"
    "length (ls_pending s) = MAX_THREADS_PER_REPLICA" "length cs = MAX_THREADS_PER_REPLICA"
  shows "cnr_sys k (hs[h := es]) (ls[h := l], r\<lparr>logstate := (logstate r)[h := s], c_data := d, c_contexts := cs\<rparr>)"
  using assms by (auto simp: cnr_sys_def token_of_def nth_list_update)

lemma cnr_quiet_update:
  assumes "cnr_quiet (ls, r)" "ls_combiner s = 0" "ls_pending s = replicate MAX_THREADS_PER_REPLICA False" "idle_context c"
  shows "cnr_quiet (ls', r\<lparr>logstate := (logstate r)[h := s], c_data := d, c_contexts := (c_contexts r)[i := c]\<rparr>)"
  using assms unfolding cnr_quiet_def by (auto dest!: set_update_subset_insert [THEN subsetD])

text \<open>The call around the round: announcing the operation, the combiner lock, and fetching the answer.\<close>

lemma call_round:
  fixes r tid h defines "i \<equiv> tid - 1" and "s \<equiv> logstate r ! h"
  assumes "h < length (logstate r)" "1 \<le> tid" "i < length (c_contexts r)" "ls_combiner s = 0" "lock_won (env (n + 1))"
    and c: "context_enqueue oper (h, sc, ro) (c_contexts r ! i) = (True, c1)" "context_res (context_enqueue_resp resp c1) = Inr (Some resp, c2)"
    and round: "cnr_combine (Suc n) env D hash (cnr_try_combine (Suc n) env D hash tid) tid h
      (ls, r\<lparr>logstate := (logstate r)[h := s\<lparr>ls_combiner := tid, ls_pending := (ls_pending s)[i := True]\<rparr>], c_contexts := (c_contexts r)[i := c1]\<rparr>) =
      Inr (ls', r\<lparr>logstate := (logstate r)[h := s\<lparr>ls_combiner := tid, ls_pending := p\<rparr>], c_data := d,
        c_contexts := (c_contexts r)[i := context_enqueue_resp resp c1]\<rparr>)"
  shows "bind_run (cnr_make_pending oper tid h sc ro (ls, r)) (\<lambda>st1. bind_run (cnr_try_combine (n + 2) env D hash tid h st1) (\<lambda>st2.
      cnr_get_response (n + 2) env D hash tid h st2)) =
    Inr (resp, ls', r\<lparr>logstate := (logstate r)[h := s\<lparr>ls_combiner := 0, ls_pending := p\<rparr>], c_data := d, c_contexts := (c_contexts r)[i := c2]\<rparr>)"
proof -
  let ?r1 = "r\<lparr>logstate := (logstate r)[h := s\<lparr>ls_pending := (ls_pending s)[i := True]\<rparr>], c_contexts := (c_contexts r)[i := c1]\<rparr>"
  let ?r2 = "r\<lparr>logstate := (logstate r)[h := s\<lparr>ls_combiner := 0, ls_pending := p\<rparr>], c_data := d, c_contexts := (c_contexts r)[i := context_enqueue_resp resp c1]\<rparr>"
  have "cnr_make_pending oper tid h sc ro (ls, r) = Inr (ls, ?r1)"
    using assms by (simp add: cnr_make_pending_def set_logstate_def update_order)
  moreover have "set_logstate h (\<lambda>s. s\<lparr>ls_combiner := tid\<rparr>) (ls, ?r1) =
      (ls, r\<lparr>logstate := (logstate r)[h := s\<lparr>ls_combiner := tid, ls_pending := (ls_pending s)[i := True]\<rparr>], c_contexts := (c_contexts r)[i := c1]\<rparr>)"
    using assms by (simp add: set_logstate_def update_order)
  with round assms have "cnr_try_combine (Suc (Suc n)) env D hash tid h (ls, ?r1) = Inr (ls', ?r2)"
    by (simp add: set_logstate_def [of h "\<lambda>s. s\<lparr>ls_combiner := 0\<rparr>"] update_order One_nat_def)
  moreover have "cnr_get_response (Suc (Suc n)) env D hash tid h (ls', ?r2) =
      Inr (resp, ls', r\<lparr>logstate := (logstate r)[h := s\<lparr>ls_combiner := 0, ls_pending := p\<rparr>], c_data := d, c_contexts := (c_contexts r)[i := c2]\<rparr>)"
    using assms by simp
  ultimately show ?thesis
    using assms by (simp add: numeral_2_eq_2 del: cnr_try_combine.simps cnr_get_response.simps)
qed

text \<open>The state in which the combiner of the call starts its round, and what the contexts give afterwards.\<close>

lemma call_start:
  fixes r tid h defines "i \<equiv> tid - 1" and "s \<equiv> logstate r ! h"
  assumes sys: "cnr_sys k hs (ls, r)" and quiet: "cnr_quiet (ls, r)" and h: "h < length hs" and tid: "1 \<le> tid" "tid < c_next r"
  shows "\<exists>c1 c2. context_enqueue oper (h, sc, ro) (c_contexts r ! i) = (True, c1) \<and> context_items c1 = Inr [(oper, h, sc, ro)]
      \<and> context_res (context_enqueue_resp resp c1) = Inr (Some resp, c2) \<and> idle_context c2
      \<and> cnr_sys k hs (ls, r\<lparr>logstate := (logstate r)[h := s\<lparr>ls_combiner := tid, ls_pending := (ls_pending s)[i := True]\<rparr>], c_contexts := (c_contexts r)[i := c1]\<rparr>)"
    and "length (logstate r) = length hs" "h < length ls" "i < length (c_contexts r)" "length (c_contexts r) = MAX_THREADS_PER_REPLICA"
    and "ls_combiner s = 0" "ls_pending s = replicate MAX_THREADS_PER_REPLICA False"
proof -
  show len: "length (logstate r) = length hs" "h < length ls" "i < length (c_contexts r)" "length (c_contexts r) = MAX_THREADS_PER_REPLICA"
    using sys tid h by (auto simp: cnr_sys_def i_def)
  show q: "ls_combiner s = 0" "ls_pending s = replicate MAX_THREADS_PER_REPLICA False" using quiet len h by (auto simp: cnr_quiet_def s_def)
  have "idle_context (c_contexts r ! i)" using quiet len by (auto simp: cnr_quiet_def)
  then obtain c1 c2 where c: "context_enqueue oper (h, sc, ro) (c_contexts r ! i) = (True, c1)" "context_items c1 = Inr [(oper, h, sc, ro)]"
      "context_res (context_enqueue_resp resp c1) = Inr (Some resp, c2)" "idle_context c2"
    using cb.call_slot [where c = "c_contexts r ! i" and p = "(oper, h, sc, ro)" and r = resp] by (auto simp: idle_context_def MAX_PENDING_OPS_def)
  have "cnr_inv k (ls ! h) (hs ! h)" using sys h by (simp add: cnr_sys_def)
  from cnr_sys_update [OF sys h this, of "s\<lparr>ls_combiner := tid, ls_pending := (ls_pending s)[i := True]\<rparr>" "(c_contexts r)[i := c1]" "c_data r"] q(2) len(4)
  have "cnr_sys k hs (ls, r\<lparr>logstate := (logstate r)[h := s\<lparr>ls_combiner := tid, ls_pending := (ls_pending s)[i := True]\<rparr>], c_contexts := (c_contexts r)[i := c1]\<rparr>)"
    by (simp add: s_def)
  with c show "\<exists>c1 c2. context_enqueue oper (h, sc, ro) (c_contexts r ! i) = (True, c1) \<and> context_items c1 = Inr [(oper, h, sc, ro)]
      \<and> context_res (context_enqueue_resp resp c1) = Inr (Some resp, c2) \<and> idle_context c2
      \<and> cnr_sys k hs (ls, r\<lparr>logstate := (logstate r)[h := s\<lparr>ls_combiner := tid, ls_pending := (ls_pending s)[i := True]\<rparr>], c_contexts := (c_contexts r)[i := c1]\<rparr>)"
    by blast
qed

section \<open>Correctness of \<open>execute_mut\<close>\<close>


text \<open>
  Two logs and two replicas; this is the second replica, with one thread. The first log holds a write
  of the other replica that this one has not seen.
\<close>

definition sum_dispatcher :: "(nat, unit, nat, nat) dispatcher" where
  "sum_dispatcher = \<lparr>dispatch = (\<lambda>d _. Inr d), dispatch_mut = (\<lambda>oper d. Inr (d + oper, d + oper)), cn_idx = (\<lambda>_. -1), resp_eq = (=)\<rparr>"

definition cnr_pair :: "(nat, nat, nat) cnr_state" where
  "cnr_pair = ([cnr_one, cnr_fresh 2 0 2],
     \<lparr>c_next = 2, c_data = 5, c_contexts = map (\<lambda>idx. context_new (0, False, False) (idx + 1)) [0..<MAX_THREADS_PER_REPLICA],
      logstate = replicate 2 \<lparr>ls_idx = 2, ls_combiner = 0, ls_pending = replicate MAX_THREADS_PER_REPLICA False\<rparr>\<rparr>)"

lemma cnr_pair_state:
  "cnr_sys 2 [[((7, 1, False), 1, None)], []] cnr_pair" "cnr_quiet cnr_pair" "token_of 0 cnr_pair = 2"
  "unseen 0 [[((7, 1, False), 1, None)], []] cnr_pair = [((7, 1, False), 1, None)]"
proof -
  have "cnr_inv 2 (cnr_fresh 2 0 2 :: nat cnr_log) []" by (rule cnr_fresh_inv) (simp_all add: MAX_REPLICAS_PER_LOG_def)
  then show "cnr_sys 2 [[((7, 1, False), 1, None)], []] cnr_pair" using cnr_one_inv(1)
    by (auto simp: cnr_sys_def cnr_pair_def token_of_def less_2_cases_iff MAX_THREADS_PER_REPLICA_def numeral_2_eq_2 less_Suc_eq)
  show "cnr_quiet cnr_pair" by (auto simp: cnr_quiet_def cnr_pair_def idle_context_def context_new_inv)
  show "token_of 0 cnr_pair = 2" by (simp add: token_of_def cnr_pair_def)
  then show "unseen 0 [[((7, 1, False), 1, None)], []] cnr_pair = [((7, 1, False), 1, None)]"
    using cnr_one_inv(2) by (simp add: unseen_def) (simp add: cnr_pair_def One_nat_def)
qed


section \<open>Correctness of \<open>execute\<close>\<close>

text \<open>The combiner lock around a round that changes only the logs and the data.\<close>

lemma try_combine_round:
  fixes r h tid defines "r1 \<equiv> r\<lparr>logstate := (logstate r)[h := (logstate r ! h)\<lparr>ls_combiner := tid\<rparr>]\<rparr>"
  assumes h: "h < length (logstate r)" "ls_combiner (logstate r ! h) = 0" and won: "lock_won (env (n + 1))"
    and round: "cnr_combine (Suc n) env D hash (cnr_try_combine (Suc n) env D hash tid) tid h (ls, r1) = Inr (ls', r1\<lparr>c_data := d\<rparr>)"
  shows "cnr_try_combine (n + 2) env D hash tid h (ls, r) = Inr (ls', r\<lparr>c_data := d\<rparr>)"
proof -
  have "(logstate r)[h := (logstate r ! h)\<lparr>ls_combiner := 0\<rparr>] = logstate r" using h(2) list_update_id [of "logstate r" h] by (cases "logstate r ! h") simp
  then have "set_logstate h (\<lambda>s. s\<lparr>ls_combiner := 0\<rparr>) (ls', r1\<lparr>c_data := d\<rparr>) = (ls', r\<lparr>c_data := d\<rparr>)"
    using h by (simp add: set_logstate_def r1_def)
  moreover have "set_logstate h (\<lambda>s. s\<lparr>ls_combiner := tid\<rparr>) (ls, r) = (ls, r1)" by (simp add: set_logstate_def r1_def)
  ultimately show ?thesis using round h won by (simp add: numeral_2_eq_2 One_nat_def)
qed

lemma held_lock:
  assumes "cnr_sys k hs (ls, r)" "h < length hs"
  shows "cnr_sys k hs (ls, r\<lparr>logstate := (logstate r)[h := (logstate r ! h)\<lparr>ls_combiner := tid\<rparr>]\<rparr>)"
    "token_of i (ls', r\<lparr>logstate := (logstate r)[h := (logstate r ! h)\<lparr>ls_combiner := tid\<rparr>]\<rparr>) = token_of i (ls', r)"
proof -
  show tok: "token_of i (ls', r\<lparr>logstate := (logstate r)[h := (logstate r ! h)\<lparr>ls_combiner := tid\<rparr>]\<rparr>) = token_of i (ls', r)" for i ls'
    by (cases "i = h"; cases "h < length (logstate r)") (simp_all add: token_of_def list_update_beyond)
  show "cnr_sys k hs (ls, r\<lparr>logstate := (logstate r)[h := (logstate r ! h)\<lparr>ls_combiner := tid\<rparr>]\<rparr>)"
    using assms unfolding cnr_sys_def tok by (auto simp: nth_list_update)
qed

lemma try_combine_none:
  assumes sys: "cnr_sys k hs (ls, r)" and h: "h < length hs" and quiet: "cnr_quiet (ls, r)"
    and plain: "\<forall>e\<in>set (unseen h hs (ls, r)). snd (snd e) = None \<and> fst (snd e) \<noteq> token_of h (ls, r)"
    and won: "lock_won (env (n + 1))" "fst (tail_won (env n))"
    and room: "tail (ls ! h) \<le> head (ls ! h) + length (slog (ls ! h)) - GC_FROM_HEAD"
    and ops: "run_ops D (map (fst \<circ> fst) (unseen h hs (ls, r))) (c_data r) = Inr (qs, d)"
  shows "\<exists>l. cnr_try_combine (n + 2) env D hash tid h (ls, r) = Inr (ls[h := l], r\<lparr>c_data := d\<rparr>)
    \<and> cnr_inv k l (hs ! h) \<and> ltails l ! (token_of h (ls, r) - 1) = tail l"
proof -
  let ?r = "r\<lparr>logstate := (logstate r)[h := (logstate r ! h)\<lparr>ls_combiner := tid\<rparr>]\<rparr>"
  have len: "h < length (logstate r)" using sys h by (simp add: cnr_sys_def)
  then have q: "ls_combiner (logstate r ! h) = 0" "ls_pending (logstate r ! h) = replicate MAX_THREADS_PER_REPLICA False" using quiet by (auto simp: cnr_quiet_def)
  have same: "token_of h (ls, ?r) = token_of h (ls, r)" "unseen h hs (ls, ?r) = unseen h hs (ls, r)" "c_data ?r = c_data r"
    by (simp_all add: unseen_def held_lock(2) [OF sys h])
  have flags: "ls_pending (logstate ?r ! h) = replicate MAX_THREADS_PER_REPLICA False" using len q by simp
  from combine_none [where env = env and n = n and hash = hash and cl = "cnr_try_combine (Suc n) env D hash tid" and tid = tid,
      OF held_lock(1) [OF sys h] h flags plain [folded same] won(2) room ops [folded same]]
  obtain l where l: "cnr_combine (Suc n) env D hash (cnr_try_combine (Suc n) env D hash tid) tid h (ls, ?r) = Inr (ls[h := l], ?r\<lparr>c_data := d\<rparr>)"
    "cnr_inv k l (hs ! h)" "ltails l ! (token_of h (ls, r) - 1) = tail l" unfolding same by blast
  from try_combine_round [where env = env and n = n, OF len q(1) won(1) l(1)] l(2,3) show ?thesis by blast
qed


text \<open>The same two logs once the other replica has completed its write.\<close>

definition cnr_behind :: "(nat, nat, nat) cnr_state" where
  "cnr_behind = (let (ls, r) = cnr_pair in (ls[0 := cnr_one\<lparr>ctail := 1\<rparr>], r))"

lemma cnr_behind_state:
  "cnr_sys 2 [[((7, 1, False), 1, None)], []] cnr_behind" "cnr_quiet cnr_behind" "token_of 0 cnr_behind = 2"
  "unseen 0 [[((7, 1, False), 1, None)], []] cnr_behind = [((7, 1, False), 1, None)]" "\<not> synced 0 1 cnr_behind"
proof -
  have parts: "cnr_behind = ((fst cnr_pair)[0 := cnr_one\<lparr>ctail := 1\<rparr>], snd cnr_pair)" "fst cnr_pair ! 0 = cnr_one" "length (fst cnr_pair) = 2"
    by (simp_all add: cnr_behind_def cnr_pair_def)
  have same: "token_of i cnr_behind = token_of i cnr_pair" for i by (simp add: token_of_def parts(1))
  have "cnr_inv 2 (cnr_one\<lparr>ctail := 1\<rparr>) [((7, 1, False), 1, None)]"
    using cnr_one_inv(1) by (simp add: cnr_inv_def log_wf_def cnr_content_def readers_def cnr_alive_def cnr_tails_def)
  then show "cnr_sys 2 [[((7, 1, False), 1, None)], []] cnr_behind"
    using cnr_pair_state(1) parts(3) unfolding cnr_sys_def same by (auto simp: parts(1) nth_list_update)
  show "cnr_quiet cnr_behind" using cnr_pair_state(2) by (simp add: cnr_quiet_def parts(1))
  show tok: "token_of 0 cnr_behind = 2" using same cnr_pair_state(3) by simp
  show "unseen 0 [[((7, 1, False), 1, None)], []] cnr_behind = [((7, 1, False), 1, None)]" "\<not> synced 0 1 cnr_behind"
    using cnr_one_inv(2) parts(3) by (simp_all add: unseen_def synced_def is_replica_synced_for_reads_def tok) (simp_all add: parts(1) One_nat_def)
qed


end
