(* ===== verification/Cnr_Scan.thy ===== *)
theory Cnr_Scan
  imports Cnr_Replica
begin

text \<open>
  Scans of the multi-log variant, \<open>execute_mut_scan\<close> of \<open>cnr/replica.rs\<close>: an operation that is entered into every
  log. The entry in the first log, the root, names the positions of the entries in all logs; the
  entries in the other logs, the leaves, name the position in the root. The replica runs the scan when
  it meets the entry in the root, after it has executed every leaf up to the scan.
\<close>

declare cnr_try_combine.simps [simp del]

section \<open>Executing a log that ends with a scan\<close>

text \<open>Lists of entries that are writes of other replicas.\<close>

definition foreign :: "nat \<Rightarrow> 'op cnr_entry list \<Rightarrow> bool" where
  "foreign idx es \<longleftrightarrow> list_all (\<lambda>e. snd (snd e) = None \<and> fst (snd e) \<noteq> idx) es"

lemma exec_prefix:
  assumes inv: "cnr_inv k (ls ! h) (es @ fs)" and h: "h < length ls" and idx: "idx = token_of h (ls, r)" "1 \<le> idx" "idx \<le> k"
    and lt: "ltails (ls ! h) ! (idx - 1) \<le> length es" and es: "foreign idx (drop (ltails (ls ! h) ! (idx - 1)) es)"
    and ops: "run_ops D (map (fst \<circ> fst) (drop (ltails (ls ! h) ! (idx - 1)) es)) (c_data r) = Inr (qs, d)"
  shows "\<exists>l. cnr_exec_loop (log_at h) idx (cnr_apply D cl h) [ltails (ls ! h) ! (idx - 1)..<length es] (ls, r) = Inr (True, ls[h := l], r\<lparr>c_data := d\<rparr>)
    \<and> cnr_inv k l (es @ fs) \<and> ltails l ! (idx - 1) = length es \<and> tail l = tail (ls ! h) \<and> head l = head (ls ! h)"
proof -
  let ?l = "ls ! h" and ?lt = "ltails (ls ! h) ! (idx - 1)"
  have len: "length es \<le> tail ?l" using cnr_invD(4) [OF inv] by simp
  have cut: "take (length es - ?lt) (drop ?lt (es @ fs)) = drop ?lt es" using lt by simp
  have "creplay (rep_step D h) (drop ?lt es) r = Inr (True, length (drop ?lt es), r\<lparr>c_data := d\<rparr>)"
    by (rule creplay_foreign [OF ops]) (use es idx in \<open>auto simp: foreign_def list_all_iff token_of_def\<close>)
  with cnr_loop_replay [OF inv idx(2,3) lt len, of "rep_step D h" r, unfolded cut] lt
  obtain l where l: "cnr_exec_loop own_log idx (beside (rep_step D h)) [?lt..<length es] (?l, r) = Inr (True, l, r\<lparr>c_data := d\<rparr>)"
    "cnr_inv k l (es @ fs)" "ltails l = (ltails ?l)[idx - 1 := length es]" "tail l = tail ?l" "head l = head ?l" by auto
  have "\<not> is_scan (metadata (slog ?l ! index ?l i))" if "i \<in> set [?lt..<length es]" for i
  proof -
    have i: "?lt \<le> i" "i < tail ?l" "i < length es" using that len by auto
    obtain n where "shows_entry n (slog ?l ! index ?l i) ((es @ fs) ! i)" using unread_entry(1) [OF inv idx(2,3) i(1,2)] by blast
    moreover have "es ! i \<in> set (drop ?lt es)" using i by (auto simp: in_set_conv_nth intro!: exI [of _ "i - ?lt"])
    ultimately show ?thesis using es i(3) by (auto simp: shows_entry_def foreign_def list_all_iff nth_append split: prod.splits)
  qed
  then have "cnr_exec_loop (log_at h) idx (cnr_apply D cl h) [?lt..<length es] (ls, r) = Inr (True, ls[h := l], r\<lparr>c_data := d\<rparr>)"
    using exec_loop_at [OF h, of "[?lt..<length es]" idx D cl r] l(1) by simp
  moreover have "ltails l ! (idx - 1) = length es" using l(3) idx cnr_inv_lengths(3,4) [OF inv] by simp
  ultimately show ?thesis using l by blast
qed

text \<open>
  A log whose last entry is a scan: \<open>Q\<close> is what the run of the scan establishes. The run may change the
  other logs but not the one it was called from.
\<close>

lemma exec_scan_last:
  fixes o1 tid ro rid deps es defines "x \<equiv> ((o1, tid, ro), rid, Some deps)"
  assumes inv: "cnr_inv k (ls ! h) (es @ [x])" and h: "h < length ls" and idx: "idx = token_of h (ls, r)" "1 \<le> idx" "idx \<le> k"
    and lt: "ltails (ls ! h) ! (idx - 1) \<le> length es" and es: "foreign idx (drop (ltails (ls ! h) ! (idx - 1)) es)"
    and ops: "run_ops D (map (fst \<circ> fst) (drop (ltails (ls ! h) ! (idx - 1)) es)) (c_data r) = Inr (qs, d)"
    and scan: "\<And>l1. cnr_inv k l1 (es @ [x]) \<Longrightarrow> ltails l1 ! (idx - 1) = length es \<Longrightarrow>
      \<exists>ls' r2. cnr_apply D cl h o1 rid tid True ro (Some deps) (ls[h := l1], r\<lparr>c_data := d\<rparr>) = Inr (True, ls', r2)
        \<and> ls' ! h = l1 \<and> length ls' = length ls \<and> Q ls' r2"
  shows "\<exists>ls' l r2. cnr_exec (log_at h) idx (cnr_apply D cl h) (ls, r) = Inr (ls'[h := l], r2) \<and> Q ls' r2 \<and> length ls' = length ls
    \<and> cnr_inv k l (es @ [x]) \<and> ltails l ! (idx - 1) = tail l"
proof -
  let ?l = "ls ! h" and ?j = "idx - 1" and ?n = "length es"
  have j: "?j < k" "?j < length (ltails ?l)" "idx \<noteq> 0" using idx cnr_inv_lengths(3,4) [OF inv] by auto
  have tl: "tail ?l = ?n + 1" using cnr_invD(4) [OF inv] by simp
  from exec_prefix [OF inv h idx lt es ops, of cl] obtain l1 where
    pre: "cnr_exec_loop (log_at h) idx (cnr_apply D cl h) [ltails ?l ! ?j..<?n] (ls, r) = Inr (True, ls[h := l1], r\<lparr>c_data := d\<rparr>)"
    and l1: "cnr_inv k l1 (es @ [x])" "ltails l1 ! ?j = ?n" "tail l1 = tail ?l" by blast
  from scan [OF l1(1,2)] obtain ls' r2 where
    run: "cnr_apply D cl h o1 rid tid True ro (Some deps) (ls[h := l1], r\<lparr>c_data := d\<rparr>) = Inr (True, ls', r2)"
    and ls': "ls' ! h = l1" "length ls' = length ls" "Q ls' r2" by blast
  have here: "ltails l1 ! ?j \<le> ?n" "?n < tail l1" using l1(2,3) tl by simp_all
  obtain c where "shows_entry c (slog l1 ! index l1 ?n) ((es @ [x]) ! ?n)" using unread_entry(1) [OF l1(1) idx(2,3) here] by blast
  moreover have "alivef (slog l1 ! index l1 ?n) = lmasks l1 ! ?j" by (rule unread_entry(2) [OF l1(1) idx(2,3) here]) (simp add: l1(2))
  ultimately have e: "operation (slog l1 ! index l1 ?n) = Some o1" "replica (slog l1 ! index l1 ?n) = rid"
    "metadata (slog l1 ! index l1 ?n) = \<lparr>is_scan = True, thread = tid, is_read_op = ro, depends_on = Some deps, refcnt = c\<rparr>"
    "alivef (slog l1 ! index l1 ?n) = lmasks l1 ! ?j" by (simp_all add: x_def shows_entry_def)
  define l2 where "l2 = consume_entry idx (index l1 ?n) l1"
  have last: "cnr_exec_loop (log_at h) idx (cnr_apply D cl h) [?n] (ls[h := l1], r\<lparr>c_data := d\<rparr>) = Inr (True, ls'[h := l2], r2)"
    using e run ls' h by (simp add: log_at_def Let_def l2_def)
  have "index l1 ?n = ltails l1 ! ?j mod length (slog l1)" using index_eq_mod [OF cnr_invD(1) [OF l1(1)]] l1(2) by simp
  then have l2: "cnr_inv k l2 (es @ [x])" using consume_entry_inv [OF l1(1) idx(2,3) refl, of l2] l1(2,3) tl by (simp add: l2_def)
  have "?j < length (ltails l1)" using j(1) cnr_inv_lengths(3,4) [OF l1(1)] by simp
  then have t2: "ltails l2 ! ?j = tail ?l" "tail l2 = tail ?l" using l1(2,3) tl by (simp_all add: l2_def consume_entry_def Let_def)
  have "[ltails ?l ! ?j..<tail ?l] = [ltails ?l ! ?j..<?n] @ [?n]" using lt tl by (simp flip: Suc_eq_plus1)
  then have loop: "cnr_exec_loop (log_at h) idx (cnr_apply D cl h) [ltails ?l ! ?j..<tail ?l] (ls, r) = Inr (True, ls'[h := l2], r2)"
    using pre last by (simp add: exec_loop_append del: cnr_exec_loop.simps)
  let ?l3 = "l2\<lparr>ctail := max (ctail l2) (tail ?l), ltails := (ltails l2)[?j := tail ?l]\<rparr>"
  have "cnr_exec (log_at h) idx (cnr_apply D cl h) (ls, r) = Inr (ls'[h := ?l3], r2)"
    using loop j lt tl cnr_tailsD(1) [OF inv j(1)] h ls'(2) by (simp add: cnr_exec_def log_at_def Let_def)
  moreover have "cnr_inv k ?l3 (es @ [x])" by (rule cnr_inv_keep [OF l2 t2(1)]) (use cnr_invD(10) [OF l2] t2(2) in simp)
  moreover have "ltails ?l3 ! ?j = tail ?l3" using t2 j(1) cnr_inv_lengths(3,4) [OF l2] by simp
  ultimately show ?thesis using ls' by blast
qed

section \<open>Bringing the leaves up to date\<close>

text \<open>No compare-and-exchange is lost.\<close>

definition calm_cas :: "(nat \<Rightarrow> cnr_env) \<Rightarrow> bool" where
  "calm_cas env \<longleftrightarrow> (\<forall>i. lock_won (env i) \<and> (\<forall>t. flag_won (env i) t) \<and> fst (tail_won (env i)) \<and> scan_won (env i))"

definition free_log :: "log_state \<Rightarrow> bool" where
  "free_log s \<longleftrightarrow> ls_combiner s = 0 \<and> ls_pending s = replicate MAX_THREADS_PER_REPLICA False"

definition has_room :: "nat \<Rightarrow> 'op cnr_log \<Rightarrow> bool" where
  "has_room n l \<longleftrightarrow> tail l + n \<le> head l + length (slog l) - GC_FROM_HEAD"

text \<open>A leaf accepts a scan entry as soon as the replica has reached the position in the root.\<close>

lemma leaf_accepts:
  assumes "1 < length (logstate (snd st))" "synced 0 off st"
  shows "cnr_apply D cl h o1 rid tid True ro (Some [off]) st = Inr (True, st)"
  using assms by (simp add: cnr_apply_def handle_scan_op_def Let_def array_get_def)

lemma leaf_combine:
  fixes o1 tid ro rid off es defines "x \<equiv> ((o1, tid, ro), rid, Some [off])"
  assumes sys: "cnr_sys k hs (ls, r)" and h: "0 < h" "h < length hs" "hs ! h = es @ [x]" and free: "free_log (logstate r ! h)" and env: "calm_cas env"
    and lt: "ltails (ls ! h) ! (token_of h (ls, r) - 1) \<le> length es" and root: "synced 0 off (ls, r)" and room: "has_room 0 (ls ! h)"
    and es: "foreign (token_of h (ls, r)) (drop (ltails (ls ! h) ! (token_of h (ls, r) - 1)) es)"
    and ops: "run_ops D (map (fst \<circ> fst) (drop (ltails (ls ! h) ! (token_of h (ls, r) - 1)) es)) (c_data r) = Inr (qs, d)"
  shows "\<exists>l. cnr_try_combine (n + 2) env D hash tid' h (ls, r) = Inr (ls[h := l], r\<lparr>c_data := d\<rparr>)
    \<and> cnr_inv k l (hs ! h) \<and> ltails l ! (token_of h (ls, r) - 1) = tail l"
proof -
  let ?r = "r\<lparr>logstate := (logstate r)[h := (logstate r ! h)\<lparr>ls_combiner := tid'\<rparr>]\<rparr>" and ?idx = "token_of h (ls, r)"
  let ?cl = "cnr_try_combine (Suc n) env D hash tid'"
  from sys h have S: "length (logstate r) = length hs" "h < length ls" "1 \<le> ?idx" "?idx \<le> k" "h < length (logstate r)" by (auto simp: cnr_sys_def)
  have flags: "ls_pending (logstate ?r ! h) = replicate MAX_THREADS_PER_REPLICA False" using free S(5) by (simp add: free_log_def)
  have won: "fst (tail_won (env n))" "lock_won (env (n + 1))" using env by (simp_all add: calm_cas_def)
  note tok = held_lock(2) [OF sys h(2)]
  have "tail (ls ! h) \<le> head (ls ! h) + length (slog (ls ! h)) - GC_FROM_HEAD" using room by (simp add: has_room_def)
  from combine_idle [where env = env and n = n, OF held_lock(1) [OF sys h(2)] h(2) flags won(1) this, of D hash ?cl tid']
  obtain l where l: "cnr_combine (Suc n) env D hash ?cl tid' h (ls, ?r) = cnr_exec (log_at h) ?idx (cnr_apply D ?cl h) (ls[h := l], ?r)"
    "cnr_inv k l (es @ [x])" "ltails l = ltails (ls ! h)" unfolding tok h(3) by blast
  have here: "ls[h := l] ! h = l" "h < length (ls[h := l])" "token_of h (ls[h := l], r) = ?idx" using S(2) by (simp_all add: token_of_def)
  let ?Q = "\<lambda>ls' r2. r2 = ?r\<lparr>c_data := d\<rparr> \<and> (\<exists>l1. ls' = ls[h := l1])"
  have scan: "\<exists>ls' r2. cnr_apply D ?cl h o1 rid tid True ro (Some [off]) ((ls[h := l])[h := l1], ?r\<lparr>c_data := d\<rparr>) = Inr (True, ls', r2)
      \<and> ls' ! h = l1 \<and> length ls' = length (ls[h := l]) \<and> ?Q ls' r2" for l1
  proof -
    have "token_of 0 ((ls[h := l])[h := l1], ?r\<lparr>c_data := d\<rparr>) = token_of 0 (ls, r)" using tok [of 0 ls] by (simp add: token_of_def)
    then have "synced 0 off ((ls[h := l])[h := l1], ?r\<lparr>c_data := d\<rparr>)" using root h(1) by (simp add: synced_def)
    from leaf_accepts [OF _ this, of D ?cl h o1 rid tid ro] S(1,2) h show ?thesis
      by (intro exI [of _ "ls[h := l1]"] exI [of _ "?r\<lparr>c_data := d\<rparr>"]) auto
  qed
  have "\<exists>ls' l' r2. cnr_exec (log_at h) ?idx (cnr_apply D ?cl h) (ls[h := l], ?r) = Inr (ls'[h := l'], r2) \<and> ?Q ls' r2 \<and> length ls' = length (ls[h := l])
      \<and> cnr_inv k l' (es @ [((o1, tid, ro), rid, Some [off])]) \<and> ltails l' ! (?idx - 1) = tail l'"
    by (rule exec_scan_last [where Q = ?Q and d = d, OF _ _ _ _ _ _ _ _ scan]) (use l here S lt es ops tok in \<open>simp_all add: x_def\<close>)
  then obtain l' where "cnr_exec (log_at h) ?idx (cnr_apply D ?cl h) (ls[h := l], ?r) = Inr (ls[h := l'], ?r\<lparr>c_data := d\<rparr>)"
    "cnr_inv k l' (es @ [x])" "ltails l' ! (?idx - 1) = tail l'" by (auto simp: x_def)
  moreover from this(1) have "cnr_try_combine (n + 2) env D hash tid' h (ls, r) = Inr (ls[h := l'], r\<lparr>c_data := d\<rparr>)"
    using l(1) free won(2) by (intro try_combine_round [where env = env and n = n, OF S(5)]) (simp_all add: free_log_def)
  ultimately show ?thesis unfolding h(3) by blast
qed

text \<open>The entries of logs that the replica has not seen, log after log.\<close>

definition unseen_logs :: "nat list \<Rightarrow> 'op cnr_entry list list \<Rightarrow> ('d, 'op, 'r) cnr_state \<Rightarrow> 'op cnr_entry list" where
  "unseen_logs js hs st = concat (map (\<lambda>h. unseen h hs st) js)"

text \<open>The leaf \<open>h\<close> of a scan: its history ends with the entry of the scan, and the replica can execute it.\<close>

definition leaf_ready :: "'op cnr_op \<Rightarrow> nat \<Rightarrow> 'op cnr_entry list list \<Rightarrow> 'op cnr_entry list list \<Rightarrow> ('d, 'op, 'r) cnr_state \<Rightarrow> nat \<Rightarrow> bool" where
  "leaf_ready oper off hs hs' st h \<longleftrightarrow> 0 < h \<and> h < length hs \<and> (\<exists>rid. hs' ! h = hs ! h @ [(oper, rid, Some [off])])
     \<and> free_log (logstate (snd st) ! h) \<and> has_room 0 (fst st ! h) \<and> foreign (token_of h st) (unseen h hs st)
     \<and> ltails (fst st ! h) ! (token_of h st - 1) \<le> length (hs ! h)"

lemma leaf_ready_frame:
  "ls' ! h = ls ! h \<Longrightarrow> leaf_ready oper off hs hs' (ls', r\<lparr>c_data := d\<rparr>) h = leaf_ready oper off hs hs' (ls, r) h"
  "ls' ! h = ls ! h \<Longrightarrow> unseen h hs (ls', r\<lparr>c_data := d\<rparr>) = unseen h hs (ls, r)"
  by (simp_all add: leaf_ready_def unseen_def token_of_def)

lemma cnr_sys_log:
  assumes "cnr_sys k hs (ls, r)" "h < length hs" "cnr_inv k l (hs ! h)"
  shows "cnr_sys k hs (ls[h := l], r\<lparr>c_data := d\<rparr>)"
  using assms by (auto simp: cnr_sys_def token_of_def nth_list_update)

lemma sync_leaves_run:
  assumes "distinct js" "cnr_sys k hs' (ls, r)" "length hs' = length hs" "\<forall>h\<in>set js. leaf_ready oper off hs hs' (ls, r) h"
    and "\<forall>h\<in>set js. deps ! h = length (hs ! h)" "synced 0 off (ls, r)" "calm_cas env"
    and "run_ops D (map (fst \<circ> fst) (unseen_logs js hs (ls, r))) (c_data r) = Inr (qs, d)"
  shows "\<exists>ls'. sync_leaves (cnr_try_combine (n + 2) env D hash tid) js deps (ls, r) = Inr (ls', r\<lparr>c_data := d\<rparr>)
    \<and> cnr_sys k hs' (ls', r\<lparr>c_data := d\<rparr>) \<and> (\<forall>i. i \<notin> set js \<longrightarrow> ls' ! i = ls ! i) \<and> length ls' = length ls
    \<and> (\<forall>h\<in>set js. synced h (deps ! h) (ls', r))"
  using assms
proof (induction js arbitrary: ls r qs)
  case (Cons h js)
  note sys = Cons.prems(2)
  have ready: "leaf_ready oper off hs hs' (ls, r) h" and h: "h < length hs'" "h < length ls" "0 < h" and dep: "deps ! h = length (hs ! h)"
    using Cons.prems(3-5) sys by (auto simp: leaf_ready_def cnr_sys_def)
  from ready obtain rid where last: "hs' ! h = hs ! h @ [(oper, rid, Some [off])]" by (auto simp: leaf_ready_def)
  obtain o1 t ro where op: "oper = (o1, t, ro)" by (metis prod.exhaust)
  from Cons.prems(8) obtain qs1 d1 qs2 where
    ops: "run_ops D (map (fst \<circ> fst) (unseen h hs (ls, r))) (c_data r) = Inr (qs1, d1)" "run_ops D (map (fst \<circ> fst) (unseen_logs js hs (ls, r))) d1 = Inr (qs2, d)"
    by (auto simp: unseen_logs_def run_ops_append bind_run_Inr comp_def)
  obtain l where step: "(if synced h (deps ! h) (ls, r) then Inr (ls, r) else cnr_try_combine (n + 2) env D hash tid h (ls, r)) = Inr (ls[h := l], r\<lparr>c_data := d1\<rparr>)"
    and l: "cnr_inv k l (hs' ! h)" "synced h (deps ! h) (ls[h := l], r)"
  proof (cases "synced h (deps ! h) (ls, r)")
    case True
    then have "unseen h hs (ls, r) = []" using dep by (simp add: unseen_def synced_def is_replica_synced_for_reads_def)
    then show ?thesis using True ops(1) sys h that [of "ls ! h"] by (simp add: cnr_sys_def)
  next
    case False
    have un: "unseen h hs (ls, r) = drop (ltails (ls ! h) ! (token_of h (ls, r) - 1)) (hs ! h)" by (simp add: unseen_def)
    have R: "free_log (logstate r ! h)" "ltails (ls ! h) ! (token_of h (ls, r) - 1) \<le> length (hs ! h)" "has_room 0 (ls ! h)" "foreign (token_of h (ls, r)) (unseen h hs (ls, r))"
      using ready by (simp_all add: leaf_ready_def)
    from leaf_combine [where n = n and hash = hash and tid' = tid, OF sys h(3,1) last [unfolded op] R(1) Cons.prems(7) R(2) Cons.prems(6) R(3)
      R(4) [unfolded un] ops(1) [unfolded un]]
    obtain l where l: "cnr_try_combine (n + 2) env D hash tid h (ls, r) = Inr (ls[h := l], r\<lparr>c_data := d1\<rparr>)" "cnr_inv k l (hs' ! h)"
      "ltails l ! (token_of h (ls, r) - 1) = tail l" by blast
    moreover have "synced h (deps ! h) (ls[h := l], r)"
      using cnr_invD(4) [OF l(2)] l(3) h(2) dep by (simp add: synced_def is_replica_synced_for_reads_def token_of_def last)
    ultimately show ?thesis using False that by simp
  qed
  let ?ls = "ls[h := l]" and ?r = "r\<lparr>c_data := d1\<rparr>"
  have "\<forall>i\<in>set js. ?ls ! i = ls ! i" using Cons.prems(1) by (auto intro: nth_list_update_neq)
  then have A: "\<forall>i\<in>set js. leaf_ready oper off hs hs' (?ls, ?r) i" "unseen_logs js hs (?ls, ?r) = unseen_logs js hs (ls, r)"
    using Cons.prems(4) by (auto simp: leaf_ready_frame unseen_logs_def cong: map_cong)
  have B: "distinct js" "\<forall>i\<in>set js. deps ! i = length (hs ! i)" "synced 0 off (?ls, ?r)"
    "run_ops D (map (fst \<circ> fst) (unseen_logs js hs (?ls, ?r))) (c_data ?r) = Inr (qs2, d)"
    using Cons.prems(1,5,6) h(3) ops(2) A(2) by (simp_all add: synced_def token_of_def)
  from Cons.IH [OF B(1) cnr_sys_log [OF sys h(1) l(1)] Cons.prems(3) A(1) B(2,3) Cons.prems(7) B(4)]
  obtain ls' where ls': "sync_leaves (cnr_try_combine (n + 2) env D hash tid) js deps (?ls, ?r) = Inr (ls', ?r\<lparr>c_data := d\<rparr>)"
    "cnr_sys k hs' (ls', ?r\<lparr>c_data := d\<rparr>)" "\<forall>i. i \<notin> set js \<longrightarrow> ls' ! i = ?ls ! i" "length ls' = length ?ls" "\<forall>h\<in>set js. synced h (deps ! h) (ls', ?r)"
    by blast
  moreover have "synced h (deps ! h) (ls', r)" using l(2) ls'(3) Cons.prems(1) h(2) by (simp add: synced_def token_of_def)
  ultimately show ?case using step Cons.prems(1) by (intro exI [of _ ls']) (auto simp: synced_def token_of_def)
qed (auto simp: unseen_logs_def)

section \<open>Running the scan\<close>

lemma root_scan:
  assumes sys: "cnr_sys k hs' (ls, r)" and len: "length hs' = length hs" "1 < length hs" and tid: "1 \<le> tid" "tid - 1 < length (c_contexts r)"
    and ready: "\<forall>h\<in>set [1..<length hs]. leaf_ready oper off hs hs' (ls, r) h" and root: "synced 0 off (ls, r)" and env: "calm_cas env"
    and ops: "run_ops D (map (fst \<circ> fst) (unseen_logs [1..<length hs] hs (ls, r))) (c_data r) = Inr (qs, d1)" "dispatch_mut D o1 d1 = Inr (resp, d2)"
  shows "\<exists>ls'. cnr_apply D (cnr_try_combine (n + 2) env D hash t) 0 o1 (token_of 0 (ls, r)) tid True False (Some (map length hs)) (ls, r) =
      Inr (True, ls', r\<lparr>c_data := d2, c_contexts := (c_contexts r)[tid - 1 := context_enqueue_resp resp (c_contexts r ! (tid - 1))]\<rparr>)
    \<and> ls' ! 0 = ls ! 0 \<and> length ls' = length ls \<and> cnr_sys k hs' (ls', r) \<and> (\<forall>h\<in>set [1..<length hs]. synced h (length (hs ! h)) (ls', r))"
proof -
  let ?deps = "map length hs"
  have nlogs: "length (logstate r) = length hs" using sys len by (simp add: cnr_sys_def)
  have deps: "\<forall>h\<in>set [1..<length hs]. ?deps ! h = length (hs ! h)" by auto
  from sync_leaves_run [OF distinct_upt sys len(1) ready deps root env ops(1), of n hash t]
  obtain ls' where ls': "sync_leaves (cnr_try_combine (n + 2) env D hash t) [1..<length hs] ?deps (ls, r) = Inr (ls', r\<lparr>c_data := d1\<rparr>)"
    "cnr_sys k hs' (ls', r\<lparr>c_data := d1\<rparr>)" "\<forall>i. i \<notin> set [1..<length hs] \<longrightarrow> ls' ! i = ls ! i" "length ls' = length ls"
    "\<forall>h\<in>set [1..<length hs]. synced h (?deps ! h) (ls', r)" by blast
  have tok: "token_of h (ls', r\<lparr>c_data := d\<rparr>) = token_of h (ls, r)" for h d by (simp add: token_of_def)
  have "is_replica_sync_for_logs 1 (length hs) ?deps (ls', r\<lparr>c_data := d1\<rparr>)"
    using ls'(5) by (auto simp: is_replica_sync_for_logs_def list_all_iff synced_def token_of_def)
  then have "handle_scan_op D (cnr_try_combine (n + 2) env D hash t) o1 0 (token_of 0 (ls, r)) tid False ?deps (ls, r) =
      Inr (True, ls', r\<lparr>c_data := d2, c_contexts := (c_contexts r)[tid - 1 := context_enqueue_resp resp (c_contexts r ! (tid - 1))]\<rparr>)"
    using ls'(1) nlogs ops(2) tid by (simp add: handle_scan_op_def run_op_def answer_def tok Let_def)
  moreover have "cnr_sys k hs' (ls', r)" using ls'(2) by (simp add: cnr_sys_def token_of_def)
  moreover have "ls' ! 0 = ls ! 0" using ls'(3) by simp
  ultimately show ?thesis using ls'(4,5) deps by (intro exI [of _ ls']) (simp add: cnr_apply_def)
qed

section \<open>Entering the scan into the logs\<close>

text \<open>The histories after a scan.\<close>

definition scan_entry :: "'op cnr_op \<Rightarrow> 'op cnr_entry list list \<Rightarrow> ('d, 'op, 'r) cnr_state \<Rightarrow> nat \<Rightarrow> 'op cnr_entry" where
  "scan_entry oper hs st h = (oper, token_of h st, Some (if h = 0 then map length hs else [length (hs ! 0)]))"

definition scanned :: "'op cnr_op \<Rightarrow> 'op cnr_entry list list \<Rightarrow> ('d, 'op, 'r) cnr_state \<Rightarrow> 'op cnr_entry list list" where
  "scanned oper hs st = map (\<lambda>h. hs ! h @ [scan_entry oper hs st h]) [0..<length hs]"

definition scan_leaf :: "'op cnr_op \<Rightarrow> nat \<Rightarrow> nat \<Rightarrow> 'op cnr_log \<Rightarrow> 'op cnr_log" where
  "scan_leaf oper idx off l = (update_entry (tail l) oper idx True (Some [off]) l)\<lparr>tail := tail l + 1\<rparr>"

lemma append_scan_leaves:
  assumes "distinct js" "\<forall>h\<in>set js. h < length ls \<and> lm_idx (log_metadata (ls ! h)) \<noteq> 1 \<and> has_room 1 (ls ! h)" "calm_cas env" "es = off # es'"
  shows "\<exists>ls'. append_scan_all (Suc m) env D cl oper js es (ls, r) = Inr (es @ map (\<lambda>h. tail (ls ! h)) js, ls', r) \<and> length ls' = length ls
    \<and> (\<forall>h. ls' ! h = (if h \<in> set js then scan_leaf oper (token_of h (ls, r)) off (ls ! h) else ls ! h))"
  using assms
proof (induction js arbitrary: ls es es')
  case (Cons h js)
  let ?ls = "ls[h := scan_leaf oper (token_of h (ls, r)) off (ls ! h)]"
  have h: "h < length ls" "lm_idx (log_metadata (ls ! h)) \<noteq> 1" "has_room 1 (ls ! h)" "scan_won (env m)" using Cons.prems(2,3) by (simp_all add: calm_cas_def)
  then have step: "append_scan_loop (Suc m) env D cl oper h es (ls, r) = Inr (tail (ls ! h), ?ls, r)"
    using Cons.prems(4) by (simp add: try_append_scan_def log_at_def Let_def has_room_def scan_leaf_def array_get_def update_entry_tail)
  have B: "distinct js" "\<forall>i\<in>set js. i < length ?ls \<and> lm_idx (log_metadata (?ls ! i)) \<noteq> 1 \<and> has_room 1 (?ls ! i)" "es @ [tail (ls ! h)] = off # (es' @ [tail (ls ! h)])"
    using Cons.prems(1,2,4) by (auto simp: nth_list_update)
  from Cons.IH [OF B(1,2) Cons.prems(3) B(3)] obtain ls' where
    ls': "append_scan_all (Suc m) env D cl oper js (es @ [tail (ls ! h)]) (?ls, r) = Inr ((es @ [tail (ls ! h)]) @ map (\<lambda>h. tail (?ls ! h)) js, ls', r)"
    "length ls' = length ?ls" "\<forall>i. ls' ! i = (if i \<in> set js then scan_leaf oper (token_of i (?ls, r)) off (?ls ! i) else ?ls ! i)" by blast
  have same: "\<forall>i\<in>set js. ?ls ! i = ls ! i" using Cons.prems(1) by (auto intro: nth_list_update_neq)
  then have "map (\<lambda>h. tail (?ls ! h)) js = map (\<lambda>h. tail (ls ! h)) js" by simp
  then have "append_scan_all (Suc m) env D cl oper (h # js) es (ls, r) = Inr (es @ map (\<lambda>h. tail (ls ! h)) (h # js), ls', r)"
    using step ls'(1) by (simp del: append_scan_loop.simps)
  moreover have "ls' ! i = (if i \<in> set (h # js) then scan_leaf oper (token_of i (ls, r)) off (ls ! i) else ls ! i)" for i
    using ls'(3) same Cons.prems(1) h(1) by (auto simp: token_of_def)
  ultimately show ?case using ls'(2) by (intro exI [of _ ls']) simp
qed simp

lemma scan_leaf_inv:
  assumes "cnr_inv k l h" "1 \<le> idx" "idx \<le> k" "has_room 1 l"
  shows "cnr_inv k (scan_leaf x idx off l) (h @ [(x, idx, Some [off])])" "ltails (scan_leaf x idx off l) = ltails l" "has_room 0 (scan_leaf x idx off l)"
proof -
  have "tail l < head l + length (slog l)" using assms(4) by (simp add: has_room_def)
  from append_one [OF assms(1-3) this, of _ x "Some [off]"] show "cnr_inv k (scan_leaf x idx off l) (h @ [(x, idx, Some [off])])" by (simp add: scan_leaf_def)
  show "ltails (scan_leaf x idx off l) = ltails l" "has_room 0 (scan_leaf x idx off l)" using assms(4) by (simp_all add: scan_leaf_def has_room_def)
qed

text \<open>The root: the entry is reserved first and written, with the positions in all logs, at the end.\<close>

definition scan_root :: "'op cnr_op \<Rightarrow> nat \<Rightarrow> nat list \<Rightarrow> 'op cnr_log \<Rightarrow> 'op cnr_log" where
  "scan_root oper idx deps l = update_entry (tail l) oper idx True (Some deps) (l\<lparr>tail := tail l + 1, log_metadata := (log_metadata l)\<lparr>scanlock := 0\<rparr>\<rparr>)"

lemma scan_root_inv:
  assumes "cnr_inv k l h" "1 \<le> idx" "idx \<le> k" "has_room 1 l"
  shows "cnr_inv k (scan_root x idx deps l) (h @ [(x, idx, Some deps)])" "ltails (scan_root x idx deps l) = ltails l" "has_room 0 (scan_root x idx deps l)"
proof -
  let ?l = "l\<lparr>log_metadata := (log_metadata l)\<lparr>scanlock := 0\<rparr>\<rparr>"
  have "tail ?l < head ?l + length (slog ?l)" using assms(4) by (simp add: has_room_def)
  from append_one [OF _ assms(2,3) this, of h _ x "Some deps"] assms(1)
  have "cnr_inv k ((update_entry (tail l) x idx True (Some deps) ?l)\<lparr>tail := tail l + 1\<rparr>) (h @ [(x, idx, Some deps)])" by simp
  moreover have "l\<lparr>tail := tail l + 1, log_metadata := (log_metadata l)\<lparr>scanlock := 0\<rparr>\<rparr> = ?l\<lparr>tail := tail l + 1\<rparr>" by (cases l) simp
  then have "scan_root x idx deps l = (update_entry (tail l) x idx True (Some deps) ?l)\<lparr>tail := tail l + 1\<rparr>"
    unfolding scan_root_def update_entry_tail [symmetric] by (rule arg_cong)
  ultimately show "cnr_inv k (scan_root x idx deps l) (h @ [(x, idx, Some deps)])" by simp
  show "ltails (scan_root x idx deps l) = ltails l" "has_room 0 (scan_root x idx deps l)" using assms(4) by (simp_all add: scan_root_def has_room_def)
qed

lemma append_scan_run:
  assumes sys: "cnr_sys k hs (ls, r)" and N: "0 < length hs" and hash: "hash (fst oper) (length hs) = [0..<length hs]" and env: "calm_cas env"
    and logs: "\<forall>h<length hs. lm_idx (log_metadata (ls ! h)) = h + 1 \<and> has_room 1 (ls ! h)" and lock: "scanlock (log_metadata (ls ! 0)) = 0"
  shows "\<exists>ls'. append_scan (Suc m) env D hash cl oper t (ls, r) = Inr (ls', r) \<and> cnr_sys k (scanned oper hs (ls, r)) (ls', r) \<and> length ls' = length ls
    \<and> (\<forall>h<length hs. ltails (ls' ! h) = ltails (ls ! h) \<and> has_room 0 (ls' ! h))"
proof -
  let ?N = "length hs" and ?l = "ls ! 0" and ?tok = "\<lambda>h. token_of h (ls, r)"
  have S: "length ls = ?N" "length (logstate r) = ?N" using sys by (simp_all add: cnr_sys_def)
  have I: "cnr_inv k (ls ! h) (hs ! h)" "1 \<le> ?tok h" "?tok h \<le> k" if "h < ?N" for h using sys that by (simp_all add: cnr_sys_def)
  have tl: "tail (ls ! h) = length (hs ! h)" if "h < ?N" for h using cnr_invD(4) [OF I(1) [OF that]] by simp
  have at0: "xs[0 := l] ! 0 = l" if "length xs = length ls" for xs l using S(1) N that by (metis nth_list_update_eq)
  let ?md = "(log_metadata ?l)\<lparr>scanlock := t\<rparr>"
  let ?ls2 = "ls[0 := ?l\<lparr>log_metadata := ?md, tail := tail ?l + 1\<rparr>]"
  have "\<forall>h\<in>set [1..<?N]. h < length ?ls2 \<and> lm_idx (log_metadata (?ls2 ! h)) \<noteq> 1 \<and> has_room 1 (?ls2 ! h)" using logs S(1) N by auto
  from append_scan_leaves [OF distinct_upt this env refl, of m D cl oper "tail ?l" "[]" r] obtain ls3 where
    ls3: "append_scan_all (Suc m) env D cl oper [1..<?N] [tail ?l] (?ls2, r) = Inr ([tail ?l] @ map (\<lambda>h. tail (?ls2 ! h)) [1..<?N], ls3, r)"
    "length ls3 = length ?ls2" "\<forall>h. ls3 ! h = (if h \<in> set [1..<?N] then scan_leaf oper (token_of h (?ls2, r)) (tail ?l) (?ls2 ! h) else ?ls2 ! h)" by blast
  have upt: "[0..<?N] = 0 # [1..<?N]" using N by (simp add: upt_conv_Cons One_nat_def)
  have "[tail ?l] @ map (\<lambda>h. tail (?ls2 ! h)) [1..<?N] = map (\<lambda>h. length (hs ! h)) [0..<?N]" unfolding upt using tl N by simp
  also have "\<dots> = map length hs" by (rule nth_equalityI) simp_all
  finally have deps: "[tail ?l] @ map (\<lambda>h. tail (?ls2 ! h)) [1..<?N] = map length hs" .
  have room: "has_room 1 ?l" "lm_idx (log_metadata ?l) = 1" using logs N by simp_all
  have "append_scan_loop (Suc m) env D cl oper 0 [] (ls[0 := ?l\<lparr>log_metadata := ?md\<rparr>], r) = Inr (tail ?l, ?ls2, r)"
    using room env by (simp add: try_append_scan_def log_at_def Let_def has_room_def calm_cas_def at0)
  then have all: "append_scan_all (Suc m) env D cl oper [0..<?N] [] (ls[0 := ?l\<lparr>log_metadata := ?md\<rparr>], r) = Inr (map length hs, ls3, r)"
    unfolding upt using ls3(1) [unfolded deps] by (simp del: append_scan_loop.simps)
  let ?ls' = "ls3[0 := scan_root oper (?tok 0) (map length hs) ?l]"
  have l3: "ls3 ! 0 = ?l\<lparr>log_metadata := ?md, tail := tail ?l + 1\<rparr>" using ls3(3) by (simp add: at0)
  have "array_get (map length hs) 0 = Inr (tail ?l)" "array_get [0..<?N] 0 = Inr 0" using N tl by (simp_all add: array_get_def)
  then have "append_scan (Suc m) env D hash cl oper t (ls, r) = Inr (?ls', r)"
    using hash all lock S ls3(2) l3
    by (simp add: append_scan_def try_scan_lock_def release_scan_lock_def fix_scan_entry_def log_at_def Let_def scan_root_def token_of_def at0)
  moreover have each: "cnr_inv k (?ls' ! h) (scanned oper hs (ls, r) ! h) \<and> ltails (?ls' ! h) = ltails (ls ! h) \<and> has_room 0 (?ls' ! h)" if h: "h < ?N" for h
  proof (cases "h = 0")
    case True
    then show ?thesis using scan_root_inv [OF I [OF h], of oper "map length hs"] room(1) ls3(2) N by (simp add: scanned_def scan_entry_def at0)
  next
    case False
    then have "?ls' ! h = scan_leaf oper (?tok h) (length (hs ! 0)) (ls ! h)" using ls3(3) h tl [OF N] by (simp add: token_of_def)
    then show ?thesis using scan_leaf_inv [OF I [OF h], of oper "length (hs ! 0)"] logs h False by (simp add: scanned_def scan_entry_def)
  qed
  moreover have "cnr_sys k (scanned oper hs (ls, r)) (?ls', r)"
    using sys each S ls3(2) by (simp add: cnr_sys_def token_of_def) (simp add: scanned_def)
  ultimately show ?thesis using ls3(2) by (intro exI [of _ ?ls']) simp
qed

section \<open>The round of a scan\<close>

lemma notify_keeps:
  "lm_idx (log_metadata (notify_lagging won idx l)) = lm_idx (log_metadata l)" "scanlock (log_metadata (notify_lagging won idx l)) = scanlock (log_metadata l)"
proof -
  have "lm_idx (log_metadata (snd (mark_dormant idx is b l))) = lm_idx (log_metadata l) \<and> scanlock (log_metadata (snd (mark_dormant idx is b l))) = scanlock (log_metadata l)" for "is" b l
    by (induction idx "is" b l rule: mark_dormant.induct) simp_all
  from this [of "[1..<next_id l]" False l]
  show "lm_idx (log_metadata (notify_lagging won idx l)) = lm_idx (log_metadata l)" "scanlock (log_metadata (notify_lagging won idx l)) = scanlock (log_metadata l)"
    by (auto simp: notify_lagging_def Let_def split: prod.split)
qed

lemma append_nothing:
  assumes "h < length ls" "calm_cas env" "has_room 0 (ls ! h)"
  shows "\<exists>md. cnr_append (Suc m) (\<lambda>i. tail_won (env i)) (log_at h) [] idx d (ls, r) = Inr (ls[h := (ls ! h)\<lparr>log_metadata := md\<rparr>], r)
    \<and> lm_idx md = lm_idx (log_metadata (ls ! h)) \<and> scanlock md = scanlock (log_metadata (ls ! h))"
proof -
  obtain md where md: "notify_lagging (snd (tail_won (env m))) idx (ls ! h) = (ls ! h)\<lparr>log_metadata := md\<rparr>" using notify_frame by blast
  then have "lm_idx md = lm_idx (log_metadata (ls ! h))" "scanlock md = scanlock (log_metadata (ls ! h))"
    using notify_keeps [of "snd (tail_won (env m))" idx "ls ! h"] by simp_all
  moreover have "cnr_append (Suc m) (\<lambda>i. tail_won (env i)) (log_at h) [] idx d (ls, r) = Inr (ls[h := (ls ! h)\<lparr>log_metadata := md\<rparr>], r)"
    using assms by (simp add: log_at_def md Let_def calm_cas_def has_room_def)
  ultimately show ?thesis by blast
qed

text \<open>The logs before a scan: each has its number, room for one entry, and no unseen scans or own entries.\<close>

definition scan_ready :: "'op cnr_entry list list \<Rightarrow> ('d, 'op, 'r) cnr_state \<Rightarrow> bool" where
  "scan_ready hs st \<longleftrightarrow> scanlock (log_metadata (fst st ! 0)) = 0
     \<and> (\<forall>h<length hs. lm_idx (log_metadata (fst st ! h)) = h + 1 \<and> has_room 1 (fst st ! h) \<and> foreign (token_of h st) (unseen h hs st))"

lemma seen_bound:
  assumes "cnr_sys k hs (ls, r)" "h < length hs"
  shows "ltails (ls ! h) ! (token_of h (ls, r) - 1) \<le> length (hs ! h)"
proof -
  have "cnr_inv k (ls ! h) (hs ! h)" "token_of h (ls, r) - 1 < k" using assms by (auto simp: cnr_sys_def Suc_le_eq)
  from cnr_tailsD(2) [OF this] cnr_invD(4) [OF this(1)] show ?thesis by simp
qed

lemma unseen_frame: "ltails (ls ! h) = ltails (ls0 ! h) \<Longrightarrow> logstate r' = logstate r \<Longrightarrow> unseen h hs (ls, r') = unseen h hs (ls0, r)"
  by (simp add: unseen_def token_of_def)

lemma leaves_ready:
  assumes sys: "cnr_sys k hs (ls0, r)" and same: "\<forall>h<length hs. 0 < h \<longrightarrow> ltails (ls ! h) = ltails (ls0 ! h) \<and> has_room 0 (ls ! h)"
    and free: "\<forall>h<length hs. 0 < h \<longrightarrow> free_log (logstate r ! h)" and foreign: "\<forall>h<length hs. foreign (token_of h (ls0, r)) (unseen h hs (ls0, r))"
  shows "\<forall>h\<in>set [1..<length hs]. leaf_ready oper (length (hs ! 0)) hs (scanned oper hs (ls0, r)) (ls, r\<lparr>c_data := d\<rparr>) h"
    and "unseen_logs [1..<length hs] hs (ls, r\<lparr>c_data := d\<rparr>) = unseen_logs [1..<length hs] hs (ls0, r)"
proof -
  have leaf: "leaf_ready oper (length (hs ! 0)) hs (scanned oper hs (ls0, r)) (ls, r\<lparr>c_data := d\<rparr>) h \<and> unseen h hs (ls, r\<lparr>c_data := d\<rparr>) = unseen h hs (ls0, r)"
    if "h \<in> set [1..<length hs]" for h
  proof -
    have h: "0 < h" "h < length hs" using that by auto
    then have u: "unseen h hs (ls, r\<lparr>c_data := d\<rparr>) = unseen h hs (ls0, r)" using same by (intro unseen_frame) simp_all
    have tok: "token_of h (ls, r\<lparr>c_data := d\<rparr>) = token_of h (ls0, r)" by (simp add: token_of_def)
    show ?thesis unfolding leaf_ready_def fst_conv snd_conv u tok using h same free foreign seen_bound [OF sys h(2)]
      by (auto simp: scanned_def scan_entry_def)
  qed
  then show "\<forall>h\<in>set [1..<length hs]. leaf_ready oper (length (hs ! 0)) hs (scanned oper hs (ls0, r)) (ls, r\<lparr>c_data := d\<rparr>) h" by blast
  show "unseen_logs [1..<length hs] hs (ls, r\<lparr>c_data := d\<rparr>) = unseen_logs [1..<length hs] hs (ls0, r)"
    unfolding unseen_logs_def using leaf by (intro arg_cong [of _ _ concat] map_cong refl) blast
qed

lemma root_exec:
  fixes o1 tid hs ls0 r defines "hs' \<equiv> scanned (o1, tid, False) hs (ls0, r)"
  assumes sys: "cnr_sys k hs (ls0, r)" "cnr_sys k hs' (ls, r)" and N: "1 < length hs" and env: "calm_cas env" and tid: "1 \<le> tid" "tid - 1 < length (c_contexts r)"
    and same: "\<forall>h<length hs. ltails (ls ! h) = ltails (ls0 ! h) \<and> has_room 0 (ls ! h)" and free: "\<forall>h<length hs. 0 < h \<longrightarrow> free_log (logstate r ! h)"
    and foreign: "\<forall>h<length hs. foreign (token_of h (ls0, r)) (unseen h hs (ls0, r))"
    and ops: "run_ops D (map (fst \<circ> fst) (unseen_logs [0..<length hs] hs (ls0, r))) (c_data r) = Inr (qs, d1)" "dispatch_mut D o1 d1 = Inr (resp, d2)"
  shows "\<exists>ls' l. cnr_exec (log_at 0) (token_of 0 (ls, r)) (cnr_apply D (cnr_try_combine (n + 2) env D hash t) 0) (ls, r) = Inr (ls'[0 := l],
      r\<lparr>c_data := d2, c_contexts := (c_contexts r)[tid - 1 := context_enqueue_resp resp (c_contexts r ! (tid - 1))]\<rparr>)
    \<and> cnr_sys k hs' (ls'[0 := l], r) \<and> ltails l ! (token_of 0 (ls, r) - 1) = tail l \<and> (\<forall>h\<in>set [1..<length hs]. synced h (length (hs ! h)) (ls'[0 := l], r))"
proof -
  let ?r2 = "r\<lparr>c_data := d2, c_contexts := (c_contexts r)[tid - 1 := context_enqueue_resp resp (c_contexts r ! (tid - 1))]\<rparr>"
  let ?deps = "map length hs" and ?idx = "token_of 0 (ls, r)" and ?cl = "cnr_try_combine (n + 2) env D hash t"
  have tok: "token_of h (ls, r) = token_of h (ls0, r)" "token_of h (ls[0 := l1], r\<lparr>c_data := d0\<rparr>) = token_of h (ls, r)" for h l1 d0 by (simp_all add: token_of_def)
  have len: "length hs' = length hs" "0 < length hs" using N by (simp add: hs'_def scanned_def) (use N in linarith)
  have S: "0 < length ls" "1 \<le> ?idx" "?idx \<le> k" using sys(2) len N by (auto simp: cnr_sys_def)
  have root: "hs' ! 0 = hs ! 0 @ [((o1, tid, False), ?idx, Some ?deps)]" using len(2) by (simp add: hs'_def scanned_def scan_entry_def token_of_def)
  have inv: "cnr_inv k (ls ! 0) (hs ! 0 @ [((o1, tid, False), ?idx, Some ?deps)])" using sys(2) len unfolding root [symmetric] by (simp add: cnr_sys_def)
  have "[0..<length hs] = 0 # [1..<length hs]" using len(2) by (simp add: upt_conv_Cons One_nat_def)
  with ops(1) obtain qs0 d0 qs1 where ops0: "run_ops D (map (fst \<circ> fst) (unseen 0 hs (ls0, r))) (c_data r) = Inr (qs0, d0)"
    and ops1: "run_ops D (map (fst \<circ> fst) (unseen_logs [1..<length hs] hs (ls0, r))) d0 = Inr (qs1, d1)"
    by (auto simp: unseen_logs_def run_ops_append bind_run_Inr comp_def)
  let ?Q = "\<lambda>ls' r2. r2 = ?r2 \<and> cnr_sys k hs' (ls', r) \<and> (\<forall>h\<in>set [1..<length hs]. synced h (length (hs ! h)) (ls', r))"
  have scan: "\<exists>ls' r2. cnr_apply D ?cl 0 o1 ?idx tid True False (Some ?deps) (ls[0 := l1], r\<lparr>c_data := d0\<rparr>) = Inr (True, ls', r2)
      \<and> ls' ! 0 = l1 \<and> length ls' = length ls \<and> ?Q ls' r2"
    if l1: "cnr_inv k l1 (hs ! 0 @ [((o1, tid, False), ?idx, Some ?deps)])" "ltails l1 ! (?idx - 1) = length (hs ! 0)" for l1
  proof -
    let ?st = "(ls[0 := l1], r\<lparr>c_data := d0\<rparr>)"
    have "cnr_inv k l1 (hs' ! 0)" unfolding root by (rule l1(1))
    then have sys1: "cnr_sys k hs' ?st" using cnr_sys_log [OF sys(2)] len by simp
    have "\<forall>h<length hs. 0 < h \<longrightarrow> ltails (ls[0 := l1] ! h) = ltails (ls0 ! h) \<and> has_room 0 (ls[0 := l1] ! h)" using same by simp
    note leaves = leaves_ready(1) [OF sys(1) this free foreign, of "(o1, tid, False)" d0] leaves_ready(2) [OF sys(1) this free foreign, of d0]
    have "synced 0 (length (hs ! 0)) ?st" using l1(2) S(1) by (simp add: synced_def is_replica_synced_for_reads_def tok(2))
    with root_scan [OF sys1 len(1) N tid(1), of "(o1, tid, False)" "length (hs ! 0)" env D qs1 d1 o1 resp d2 n hash t] leaves ops1 ops(2) env tid(2) S(1) tok(2) [of 0 l1 d0]
    show ?thesis by (auto simp: hs'_def cnr_sys_def synced_def token_of_def)
  qed
  have "\<exists>ls' l r2. cnr_exec (log_at 0) ?idx (cnr_apply D ?cl 0) (ls, r) = Inr (ls'[0 := l], r2) \<and> ?Q ls' r2 \<and> length ls' = length ls
      \<and> cnr_inv k l (hs ! 0 @ [((o1, tid, False), ?idx, Some ?deps)]) \<and> ltails l ! (?idx - 1) = tail l"
    by (rule exec_scan_last [OF inv S(1) refl S(2,3) _ _ _ scan])
      (use same len(2) seen_bound [OF sys(1), of 0] foreign ops0 tok(1) [of 0] in \<open>simp_all add: unseen_def\<close>)
  then obtain ls' l where run: "cnr_exec (log_at 0) ?idx (cnr_apply D ?cl 0) (ls, r) = Inr (ls'[0 := l], ?r2)" and ls': "cnr_sys k hs' (ls', r)"
    "\<forall>h\<in>set [1..<length hs]. synced h (length (hs ! h)) (ls', r)" and l: "cnr_inv k l (hs' ! 0)" "ltails l ! (?idx - 1) = tail l"
    unfolding root by blast
  have "cnr_sys k hs' (ls'[0 := l], r)" using cnr_sys_log [OF ls'(1) _ l(1), of "c_data r"] len by simp
  moreover have "\<forall>h\<in>set [1..<length hs]. synced h (length (hs ! h)) (ls'[0 := l], r)" using ls'(2) by (simp add: synced_def token_of_def)
  ultimately show ?thesis using run l(2) by blast
qed

text \<open>Taking the operation of the thread and notifying other replicas changes nothing that matters here.\<close>

lemma scan_frame:
  fixes ls r md p defines "ls1 \<equiv> ls[0 := (ls ! 0)\<lparr>log_metadata := md\<rparr>]" and "r1 \<equiv> r\<lparr>logstate := (logstate r)[0 := (logstate r ! 0)\<lparr>ls_pending := p\<rparr>]\<rparr>"
  assumes sys: "cnr_sys k hs (ls, r)" "0 < length hs" "length p = MAX_THREADS_PER_REPLICA"
    and md: "lm_idx md = lm_idx (log_metadata (ls ! 0))" "scanlock md = scanlock (log_metadata (ls ! 0))"
  shows "cnr_sys k hs (ls1, r1)" "token_of h (ls', r1) = token_of h (ls', r)" "unseen h hs (ls1, r1) = unseen h hs (ls, r)"
    "scanned x hs (ls1, r1) = scanned x hs (ls, r)" "scan_ready hs (ls1, r1) = scan_ready hs (ls, r)" "synced h c (ls', r1) = synced h c (ls', r)"
proof -
  have ne: "logstate r \<noteq> []" "ls \<noteq> []" using sys by (auto simp: cnr_sys_def)
  have r0: "logstate r1 ! h = (if h = 0 then (logstate r ! 0)\<lparr>ls_pending := p\<rparr> else logstate r ! h)" for h by (simp add: r1_def ne)
  have l0: "ls1 ! h = (if h = 0 then (ls ! 0)\<lparr>log_metadata := md\<rparr> else ls ! h)" for h by (simp add: ls1_def ne)
  have at: "ltails (ls1 ! h) = ltails (ls ! h)" "has_room c (ls1 ! h) = has_room c (ls ! h)" "lm_idx (log_metadata (ls1 ! h)) = lm_idx (log_metadata (ls ! h))"
    "cnr_inv k (ls1 ! h) (hs ! h) = cnr_inv k (ls ! h) (hs ! h)" "scanlock (log_metadata (ls1 ! 0)) = scanlock (log_metadata (ls ! 0))" for h c
    unfolding l0 by (simp_all add: has_room_def md)
  show tok: "token_of h (ls', r1) = token_of h (ls', r)" for h ls' unfolding token_of_def snd_conv r0 by simp
  have tok': "token_of h (ls1, r) = token_of h (ls, r)" for h by (simp add: token_of_def)
  show un: "unseen h hs (ls1, r1) = unseen h hs (ls, r)" for h unfolding unseen_def tok tok' fst_conv at ..
  show "cnr_sys k hs (ls1, r1)" using sys unfolding cnr_sys_def tok tok' fst_conv snd_conv at r0 by (simp add: ls1_def r1_def)
  show "scanned x hs (ls1, r1) = scanned x hs (ls, r)" unfolding scanned_def scan_entry_def tok tok' ..
  show "scan_ready hs (ls1, r1) = scan_ready hs (ls, r)" unfolding scan_ready_def un tok tok' fst_conv at ..
  show "synced h c (ls', r1) = synced h c (ls', r)" unfolding synced_def tok fst_conv ..
qed

lemma combine_scan:
  assumes sys: "cnr_sys k hs (ls, r)" and N: "1 < length hs" and hash: "hash o1 (length hs) = [0..<length hs]" and env: "calm_cas env"
    and ready: "scan_ready hs (ls, r)" and tid: "1 \<le> tid" "tid < c_next r"
    and flags: "ls_pending (logstate r ! 0) = (replicate MAX_THREADS_PER_REPLICA False)[tid - 1 := True]"
    and items: "context_items (c_contexts r ! (tid - 1)) = Inr [(o1, 0, True, False)]" and free: "\<forall>h<length hs. 0 < h \<longrightarrow> free_log (logstate r ! h)"
    and ops: "run_ops D (map (fst \<circ> fst) (unseen_logs [0..<length hs] hs (ls, r))) (c_data r) = Inr (qs, d1)" "dispatch_mut D o1 d1 = Inr (resp, d2)"
  shows "\<exists>ls'. cnr_combine (Suc m) env D hash (cnr_try_combine (n + 2) env D hash t) t 0 (ls, r) = Inr (ls', r\<lparr>
      logstate := (logstate r)[0 := (logstate r ! 0)\<lparr>ls_pending := replicate MAX_THREADS_PER_REPLICA False\<rparr>], c_data := d2,
      c_contexts := (c_contexts r)[tid - 1 := context_enqueue_resp resp (c_contexts r ! (tid - 1))]\<rparr>)
    \<and> cnr_sys k (scanned (o1, tid, False) hs (ls, r)) (ls', r) \<and> synced 0 (length (hs ! 0) + 1) (ls', r)
    \<and> (\<forall>h\<in>set [1..<length hs]. synced h (length (hs ! h)) (ls', r))"
proof -
  let ?r = "r\<lparr>logstate := (logstate r)[0 := (logstate r ! 0)\<lparr>ls_pending := replicate MAX_THREADS_PER_REPLICA False\<rparr>]\<rparr>" and ?op = "(o1, tid, False)"
  let ?cl = "cnr_try_combine (n + 2) env D hash t"
  have S: "0 < length hs" "length ls = length hs" "length (logstate r) = length hs" "tid - 1 < length (c_contexts r)" "c_next r \<le> MAX_THREADS_PER_REPLICA + 1"
    using sys N tid by (auto simp: cnr_sys_def)
  have collect: "cnr_collect (flag_won (env (Suc m))) 0 [1..<c_next r] [] [] (ls, r) = Inr ([], [?op], ls, ?r)"
    using collect_one [OF tid, of "flag_won (env (Suc m))" 0 "(ls, r)" o1 True False] env S flags items by (simp add: set_logstate_def calm_cas_def)
  have "0 < length ls" "has_room 0 (ls ! 0)" using S(1,2) ready by (auto simp: scan_ready_def has_room_def)
  from append_nothing [OF this(1) env this(2), of m "token_of 0 (ls, ?r)" "cnr_apply D ?cl 0" ?r] obtain md where
    md: "cnr_append (Suc m) (\<lambda>i. tail_won (env i)) (log_at 0) [] (token_of 0 (ls, ?r)) (cnr_apply D ?cl 0) (ls, ?r) = Inr (ls[0 := (ls ! 0)\<lparr>log_metadata := md\<rparr>], ?r)"
    "lm_idx md = lm_idx (log_metadata (ls ! 0))" "scanlock md = scanlock (log_metadata (ls ! 0))" by blast
  let ?ls = "ls[0 := (ls ! 0)\<lparr>log_metadata := md\<rparr>]"
  note frame = scan_frame [OF sys S(1) length_replicate md(2,3)]
  have ready1: "scan_ready hs (?ls, ?r)" using ready frame(5) by blast
  have uns: "unseen_logs js hs (?ls, ?r) = unseen_logs js hs (ls, r)" for js unfolding unseen_logs_def frame(3) ..
  have "hash (fst ?op) (length hs) = [0..<length hs]" "\<forall>h<length hs. lm_idx (log_metadata (?ls ! h)) = h + 1 \<and> has_room 1 (?ls ! h)" "scanlock (log_metadata (?ls ! 0)) = 0"
    using hash ready1 by (simp_all add: scan_ready_def)
  from append_scan_run [where hash = hash and oper = ?op and m = m and D = D and cl = ?cl and t = t, OF frame(1) S(1) this(1) env this(2,3)] obtain ls2 where
    ls2: "append_scan (Suc m) env D hash ?cl ?op t (?ls, ?r) = Inr (ls2, ?r)" "cnr_sys k (scanned ?op hs (?ls, ?r)) (ls2, ?r)"
    "\<forall>h<length hs. ltails (ls2 ! h) = ltails (?ls ! h) \<and> has_room 0 (ls2 ! h)" by blast
  have A: "tid - 1 < length (c_contexts ?r)" "\<forall>h<length hs. 0 < h \<longrightarrow> free_log (logstate ?r ! h)" "\<forall>h<length hs. foreign (token_of h (?ls, ?r)) (unseen h hs (?ls, ?r))"
    "run_ops D (map (fst \<circ> fst) (unseen_logs [0..<length hs] hs (?ls, ?r))) (c_data ?r) = Inr (qs, d1)"
    using S(4) free ops(1) ready1 by (simp_all add: uns scan_ready_def)
  from root_exec [OF frame(1) ls2(2) N env tid(1) A(1) ls2(3) A(2-4) ops(2), of n hash t] obtain ls' l where
    ex: "cnr_exec (log_at 0) (token_of 0 (ls2, ?r)) (cnr_apply D ?cl 0) (ls2, ?r) = Inr (ls'[0 := l],
      ?r\<lparr>c_data := d2, c_contexts := (c_contexts ?r)[tid - 1 := context_enqueue_resp resp (c_contexts ?r ! (tid - 1))]\<rparr>)"
    and fin: "cnr_sys k (scanned ?op hs (ls, r)) (ls'[0 := l], ?r)" "ltails l ! (token_of 0 (ls2, ?r) - 1) = tail l"
      "\<forall>h\<in>set [1..<length hs]. synced h (length (hs ! h)) (ls'[0 := l], ?r)" unfolding frame(4) by blast
  have "cnr_combine (Suc m) env D hash ?cl t 0 (ls, r) = Inr (ls'[0 := l], ?r\<lparr>c_data := d2,
      c_contexts := (c_contexts r)[tid - 1 := context_enqueue_resp resp (c_contexts r ! (tid - 1))]\<rparr>)"
    using collect md(1) ls2(1) ex by (simp add: cnr_combine_def del: cnr_append.simps)
  moreover have sys': "cnr_sys k (scanned ?op hs (ls, r)) (ls'[0 := l], r)"
    using fin(1) sys unfolding cnr_sys_def frame(2) snd_conv by (simp add: scanned_def)
  moreover have "synced 0 (length (hs ! 0) + 1) (ls'[0 := l], r)"
  proof -
    have sc: "length (scanned ?op hs (ls, r)) = length hs" by (simp add: scanned_def)
    then have "ls' \<noteq> []" "cnr_inv k (ls'[0 := l] ! 0) (scanned ?op hs (ls, r) ! 0)" using sys' S(1) by (auto simp: cnr_sys_def)
    then have "tail l = length (hs ! 0) + 1" using cnr_invD(4) [of k l "hs ! 0 @ [scan_entry ?op hs (ls, r) 0]"] S(1) by (simp add: scanned_def)
    then show ?thesis using fin(2) \<open>ls' \<noteq> []\<close> unfolding frame(2) by (simp add: synced_def is_replica_synced_for_reads_def token_of_def)
  qed
  ultimately show ?thesis using fin(3) [unfolded frame(6)] by (intro exI [of _ "ls'[0 := l]"]) simp
qed

section \<open>Correctness of scans\<close>


lemma cnr_pair_scan:
  "scan_ready [[((7, 1, False), 1, None)], []] cnr_pair" "unseen_logs [0..<2] [[((7, 1, False), 1, None)], []] cnr_pair = [((7, 1, False), 1, None)]"
proof -
  have two: "[0..<2] = [0, 1 :: nat]" by (simp add: numeral_2_eq_2)
  have inv: "cnr_inv 2 (cnr_fresh 2 0 2 :: nat cnr_log) []" by (rule cnr_fresh_inv) (simp_all add: MAX_REPLICAS_PER_LOG_def)
  have logs: "fst cnr_pair ! 0 = cnr_one" "fst cnr_pair ! 1 = cnr_fresh 2 0 2" by (simp_all add: cnr_pair_def)
  have "2 * GC_FROM_HEAD \<le> length (slog cnr_one)" "2 * GC_FROM_HEAD \<le> length (slog (cnr_fresh 2 0 2 :: nat cnr_log))"
    using log_wf_slots(3) [OF cnr_invD(1) [OF cnr_one_inv(1)]] log_wf_slots(3) [OF cnr_invD(1) [OF inv]] by simp_all
  then have room: "has_room 1 cnr_one" "has_room 1 (cnr_fresh 2 0 2 :: nat cnr_log)"
    using cnr_invD(4) [OF cnr_one_inv(1)] cnr_invD(4) [OF inv] by (simp_all add: has_room_def log_constants)
  have md: "lm_idx (log_metadata cnr_one) = 1" "scanlock (log_metadata cnr_one) = 0" "lm_idx (log_metadata (cnr_fresh 2 0 2 :: nat cnr_log)) = 2"
    by (simp_all add: cnr_one_def update_entry_def Let_def cnr_fresh_def cnr_register_eq new_with_entries_def MAX_REPLICAS_PER_LOG_def log_meta_new_def)
  have un: "unseen (Suc 0) [[((7, 1, False), 1, None)], []] cnr_pair = []" by (simp add: unseen_def)
  show "scan_ready [[((7, 1, False), 1, None)], []] cnr_pair"
    using room md un cnr_pair_state(3,4) unfolding scan_ready_def logs(1) by (auto simp: less_2_cases_iff numeral_2_eq_2 less_Suc_eq logs [unfolded One_nat_def] foreign_def)
  show "unseen_logs [0..<2] [[((7, 1, False), 1, None)], []] cnr_pair = [((7, 1, False), 1, None)]"
    unfolding unseen_logs_def two using un cnr_pair_state(4) by (simp add: One_nat_def)
qed


end
