(* ===== verification/Bench_Placement.thy ===== *)
theory Bench_Placement
  imports Nr_Ffi "HOL-Library.AList"
begin

text \<open>
  How the benchmark harness distributes threads over processors and replicas:
  \<open>bench_utils/src/mkbench.rs\<close> and its copy for the multi-log variant, \<open>bench_utils/src/cnr_mkbench.rs\<close>.
  A hash map from replicas to processors is an association list with distinct keys; where the code
  iterates over it, the order is an argument.
\<close>

section \<open>Strategies\<close>

datatype replica_strategy = RsOne | RsL1 | RsL2 | RsL3 | RsSocket | RsPerThread | RsNUMA

fun replica_strategy_display :: "replica_strategy \<Rightarrow> string" where
  "replica_strategy_display RsOne = ''System''"
| "replica_strategy_display RsL1 = ''L1''"
| "replica_strategy_display RsL2 = ''L2''"
| "replica_strategy_display RsL3 = ''L3''"
| "replica_strategy_display RsSocket = ''Socket''"
| "replica_strategy_display RsPerThread = ''PerThread''"
| "replica_strategy_display RsNUMA = ''NUMA''"

fun replica_strategy_debug :: "replica_strategy \<Rightarrow> string" where
  "replica_strategy_debug RsOne = ''RS=System''"
| "replica_strategy_debug RsL1 = ''RS=L1''"
| "replica_strategy_debug RsL2 = ''RS=L2''"
| "replica_strategy_debug RsL3 = ''RS=L3''"
| "replica_strategy_debug RsSocket = ''RS=Socket''"
| "replica_strategy_debug RsPerThread = ''RS=PerThread''"
| "replica_strategy_debug RsNUMA = ''RS=NUMA''"

datatype log_strategy = LsOne | LsPerThread | LsCustom nat

fun log_strategy_display :: "log_strategy \<Rightarrow> string" where
  "log_strategy_display LsOne = ''System''"
| "log_strategy_display LsPerThread = ''PerThread''"
| "log_strategy_display (LsCustom v) = ''Custom('' @ decimal v @ '')''"

fun log_strategy_debug :: "log_strategy \<Rightarrow> string" where
  "log_strategy_debug LsOne = ''LS=System''"
| "log_strategy_debug LsPerThread = ''LS=PerThread''"
| "log_strategy_debug (LsCustom v) = ''LS=Custom('' @ decimal v @ '')''"

text \<open>The strategies of the multi-log harness have no variant for NUMA.\<close>

datatype cnr_strategy = CsOne | CsL1 | CsL2 | CsL3 | CsSocket | CsPerThread

fun cnr_strategy_display :: "cnr_strategy \<Rightarrow> string" where
  "cnr_strategy_display CsOne = ''System''"
| "cnr_strategy_display CsL1 = ''L1''"
| "cnr_strategy_display CsL2 = ''L2''"
| "cnr_strategy_display CsL3 = ''L3''"
| "cnr_strategy_display CsSocket = ''Socket''"
| "cnr_strategy_display CsPerThread = ''PerThread''"

fun cnr_strategy_debug :: "cnr_strategy \<Rightarrow> string" where
  "cnr_strategy_debug CsOne = ''RS=System''"
| "cnr_strategy_debug CsL1 = ''RS=L1''"
| "cnr_strategy_debug CsL2 = ''RS=L2''"
| "cnr_strategy_debug CsL3 = ''RS=L3''"
| "cnr_strategy_debug CsSocket = ''RS=Socket''"
| "cnr_strategy_debug CsPerThread = ''RS=PerThread''"

section \<open>Replicas and processors\<close>

type_synonym replica_map = "(nat \<times> nat list) list"

text \<open>The groups of processors with the same value of a key, in the order of the keys; \<open>rep\<close> gives the replica of a key.\<close>

fun place_groups :: "(cpu_info \<Rightarrow> nat) \<Rightarrow> (nat \<Rightarrow> nat run) \<Rightarrow> cpu_info list \<Rightarrow> nat list \<Rightarrow> replica_map \<Rightarrow> replica_map run" where
  "place_groups key rep cpus [] rm = Inr rm"
| "place_groups key rep cpus (s # ss) rm =
     bind_run (rep s) (\<lambda>r.
       place_groups key rep cpus ss (AList.update r (map ci_cpu (filter (\<lambda>c. key c = s) cpus)) rm))"

definition group_by :: "(cpu_info \<Rightarrow> nat) \<Rightarrow> (nat \<Rightarrow> nat run) \<Rightarrow> cpu_info list \<Rightarrow> replica_map run" where
  "group_by key rep cpus = place_groups key rep cpus (remdups_adj (sort (map key cpus))) []"

text \<open>The loop that numbers the caches in the order in which the processors use them.\<close>

fun number_caches :: "cpu_info list \<Rightarrow> nat \<Rightarrow> (nat \<times> nat) list \<Rightarrow> (nat \<times> nat) list" where
  "number_caches [] rep mapping = mapping"
| "number_caches (c # cs) rep mapping =
     (if map_of mapping (ci_l1 c) = None
      then number_caches cs (rep + 1) (AList.update (ci_l1 c) rep mapping)
      else number_caches cs rep mapping)"

definition cache_rid :: "cpu_info list \<Rightarrow> nat \<Rightarrow> nat run" where
  "cache_rid cpus s = (case map_of (number_caches cpus 0 []) s of None \<Rightarrow> Inl unwrap_panic | Some r \<Rightarrow> Inr r)"

fun place_each :: "nat \<Rightarrow> nat list \<Rightarrow> replica_map \<Rightarrow> replica_map" where
  "place_each idx [] rm = rm"
| "place_each idx (core # cs) rm = place_each (idx + 1) cs (AList.update idx [core] rm)"

definition replica_core_allocation :: "(cpu_info list \<Rightarrow> cpu_info list \<Rightarrow> cpu_info list) \<Rightarrow> machine_topology \<Rightarrow> replica_strategy
    \<Rightarrow> thread_mapping \<Rightarrow> nat \<Rightarrow> replica_map run" where
  "replica_core_allocation il topology rs tm ts =
     (let cpus = allocate il topology tm ts True
      in case rs of
           RsOne \<Rightarrow> Inr [(0, map ci_cpu cpus)]
         | RsSocket \<Rightarrow> group_by ci_socket Inr cpus
         | RsNUMA \<Rightarrow>
             let mid = length cpus div 2
             in Inr (AList.update 1 (map ci_cpu (drop mid cpus)) (AList.update 0 (map ci_cpu (take mid cpus)) []))
         | RsL1 \<Rightarrow> (case tm of
                       MapNone \<Rightarrow> Inr []
                     | Sequential \<Rightarrow> group_by ci_l1 Inr cpus
                     | Interleave \<Rightarrow> group_by ci_l1 (cache_rid cpus) cpus
                     | MapNUMA \<Rightarrow> Inr [])
         | RsL2 \<Rightarrow> group_by ci_l2 Inr cpus
         | RsL3 \<Rightarrow> group_by ci_l3 Inr cpus
         | RsPerThread \<Rightarrow> Inr (place_each 0 (map ci_cpu cpus) []))"

definition cnr_replica_core_allocation :: "(cpu_info list \<Rightarrow> cpu_info list \<Rightarrow> cpu_info list) \<Rightarrow> machine_topology \<Rightarrow> cnr_strategy
    \<Rightarrow> thread_mapping \<Rightarrow> nat \<Rightarrow> replica_map run" where
  "cnr_replica_core_allocation il topology rs tm ts =
     (let cpus = allocate il topology tm ts True
      in case rs of
           CsOne \<Rightarrow> Inr [(0, map ci_cpu cpus)]
         | CsSocket \<Rightarrow> group_by ci_socket Inr cpus
         | CsL1 \<Rightarrow> (case tm of
                       MapNone \<Rightarrow> Inr []
                     | Sequential \<Rightarrow> group_by ci_l1 Inr cpus
                     | Interleave \<Rightarrow> group_by ci_l1 (cache_rid cpus) cpus
                     | MapNUMA \<Rightarrow> group_by ci_l1 (cache_rid cpus) cpus)
         | CsL2 \<Rightarrow> group_by ci_l2 Inr cpus
         | CsL3 \<Rightarrow> group_by ci_l3 Inr cpus
         | CsPerThread \<Rightarrow> Inr (place_each 0 (map ci_cpu cpus) []))"

definition rm_threads :: "replica_map \<Rightarrow> nat" where
  "rm_threads rm = sum_list (map (length \<circ> snd) rm)"

definition rm_replicas :: "replica_map \<Rightarrow> nat" where
  "rm_replicas rm = length rm"

section \<open>Thread affinity\<close>

fun chg_affinity :: "machine_topology \<Rightarrow> (nat \<Rightarrow> bool) \<Rightarrow> (nat list \<Rightarrow> bool) \<Rightarrow> affinity_change \<Rightarrow> os_thread \<Rightarrow> (nat \<times> os_thread) run" where
  "chg_affinity topo cpu_ok mask_ok (AffReplica r) t =
     bind_run (set_affinity cpu_ok mask_ok ''Can't change thread affinity'' (map ci_cpu (cpus_on_node topo r)) t) (\<lambda>t'. Inr (cur_cpu t, t'))"
| "chg_affinity topo cpu_ok mask_ok (AffRevert core_id) t =
     bind_run (set_affinity cpu_ok mask_ok ''Can't reset thread affinity'' [core_id] t) (\<lambda>t'. Inr (0xdead, t'))"

fun chg_affinity_numa :: "machine_topology \<Rightarrow> (nat \<Rightarrow> bool) \<Rightarrow> (nat list \<Rightarrow> bool) \<Rightarrow> affinity_change \<Rightarrow> os_thread \<Rightarrow> (nat \<times> os_thread) run" where
  "chg_affinity_numa topo cpu_ok mask_ok (AffReplica r) t =
     bind_run (set_affinity cpu_ok mask_ok ''Can't change thread affinity''
         (map ci_cpu (cpus_on_node topo (if r = MAX_USIZE then 0 else 1))) t) (\<lambda>t'. Inr (cur_cpu t, t'))"
| "chg_affinity_numa topo cpu_ok mask_ok (AffRevert core_id) t =
     bind_run (set_affinity cpu_ok mask_ok ''Can't reset thread affinity'' [core_id] t) (\<lambda>t'. Inr (0xdead, t'))"

section \<open>The replicated object of a run\<close>

text \<open>The implementation of \<open>DsInterface\<close> for \<open>NodeReplicated\<close>; \<open>d0\<close> is the default value of the data structure.\<close>

definition expect_object :: "nr_error + ('d, 'op, 'r) node_replicated \<Rightarrow> ('d, 'op, 'r) node_replicated run" where
  "expect_object r = (case r of Inl _ \<Rightarrow> Inl (Panic ''Can't allocate NodeReplicated'') | Inr nr \<Rightarrow> Inr nr)"

definition ds_new :: "'d \<Rightarrow> affinity_fn \<Rightarrow> (nat \<Rightarrow> bool) \<Rightarrow> nat \<Rightarrow> nat \<Rightarrow> nat \<Rightarrow> ('d, 'op, 'r) node_replicated run" where
  "ds_new d0 af mem esize num log_size = bind_run (with_log_size d0 num af mem esize log_size) expect_object"

definition ds_new_numa :: "'d \<Rightarrow> affinity_fn \<Rightarrow> (nat \<Rightarrow> bool) \<Rightarrow> nat \<Rightarrow> nat \<Rightarrow> nat \<Rightarrow> ('d, 'op, 'r) node_replicated run" where
  "ds_new_numa d0 af mem esize num log_size = bind_run (with_log_size_numa d0 num af mem esize log_size) expect_object"

text \<open>
  The start of a run: the object is created and one thread per processor is spawned, which registers
  with its replica. The threads register one after the other here, in the order of the map.
\<close>

fun spawn_threads :: "(nat \<times> nat) list \<Rightarrow> ('d, 'op, 'r) node_replicated \<Rightarrow> ((thread_token \<times> nat) list \<times> ('d, 'op, 'r) node_replicated) run" where
  "spawn_threads [] ds = Inr ([], ds)"
| "spawn_threads ((r, core_id) # ts) ds =
     (case nr_register r ds of
        (None, _) \<Rightarrow> Inl (Panic ''Can't register replica, out of slots?'')
      | (Some tkn, ds1) \<Rightarrow> bind_run (spawn_threads ts ds1) (\<lambda>(tkns, ds2). Inr ((tkn, core_id) # tkns, ds2)))"

definition rm_slots :: "replica_map \<Rightarrow> (nat \<times> nat) list" where
  "rm_slots rm = concat (map (\<lambda>(r, cs). map (Pair r) cs) rm)"

definition startup_threads :: "bool \<Rightarrow> 'd \<Rightarrow> affinity_fn \<Rightarrow> (nat \<Rightarrow> bool) \<Rightarrow> nat \<Rightarrow> nat \<Rightarrow> replica_map
    \<Rightarrow> ((thread_token \<times> nat) list \<times> ('d, 'op, 'r) node_replicated) run" where
  "startup_threads numa d0 af mem esize log_size rm =
     (if rm_replicas rm = 0 then Inl unwrap_panic
      else bind_run (if numa then ds_new_numa d0 af mem esize (rm_replicas rm) log_size
                     else ds_new d0 af mem esize (rm_replicas rm) log_size) (spawn_threads (rm_slots rm)))"

section \<open>Groups\<close>

lemma update_fresh: "k \<notin> fst ` set al \<Longrightarrow> AList.update k v al = al @ [(k, v)]"
  by (induction al) auto

lemma place_groups_append:
  assumes "\<And>s. s \<in> set ss \<Longrightarrow> rep s = Inr (g s)" "distinct ss" "inj_on g (set ss)" "fst ` set rm \<inter> g ` set ss = {}"
  shows "place_groups key rep cpus ss rm = Inr (rm @ map (\<lambda>s. (g s, map ci_cpu (filter (\<lambda>c. key c = s) cpus))) ss)"
  using assms
proof (induction ss arbitrary: rm)
  case (Cons s ss)
  let ?e = "(g s, map ci_cpu (filter (\<lambda>c. key c = s) cpus))"
  have "AList.update (g s) (snd ?e) rm = rm @ [?e]" using Cons.prems(4) by (simp add: update_fresh)
  moreover have "place_groups key rep cpus ss (rm @ [?e]) = Inr ((rm @ [?e]) @ map (\<lambda>s. (g s, map ci_cpu (filter (\<lambda>c. key c = s) cpus))) ss)"
    by (rule Cons.IH) (use Cons.prems in \<open>auto simp: inj_on_def\<close>)
  ultimately show ?case using Cons.prems(1) by simp
qed simp

lemma mset_groups:
  "distinct ss \<Longrightarrow> mset (concat (map (\<lambda>s. map f (filter (\<lambda>c. key c = s) cpus)) ss)) = image_mset f {#c \<in># mset cpus. key c \<in> set ss#}"
proof (induction ss)
  case (Cons s ss)
  have "{#c \<in># mset cpus. key c = s \<or> key c \<in> set ss#} = {#c \<in># mset cpus. key c = s#} + {#c \<in># mset cpus. key c \<in> set ss#}"
    using Cons.prems by (auto intro!: multiset_eqI)
  then show ?case using Cons by simp
qed simp

definition splits :: "replica_map \<Rightarrow> cpu_info list \<Rightarrow> bool" where
  "splits rm cpus \<longleftrightarrow> distinct (map fst rm) \<and> distinct (concat (map snd rm))
     \<and> mset (concat (map snd rm)) = mset (map ci_cpu cpus) \<and> rm_threads rm = length cpus"

lemma splitsI:
  assumes "distinct (map fst rm)" "mset (concat (map snd rm)) = mset (map ci_cpu cpus)" "distinct (map ci_cpu cpus)"
  shows "splits rm cpus"
  using assms mset_eq_imp_distinct_iff [OF assms(2)] mset_eq_length [OF assms(2)]
  by (simp add: splits_def rm_threads_def length_concat comp_def)

lemma group_by_splits:
  assumes d: "distinct (map ci_cpu cpus)" and rep: "\<And>c. c \<in> set cpus \<Longrightarrow> rep (key c) = Inr (g (key c))" and g: "inj_on g (key ` set cpus)"
  shows "\<exists>rm. group_by key rep cpus = Inr rm \<and> splits rm cpus
    \<and> (\<forall>c\<in>set cpus. map_of rm (g (key c)) = Some (map ci_cpu (filter (\<lambda>c'. key c' = key c) cpus)))"
proof -
  let ?ss = "remdups_adj (sort (map key cpus))"
  let ?rm = "map (\<lambda>s. (g s, map ci_cpu (filter (\<lambda>c. key c = s) cpus))) ?ss"
  have ss: "distinct ?ss" "set ?ss = key ` set cpus" by (simp_all add: sorted_dedup)
  have run: "group_by key rep cpus = Inr ?rm"
    unfolding group_by_def using place_groups_append [of ?ss rep g "[]" key cpus] ss rep g by auto
  have fsts: "map fst ?rm = map g ?ss" by simp
  have "splits ?rm cpus"
  proof (rule splitsI [OF _ _ d])
    show "distinct (map fst ?rm)" unfolding fsts using ss g by (simp add: distinct_map)
    have "mset (concat (map snd ?rm)) = image_mset ci_cpu {#c \<in># mset cpus. key c \<in> set ?ss#}"
      using mset_groups [OF ss(1), of ci_cpu key cpus] by (simp add: comp_def)
    also have "{#c \<in># mset cpus. key c \<in> set ?ss#} = mset cpus" unfolding ss(2) by (simp add: filter_mset_eq_conv)
    finally show "mset (concat (map snd ?rm)) = mset (map ci_cpu cpus)" by simp
  qed
  moreover have "map_of ?rm (g (key c)) = Some (map ci_cpu (filter (\<lambda>c'. key c' = key c) cpus))" if "c \<in> set cpus" for c
    using that ss g by (intro map_of_is_SomeI) (auto simp: distinct_map comp_def)
  ultimately show ?thesis using run by blast
qed

text \<open>The numbers of the caches are distinct and every cache in use has one.\<close>

lemma number_caches_inv:
  assumes "distinct (map fst m)" "distinct (map snd m)" "\<forall>v\<in>snd ` set m. v < n"
  shows "distinct (map fst (number_caches cs n m)) \<and> distinct (map snd (number_caches cs n m))
    \<and> fst ` set (number_caches cs n m) = fst ` set m \<union> ci_l1 ` set cs"
  using assms
proof (induction cs arbitrary: n m)
  case (Cons c cs)
  show ?case
  proof (cases "map_of m (ci_l1 c) = None")
    case True
    then have new: "ci_l1 c \<notin> fst ` set m" by (simp add: map_of_eq_None_iff)
    have "distinct (map fst (number_caches cs (n + 1) (m @ [(ci_l1 c, n)]))) \<and> distinct (map snd (number_caches cs (n + 1) (m @ [(ci_l1 c, n)])))
        \<and> fst ` set (number_caches cs (n + 1) (m @ [(ci_l1 c, n)])) = fst ` set (m @ [(ci_l1 c, n)]) \<union> ci_l1 ` set cs"
      by (rule Cons.IH) (use Cons.prems new in fastforce)+
    then show ?thesis using True new by (auto simp: update_fresh)
  next
    case False
    then have "ci_l1 c \<in> fst ` set m" by (simp add: map_of_eq_None_iff)
    then show ?thesis using False Cons.IH [OF Cons.prems] by auto
  qed
qed simp

lemma cache_rid_inj:
  "\<exists>g. (\<forall>c\<in>set cpus. cache_rid cpus (ci_l1 c) = Inr (g (ci_l1 c))) \<and> inj_on g (ci_l1 ` set cpus)"
proof -
  let ?m = "number_caches cpus 0 []"
  have m: "distinct (map fst ?m)" "distinct (map snd ?m)" "fst ` set ?m = ci_l1 ` set cpus" using number_caches_inv [of "[]" 0 cpus] by simp_all
  define g where "g = the \<circ> map_of ?m"
  have g: "map_of ?m k = Some (g k)" if "k \<in> ci_l1 ` set cpus" for k
    using that m(1,3) by (cases "map_of ?m k") (auto simp: g_def map_of_eq_None_iff)
  have "inj_on g (ci_l1 ` set cpus)"
  proof (rule inj_onI)
    fix k k' assume k: "k \<in> ci_l1 ` set cpus" "k' \<in> ci_l1 ` set cpus" "g k = g k'"
    then have "(k, g k) \<in> set ?m" "(k', g k) \<in> set ?m" using g [OF k(1)] g [OF k(2)] by (auto dest: map_of_SomeD)
    then show "k = k'" using m(2) unfolding distinct_map by (metis inj_onD fst_conv snd_conv)
  qed
  then show ?thesis using g by (auto simp: cache_rid_def intro!: exI [of _ g])
qed

lemma place_each_append:
  "fst ` set rm \<subseteq> {..<n} \<Longrightarrow> place_each n cs rm = rm @ zip [n..<n + length cs] (map (\<lambda>c. [c]) cs)"
proof (induction cs arbitrary: n rm)
  case (Cons c cs)
  have "AList.update n [c] rm = rm @ [(n, [c])]" using Cons.prems by (intro update_fresh) auto
  moreover have "fst ` set (rm @ [(n, [c])]) \<subseteq> {..<n + 1}" using Cons.prems by auto
  moreover have "[n..<n + length (c # cs)] = n # [n + 1..<n + 1 + length cs]" by (simp add: upt_conv_Cons del: upt_Suc flip: Suc_eq_plus1)
  ultimately show ?case using Cons.IH [of "rm @ [(n, [c])]" "n + 1"] by (simp del: upt_Suc list.size)
qed simp

lemma place_each_splits:
  assumes "distinct (map ci_cpu cpus)" shows "splits (place_each 0 (map ci_cpu cpus) []) cpus"
proof -
  let ?rm = "zip [0..<length cpus] (map (\<lambda>c. [ci_cpu c]) cpus)"
  have "place_each 0 (map ci_cpu cpus) [] = ?rm" using place_each_append [of "[]" 0 "map ci_cpu cpus"] by (simp add: comp_def)
  moreover have "concat (map snd ?rm) = map ci_cpu cpus" by (simp add: concat_map_singleton)
  ultimately show ?thesis using assms by (simp add: splitsI)
qed

lemma halves_split:
  assumes "distinct (map ci_cpu cpus)"
  shows "splits (AList.update 1 (map ci_cpu (drop m cpus)) (AList.update 0 (map ci_cpu (take m cpus)) [])) cpus"
  by (rule splitsI) (use assms in \<open>simp_all flip: map_append mset_append\<close>)

section \<open>Registration\<close>

lemma spawn_threads_outcome:
  assumes "nr_inv scr D d0 h nr" "nr_quiet nr"
    and "\<forall>j<length (replicas nr). rep_next (replicas nr ! j) + length ts \<le> MAX_THREADS_PER_REPLICA + 1"
  shows "if \<forall>x\<in>fst ` set ts. x < length (replicas nr)
    then \<exists>tkns nr'. spawn_threads ts nr = Inr (tkns, nr') \<and> distinct (map fst tkns) \<and> map snd tkns = map snd ts \<and> map (rid \<circ> fst) tkns = map fst ts
      \<and> (\<forall>t\<in>set tkns. \<not> token_ok (fst t) nr \<and> token_ok (fst t) nr') \<and> (\<forall>t. token_ok t nr \<longrightarrow> token_ok t nr')
    else spawn_threads ts nr = Inl (Panic ''Can't register replica, out of slots?'')"
  using assms
proof (induction ts arbitrary: nr)
  case (Cons x ts)
  obtain r c where x: "x = (r, c)" by (cases x)
  show ?case
  proof (cases "r < length (replicas nr)")
    case True
    with Cons.prems obtain tkn nr1 where t: "nr_register r nr = (Some tkn, nr1)" "rid tkn = r" "token_ok tkn nr1" "\<not> token_ok tkn nr"
      "nr_inv scr D d0 h nr1" "nr_quiet nr1" "length (replicas nr1) = length (replicas nr)" "\<forall>t. token_ok t nr \<longrightarrow> token_ok t nr1"
      "\<forall>j<length (replicas nr). rep_next (replicas nr1 ! j) \<le> rep_next (replicas nr ! j) + 1"
      using nr_register_ok [OF Cons.prems(1,2), of r] by fastforce
    have "\<forall>j<length (replicas nr1). rep_next (replicas nr1 ! j) + length ts \<le> MAX_THREADS_PER_REPLICA + 1"
      using Cons.prems(3) t(7,9) by fastforce
    note IH = Cons.IH [OF t(5,6) this]
    show ?thesis
    proof (cases "\<forall>x\<in>fst ` set ts. x < length (replicas nr1)")
      case ok: True
      with IH obtain tkns nr' where "spawn_threads ts nr1 = Inr (tkns, nr')" "distinct (map fst tkns)" "map snd tkns = map snd ts"
        "map (rid \<circ> fst) tkns = map fst ts" "\<forall>t\<in>set tkns. \<not> token_ok (fst t) nr1 \<and> token_ok (fst t) nr'" "\<forall>t. token_ok t nr1 \<longrightarrow> token_ok t nr'" by auto
      then show ?thesis using ok True t by (auto simp: x intro!: exI [of _ "(tkn, c) # tkns"] exI [of _ nr'])
    next
      case False
      with IH have "spawn_threads ts nr1 = Inl (Panic ''Can't register replica, out of slots?'')" by (simp split: if_splits)
      then show ?thesis using False t(1,7) by (auto simp: x)
    qed
  next
    case False
    then show ?thesis by (auto simp: x nr_register_def)
  qed
qed simp

lemma rm_slots_rids: "fst ` set (rm_slots rm) = {r. \<exists>cs. (r, cs) \<in> set rm \<and> cs \<noteq> []}" "map snd (rm_slots rm) = concat (map snd rm)"
  "length (rm_slots rm) = rm_threads rm"
proof -
  have "r \<in> fst ` set (rm_slots rm) \<longleftrightarrow> (\<exists>cs. (r, cs) \<in> set rm \<and> (\<exists>c. c \<in> set cs))" for r
    by (induction rm) (auto simp: rm_slots_def image_Un image_image)
  moreover have "(\<exists>c. c \<in> set cs) \<longleftrightarrow> cs \<noteq> []" for cs :: "nat list" by (cases cs) auto
  ultimately show "fst ` set (rm_slots rm) = {r. \<exists>cs. (r, cs) \<in> set rm \<and> cs \<noteq> []}" by (intro set_eqI) simp
  show "map snd (rm_slots rm) = concat (map snd rm)" "length (rm_slots rm) = rm_threads rm"
    by (induction rm) (auto simp: rm_slots_def rm_threads_def comp_def)
qed

section \<open>Properties\<close>


lemma small_machine_ids: "distinct (map ci_cpu (cpu_data small_machine))"
  by (simp add: small_machine_def)




end
