(* ===== verification/Bench_Run.thy ===== *)
theory Bench_Run
  imports Bench_Placement
begin

text \<open>
  The runs of the benchmark harness: \<open>bench_utils/src/mkbench.rs\<close>, \<open>bench_utils/src/benchmark.rs\<close> and \<open>bench_utils/src/lib.rs\<close>.
  Times are nanoseconds. The readings of the clock are an argument, one list entry for each turn of
  a measuring loop; a loop that runs out of readings is \<open>Hang\<close>, as the loops end only when the
  clock passes the end of the experiment. Output to files is the list of the rows.
\<close>

section \<open>Configuration\<close>

datatype ('ro, 'op) bench_op = ReadOperation 'ro | WriteOperation 'op

definition SECOND :: nat where
  "SECOND = 1000000000"

record ('ro, 'op) scale_bench_builder =
  sb_replica_strategies :: "replica_strategy list"
  sb_log_strategies :: "log_strategy list"
  sb_thread_mappings :: "thread_mapping list"
  sb_threads :: "nat list"
  sb_batches :: "nat list"
  sb_log_size :: nat
  sb_stripe_len :: nat
  sb_operations :: "('ro, 'op) bench_op list"
  sb_load_vec :: "('ro, 'op) bench_op list"
  sb_numa :: bool

definition builder_new :: "('ro, 'op) bench_op list \<Rightarrow> ('ro, 'op) scale_bench_builder" where
  "builder_new ops = \<lparr>sb_replica_strategies = [], sb_log_strategies = [], sb_thread_mappings = [], sb_threads = [],
     sb_batches = [1], sb_log_size = DEFAULT_LOG_BYTES, sb_stripe_len = 0, sb_operations = ops, sb_load_vec = [], sb_numa = False\<rparr>"

definition builder_add_batch :: "nat \<Rightarrow> ('ro, 'op) scale_bench_builder \<Rightarrow> ('ro, 'op) scale_bench_builder" where
  "builder_add_batch b sb = sb\<lparr>sb_batches := sb_batches sb @ [b]\<rparr>"

definition builder_update_batch :: "nat \<Rightarrow> ('ro, 'op) scale_bench_builder \<Rightarrow> ('ro, 'op) scale_bench_builder" where
  "builder_update_batch b sb = sb\<lparr>sb_batches := [b]\<rparr>"

definition builder_threads :: "nat \<Rightarrow> ('ro, 'op) scale_bench_builder \<Rightarrow> ('ro, 'op) scale_bench_builder" where
  "builder_threads t sb = sb\<lparr>sb_threads := sb_threads sb @ [t]\<rparr>"

definition builder_thread_mapping :: "thread_mapping \<Rightarrow> ('ro, 'op) scale_bench_builder \<Rightarrow> ('ro, 'op) scale_bench_builder" where
  "builder_thread_mapping tm sb = sb\<lparr>sb_thread_mappings := sb_thread_mappings sb @ [tm]\<rparr>"

definition builder_replica_strategy :: "replica_strategy \<Rightarrow> ('ro, 'op) scale_bench_builder \<Rightarrow> ('ro, 'op) scale_bench_builder" where
  "builder_replica_strategy rs sb = sb\<lparr>sb_replica_strategies := sb_replica_strategies sb @ [rs]\<rparr>"

definition builder_log_strategy :: "log_strategy \<Rightarrow> ('ro, 'op) scale_bench_builder \<Rightarrow> ('ro, 'op) scale_bench_builder" where
  "builder_log_strategy ls sb = sb\<lparr>sb_log_strategies := sb_log_strategies sb @ [ls]\<rparr>"

definition builder_log_size :: "nat \<Rightarrow> ('ro, 'op) scale_bench_builder \<Rightarrow> ('ro, 'op) scale_bench_builder" where
  "builder_log_size ls sb = sb\<lparr>sb_log_size := ls\<rparr>"

definition builder_loadop_vec :: "('ro, 'op) bench_op list \<Rightarrow> ('ro, 'op) scale_bench_builder \<Rightarrow> ('ro, 'op) scale_bench_builder" where
  "builder_loadop_vec ops sb = sb\<lparr>sb_load_vec := ops\<rparr>"

definition builder_op_stripe_len :: "nat \<Rightarrow> ('ro, 'op) scale_bench_builder \<Rightarrow> ('ro, 'op) scale_bench_builder" where
  "builder_op_stripe_len n sb = sb\<lparr>sb_stripe_len := n\<rparr>"

definition builder_set_numa :: "bool \<Rightarrow> ('ro, 'op) scale_bench_builder \<Rightarrow> ('ro, 'op) scale_bench_builder" where
  "builder_set_numa numa sb = sb\<lparr>sb_numa := numa\<rparr>"

text \<open>The values of \<open>(0..n).step_by(step)\<close>, which panics for step 0.\<close>

definition step_by :: "nat \<Rightarrow> nat \<Rightarrow> nat list run" where
  "step_by n step = (if step = 0 then Inl (Panic ''assertion failed: step != 0'') else Inr (filter (\<lambda>t. t mod step = 0) [0..<n]))"

definition builder_thread_defaults :: "machine_topology \<Rightarrow> ('ro, 'op) scale_bench_builder \<Rightarrow> ('ro, 'op) scale_bench_builder run" where
  "builder_thread_defaults topology sb =
     (let max_cores = (if sb_numa sb then cores topology div 2 else cores topology)
      in bind_run (array_get (sockets topology) 0) (\<lambda>s0.
         bind_run (step_by (max_cores + 1) (length (cpus_on_socket topology s0) div 4)) (\<lambda>ts.
           let sb1 = fold (\<lambda>t. builder_threads (if t = 0 then t + 1 else t)) ts sb
           in Inr (sb1\<lparr>sb_threads := sort (sb_threads sb1)\<rparr>))))"

text \<open>\<open>exhaustive\<close> is a feature of the build.\<close>

definition builder_machine_defaults :: "bool \<Rightarrow> machine_topology \<Rightarrow> ('ro, 'op) scale_bench_builder \<Rightarrow> ('ro, 'op) scale_bench_builder run" where
  "builder_machine_defaults exhaustive topology sb =
     (let sb1 = builder_thread_mapping Sequential sb;
          sb2 = (if exhaustive then builder_replica_strategy RsOne sb1 else sb1);
          sb3 = builder_replica_strategy RsSocket sb2;
          sb4 = (if exhaustive then builder_replica_strategy RsL1 sb3 else sb3)
      in builder_thread_defaults topology sb4)"

record ('ro, 'op) scale_benchmark =
  bm_name :: string
  bm_rs :: replica_strategy
  bm_tm :: thread_mapping
  bm_ts :: nat
  bm_ls :: log_strategy
  bm_rm :: replica_map
  bm_log_size :: nat
  bm_stripe_len :: nat
  bm_operations :: "('ro, 'op) bench_op list"
  bm_load_vec :: "('ro, 'op) bench_op list"
  bm_duration :: nat
  bm_batch_size :: nat
  bm_numa :: bool

definition benchmark_new :: "(cpu_info list \<Rightarrow> cpu_info list \<Rightarrow> cpu_info list) \<Rightarrow> string \<Rightarrow> machine_topology \<Rightarrow> replica_strategy \<Rightarrow> log_strategy
    \<Rightarrow> thread_mapping \<Rightarrow> nat \<Rightarrow> nat \<Rightarrow> nat \<Rightarrow> nat \<Rightarrow> ('ro, 'op) bench_op list \<Rightarrow> ('ro, 'op) bench_op list \<Rightarrow> nat \<Rightarrow> bool
    \<Rightarrow> ('ro, 'op) scale_benchmark run" where
  "benchmark_new il name topology rs ls tm ts log_size stripe_len duration ops load_vec batch_size numa =
     bind_run (replica_core_allocation il topology rs tm ts) (\<lambda>rm.
       Inr \<lparr>bm_name = name, bm_rs = rs, bm_tm = tm, bm_ts = ts, bm_ls = ls, bm_rm = rm, bm_log_size = log_size,
            bm_stripe_len = stripe_len, bm_operations = ops, bm_load_vec = load_vec, bm_duration = duration,
            bm_batch_size = batch_size, bm_numa = numa\<rparr>)"

text \<open>
  \<open>configure\<close> and \<open>configure_new\<close> run one benchmark after the other; \<open>run_one\<close> is the start and the end of a run.
\<close>

definition bench_points :: "('ro, 'op) scale_bench_builder \<Rightarrow> (replica_strategy \<times> log_strategy \<times> thread_mapping \<times> nat \<times> nat) list" where
  "bench_points sb = concat (map (\<lambda>rs. concat (map (\<lambda>ls. concat (map (\<lambda>tm. concat (map (\<lambda>ts. map (\<lambda>b. (rs, ls, tm, ts, b))
     (sb_batches sb)) (sb_threads sb))) (sb_thread_mappings sb))) (sb_log_strategies sb))) (sb_replica_strategies sb))"

fun run_points :: "(cpu_info list \<Rightarrow> cpu_info list \<Rightarrow> cpu_info list) \<Rightarrow> string \<Rightarrow> machine_topology \<Rightarrow> nat \<Rightarrow> ('ro, 'op) scale_bench_builder
    \<Rightarrow> (('ro, 'op) scale_benchmark \<Rightarrow> 'w \<Rightarrow> 'w run) \<Rightarrow> (replica_strategy \<times> log_strategy \<times> thread_mapping \<times> nat \<times> nat) list \<Rightarrow> 'w \<Rightarrow> 'w run" where
  "run_points il name topology duration sb run_one [] w = Inr w"
| "run_points il name topology duration sb run_one ((rs, ls, tm, ts, b) # ps) w =
     bind_run (benchmark_new il name topology rs ls tm ts (sb_log_size sb) (sb_stripe_len sb) duration (sb_operations sb)
         (sb_load_vec sb) b (sb_numa sb)) (\<lambda>runner.
     bind_run (run_one runner w) (run_points il name topology duration sb run_one ps))"

definition configure :: "(cpu_info list \<Rightarrow> cpu_info list \<Rightarrow> cpu_info list) \<Rightarrow> machine_topology \<Rightarrow> string \<Rightarrow> nat \<Rightarrow> ('ro, 'op) scale_bench_builder
    \<Rightarrow> (('ro, 'op) scale_benchmark \<Rightarrow> 'w \<Rightarrow> 'w run) \<Rightarrow> 'w \<Rightarrow> 'w run" where
  "configure il topology name duration sb run_one w = run_points il name topology duration sb run_one (bench_points sb) w"

section \<open>Harness\<close>

record bencher =
  measurement_time :: nat
  iterations :: nat

definition bencher_new :: "nat \<Rightarrow> bencher" where
  "bencher_new duration = \<lparr>measurement_time = duration, iterations = 0\<rparr>"

definition bencher_iter :: "(nat \<times> 's) run \<Rightarrow> bencher \<Rightarrow> (bencher \<times> 's) run" where
  "bencher_iter routine b = bind_run routine (\<lambda>(n, s). Inr (b\<lparr>iterations := iterations b + n\<rparr>, s))"

definition bencher_iter_custom :: "(nat \<Rightarrow> (nat \<times> 's) run) \<Rightarrow> bencher \<Rightarrow> (bencher \<times> 's) run" where
  "bencher_iter_custom routine b = bind_run (routine (measurement_time b)) (\<lambda>(n, s). Inr (b\<lparr>iterations := n\<rparr>, s))"

text \<open>\<open>smokebench\<close> is a feature of the build; the result is the duration of the harness.\<close>

definition harness_new :: "bool \<Rightarrow> nat \<Rightarrow> nat" where
  "harness_new smokebench d = (if smokebench then 500 * 1000000 else d)"

definition harness_default :: "bool \<Rightarrow> nat" where
  "harness_default smokebench = harness_new smokebench (if smokebench then 500 * 1000000 else 20 * SECOND)"

section \<open>Comparison with the plain data structure\<close>

text \<open>
  The counters of a measuring loop: operations since the last report, the position in the list of
  operations, the time of the next report, and the reports.
\<close>

record meter =
  m_completed :: nat
  m_iter :: nat
  m_next_log :: nat
  m_per_second :: "nat list"

definition meter_start :: "nat \<Rightarrow> meter" where
  "meter_start start = \<lparr>m_completed = 0, m_iter = 0, m_next_log = start + SECOND, m_per_second = []\<rparr>"

definition meter_report :: "nat \<Rightarrow> meter \<Rightarrow> meter" where
  "meter_report now m =
     (if now \<ge> m_next_log m
      then m\<lparr>m_per_second := m_per_second m @ [m_completed m], m_completed := 0, m_next_log := m_next_log m + SECOND\<rparr>
      else m)"

text \<open>The loop of \<open>baseline_comparison\<close>; \<open>exec_op\<close> runs one operation. A turn reads the clock twice.\<close>

fun baseline_loop :: "('o \<Rightarrow> 's \<Rightarrow> 's run) \<Rightarrow> 'o list \<Rightarrow> nat \<Rightarrow> (nat \<times> nat) list \<Rightarrow> meter \<Rightarrow> 's \<Rightarrow> (meter \<times> 's) run" where
  "baseline_loop exec_op ops end_experiment [] m s = Inl Hang"
| "baseline_loop exec_op ops end_experiment ((now1, now2) # clock) m s =
     (if \<not> now1 < end_experiment then Inr (m, s)
      else if ops = [] then Inl (Panic ''attempt to calculate the remainder with a divisor of zero'')
      else bind_run (exec_op (ops ! (m_iter m mod length ops)) s) (\<lambda>s1.
             baseline_loop exec_op ops end_experiment clock
               (meter_report now2 (m\<lparr>m_completed := m_completed m + 1, m_iter := m_iter m + 1\<rparr>)) s1))"

text \<open>The last second is dropped when all of them were measured; the routine returns the unreported operations.\<close>

definition drop_last_second :: "nat \<Rightarrow> nat list \<Rightarrow> nat list" where
  "drop_last_second duration rates = (if length rates = duration div SECOND then butlast rates else rates)"

definition baseline_measure :: "('o \<Rightarrow> 's \<Rightarrow> 's run) \<Rightarrow> 'o list \<Rightarrow> nat \<Rightarrow> nat \<Rightarrow> (nat \<times> nat) list \<Rightarrow> 's \<Rightarrow> (nat \<times> nat list \<times> 's) run" where
  "baseline_measure exec_op ops duration start clock s =
     bind_run (baseline_loop exec_op ops (start + duration) clock (meter_start start) s) (\<lambda>(m, s').
       Inr (m_completed m, drop_last_second duration (m_per_second m), s'))"

fun direct_op :: "('d, 'ro, 'op, 'r) dispatcher \<Rightarrow> ('ro, 'op) bench_op \<Rightarrow> 'd \<Rightarrow> 'd run" where
  "direct_op D (ReadOperation ro) d = bind_run (dispatch D d ro) (\<lambda>_. Inr d)"
| "direct_op D (WriteOperation oper) d = bind_run (dispatch_mut D oper d) (\<lambda>(_, d'). Inr d')"

fun object_op :: "('op \<Rightarrow> 't \<Rightarrow> 's \<Rightarrow> ('r \<times> 's) run) \<Rightarrow> ('ro \<Rightarrow> 't \<Rightarrow> 's \<Rightarrow> ('r \<times> 's) run) \<Rightarrow> 't \<Rightarrow> ('ro, 'op) bench_op \<Rightarrow> 's \<Rightarrow> 's run" where
  "object_op wr rd tkn (ReadOperation ro) s = bind_run (rd ro tkn s) (\<lambda>(_, s'). Inr s')"
| "object_op wr rd tkn (WriteOperation oper) s = bind_run (wr oper tkn s) (\<lambda>(_, s'). Inr s')"

definition replicated_op :: "bool \<Rightarrow> affinity_fn \<Rightarrow> (nat \<Rightarrow> env) \<Rightarrow> ('d, 'ro, 'op, 'r) dispatcher \<Rightarrow> nat \<Rightarrow> nat \<Rightarrow> thread_token
    \<Rightarrow> ('ro, 'op) bench_op \<Rightarrow> ('d, 'op, 'r) node_replicated \<Rightarrow> ('d, 'op, 'r) node_replicated run" where
  "replicated_op scr af env D m n = object_op (execute_mut scr af env D m n) (execute scr af env D m n)"

record result_row =
  row_name :: string
  row_batch_size :: nat
  row_duration :: nat
  row_second :: nat
  row_iterations :: nat

definition write_results :: "string \<Rightarrow> nat \<Rightarrow> nat list \<Rightarrow> result_row list" where
  "write_results name duration rates =
     map (\<lambda>(idx, ops). \<lparr>row_name = name, row_batch_size = 1, row_duration = duration, row_second = idx + 1, row_iterations = ops\<rparr>)
       (zip [0..<length rates] rates)"

text \<open>
  The rows and the final states of both measurements: of the data structure alone, and of one with a
  log in front. \<open>clock1\<close>, \<open>clock2\<close> are the readings of the two loops.
\<close>

definition baseline_comparison :: "bool \<Rightarrow> (nat \<Rightarrow> env) \<Rightarrow> ('d, 'ro, 'op, 'r) dispatcher \<Rightarrow> nat \<Rightarrow> nat \<Rightarrow> (nat \<Rightarrow> bool) \<Rightarrow> nat \<Rightarrow> 'd \<Rightarrow> nat \<Rightarrow> string
    \<Rightarrow> ('ro, 'op) bench_op list \<Rightarrow> nat \<Rightarrow> nat \<times> (nat \<times> nat) list \<Rightarrow> nat \<times> (nat \<times> nat) list
    \<Rightarrow> ((result_row list \<times> 'd) \<times> (result_row list \<times> ('d, 'op, 'r) node_replicated)) run" where
  "baseline_comparison scr env D m n mem esize d0 duration name ops log_size clock1 clock2 =
     bind_run (baseline_measure (direct_op D) ops duration (fst clock1) (snd clock1) d0) (\<lambda>(_, rates1, d).
     bind_run (with_log_size d0 1 (\<lambda>_ _. 0) mem esize log_size) (\<lambda>r.
       case r of
         Inl _ \<Rightarrow> Inl (Panic ''Can't create NodeReplicated'')
       | Inr nr \<Rightarrow>
           (case nr_register 0 nr of
              (None, _) \<Rightarrow> Inl (Panic ''Failed to register with Replica.'')
            | (Some ridx, nr1) \<Rightarrow>
                bind_run (baseline_measure (replicated_op scr (\<lambda>_ _. 0) env D m n ridx) ops duration (fst clock2) (snd clock2) nr1) (\<lambda>(_, rates2, nr2).
                  Inr ((write_results (name @ ''-baseline'') duration rates1, d), (write_results (name @ ''-log'') duration rates2, nr2))))))"

section \<open>Worker threads\<close>

definition stripe_of :: "nat \<Rightarrow> 'o list \<Rightarrow> nat \<Rightarrow> 'o list run" where
  "stripe_of stripe_len ops core_id =
     (if stripe_len > 0
      then let start = core_id * stripe_len; stop = (core_id + 1) * stripe_len
           in if stop \<le> length ops then Inr (take (stop - start) (drop start ops)) else Inl index_panic
      else Inr ops)"

fun run_each :: "('o \<Rightarrow> 's \<Rightarrow> 's run) \<Rightarrow> 'o list \<Rightarrow> 's \<Rightarrow> 's run" where
  "run_each f [] s = Inr s"
| "run_each f (x # xs) s = bind_run (f x s) (run_each f xs)"

text \<open>One batch: the operations are taken in turn.\<close>

fun batch_loop :: "nat \<Rightarrow> ('o \<Rightarrow> 's \<Rightarrow> 's run) \<Rightarrow> 'o list \<Rightarrow> nat \<Rightarrow> 's \<Rightarrow> (nat \<times> 's) run" where
  "batch_loop 0 f ops iter s = Inr (iter, s)"
| "batch_loop (Suc k) f ops iter s =
     bind_run (array_get ops iter) (\<lambda>x. bind_run (f x s) (\<lambda>s1. batch_loop k f ops ((iter + 1) mod length ops) s1))"

record worker_meter =
  w_completed :: nat
  w_iter :: nat
  w_next_log :: nat
  w_per_second :: "nat list"
  w_ttl_ops :: nat
  w_latency :: "nat list"

definition worker_report :: "nat \<Rightarrow> worker_meter \<Rightarrow> worker_meter" where
  "worker_report now w =
     (if now \<ge> w_next_log w
      then w\<lparr>w_latency := w_latency w @ [if w_completed w > 0 then SECOND div w_completed w else 0],
             w_per_second := w_per_second w @ [w_completed w], w_ttl_ops := w_ttl_ops w + w_completed w,
             w_completed := 0, w_next_log := w_next_log w + SECOND\<rparr>
      else w)"

fun worker_loop :: "nat \<Rightarrow> ('o \<Rightarrow> 's \<Rightarrow> 's run) \<Rightarrow> 'o list \<Rightarrow> nat \<Rightarrow> (nat \<times> nat) list \<Rightarrow> worker_meter \<Rightarrow> 's \<Rightarrow> (worker_meter \<times> 's) run" where
  "worker_loop batch_size f ops end_experiment [] w s = Inl Hang"
| "worker_loop batch_size f ops end_experiment ((now1, now2) # clock) w s =
     (if \<not> now1 < end_experiment then Inr (w, s)
      else bind_run (batch_loop batch_size f ops (w_iter w) s) (\<lambda>(iter, s1).
             worker_loop batch_size f ops end_experiment clock
               (worker_report now2 (w\<lparr>w_iter := iter, w_completed := w_completed w + batch_size\<rparr>)) s1))"

text \<open>
  The body of a thread after it has registered: the load operations on processor 10, then the loop
  over its operations, which \<open>shuffle\<close> has put in some order. The thread returns the processor, the
  number of operations and the latencies.
\<close>

definition worker :: "('o list \<Rightarrow> 'o list) \<Rightarrow> ('o \<Rightarrow> 's \<Rightarrow> 's run) \<Rightarrow> nat \<Rightarrow> nat \<Rightarrow> nat \<Rightarrow> 'o list \<Rightarrow> 'o list \<Rightarrow> nat \<Rightarrow> nat \<times> (nat \<times> nat) list
    \<Rightarrow> 's \<Rightarrow> ((nat \<times> nat \<times> nat list) \<times> 's) run" where
  "worker shuffle f batch_size duration stripe_len ops load_vec core_id clock s =
     bind_run (stripe_of stripe_len ops core_id) (\<lambda>own_ops.
     let load_ops = (if stripe_len > 0 then load_vec else [])
     in bind_run (if core_id = 10 then run_each f load_ops s else Inr s) (\<lambda>s1.
        bind_run (worker_loop batch_size f (shuffle own_ops) (fst clock + duration) (snd clock)
            \<lparr>w_completed = 0, w_iter = 0, w_next_log = fst clock + SECOND, w_per_second = [], w_ttl_ops = 0, w_latency = []\<rparr> s1) (\<lambda>(w, s2).
          Inr ((core_id, w_ttl_ops w, w_latency w), s2))))"

text \<open>
  The variant that runs every operation once: \<open>elapsed\<close> are the times of the operations and \<open>elapsed_ttl\<close> that
  of the whole loop.
\<close>

definition worker_new :: "('o list \<Rightarrow> 'o list) \<Rightarrow> ('o \<Rightarrow> 's \<Rightarrow> 's run) \<Rightarrow> nat \<Rightarrow> 'o list \<Rightarrow> 'o list \<Rightarrow> nat \<Rightarrow> (nat \<Rightarrow> nat) \<Rightarrow> nat
    \<Rightarrow> 's \<Rightarrow> ((nat \<times> nat \<times> nat list) \<times> 's) run" where
  "worker_new shuffle f stripe_len ops load_vec core_id elapsed elapsed_ttl s =
     bind_run (stripe_of stripe_len ops core_id) (\<lambda>own_ops.
     let load_ops = (if stripe_len > 0 then load_vec else [])
     in bind_run (if core_id = 10 then run_each f load_ops s else Inr s) (\<lambda>s1.
        bind_run (run_each f (shuffle own_ops) s1) (\<lambda>s2.
          let ttl_ops = length (shuffle own_ops); secs = elapsed_ttl div SECOND
          in if secs = 0 then Inl (Panic ''attempt to divide by zero'')
             else Inr ((core_id, ttl_ops div secs, map elapsed [0..<ttl_ops]), s2))))"

section \<open>Measuring a replicated object\<close>

context replicated_object
begin

lemma op_refines:
  assumes "rel d s" "ok t s" "direct_op D x d = Inr d'"
  shows "\<exists>s'. object_op wr rd t x s = Inr s' \<and> rel d' s' \<and> ok t s'"
proof (cases x)
  case (ReadOperation ro)
  from assms(3) obtain r where "dispatch D d ro = Inr r" "d' = d"
    unfolding ReadOperation direct_op.simps bind_run_Inr sum.inject by metis
  with rd_ok [OF assms(1,2)] obtain s' where "rd ro t s = Inr (r, s')" "rel d' s'" "\<forall>t. ok t s \<longrightarrow> ok t s'" by blast
  then show ?thesis using assms(2) by (simp add: ReadOperation)
next
  case (WriteOperation oper)
  from assms(3) obtain r where "dispatch_mut D oper d = Inr (r, d')"
    unfolding WriteOperation direct_op.simps bind_run_Inr split_paired_Ex prod.case sum.inject by metis
  from wr_ok [OF assms(1,2) this] obtain s' where "wr oper t s = Inr (r, s')" "rel d' s'" "\<forall>t. ok t s \<longrightarrow> ok t s'" by blast
  then show ?thesis using assms(2) by (simp add: WriteOperation)
qed

lemma loop_refines:
  assumes "rel d s" "ok t s" "baseline_loop (direct_op D) ops e clock m d = Inr (m', d')"
  shows "\<exists>s'. baseline_loop (object_op wr rd t) ops e clock m s = Inr (m', s') \<and> rel d' s' \<and> ok t s'"
  using assms
proof (induction "direct_op D" ops e clock m d arbitrary: s rule: baseline_loop.induct)
  case (2 ops e now1 now2 clock m d)
  show ?case
  proof (cases "now1 < e \<and> ops \<noteq> []")
    case True
    with 2(4) obtain d1 where d1: "direct_op D (ops ! (m_iter m mod length ops)) d = Inr d1"
      "baseline_loop (direct_op D) ops e clock (meter_report now2 (m\<lparr>m_completed := m_completed m + 1, m_iter := m_iter m + 1\<rparr>)) d1 = Inr (m', d')"
      by (auto simp: bind_run_Inr)
    from op_refines [OF 2(2,3) d1(1)] obtain s1 where s1: "object_op wr rd t (ops ! (m_iter m mod length ops)) s = Inr s1" "rel d1 s1" "ok t s1" by blast
    then show ?thesis using 2(1) [of d1 s1] d1 True by auto
  next
    case False
    then show ?thesis using 2(2-4) by (auto split: if_splits)
  qed
qed simp

end

section \<open>The operations of a worker\<close>

lemma run_each_append: "run_each f (xs @ ys) s = bind_run (run_each f xs s) (run_each f ys)"
  by (induction xs arbitrary: s) (auto simp: bind_run_assoc intro: bind_run_cong)

definition cycle_ops :: "'o list \<Rightarrow> nat \<Rightarrow> nat \<Rightarrow> 'o list" where
  "cycle_ops ops i n = map (\<lambda>j. ops ! ((i + j) mod length ops)) [0..<n]"

lemma cycle_ops_append: "cycle_ops ops i (m + n) = cycle_ops ops i m @ cycle_ops ops (i + m) n"
  by (induction n) (simp_all add: cycle_ops_def add.assoc)

lemma batch_loop_cycle:
  assumes "iter < length ops"
  shows "batch_loop k f ops iter s = bind_run (run_each f (cycle_ops ops iter k) s) (\<lambda>s'. Inr ((iter + k) mod length ops, s'))"
  using assms
proof (induction k arbitrary: iter s)
  case 0
  then show ?case by (simp add: cycle_ops_def)
next
  case (Suc k)
  have n: "ops \<noteq> []" "0 < length ops" using Suc.prems by auto
  have c: "cycle_ops ops iter (Suc k) = ops ! iter # cycle_ops ops ((iter + 1) mod length ops) k"
    using cycle_ops_append [of ops iter 1 k] Suc.prems by (simp add: cycle_ops_def mod_simps add.assoc)
  show ?case unfolding c using Suc.prems n by (auto simp: Suc.IH bind_run_assoc mod_simps intro!: bind_run_cong)
qed

lemma worker_loop_cycle:
  assumes "worker_loop b f ops e clock w s = Inr (w', s')" "w_iter w < length ops"
  shows "\<exists>turns rates. run_each f (cycle_ops ops (w_iter w) (turns * b)) s = Inr s'
    \<and> w_per_second w' = w_per_second w @ rates \<and> w_ttl_ops w' = w_ttl_ops w + sum_list rates
    \<and> w_latency w' = w_latency w @ map (\<lambda>r. if r > 0 then SECOND div r else 0) rates
    \<and> sum_list rates + w_completed w' = turns * b + w_completed w"
  using assms
proof (induction b f ops e clock w s rule: worker_loop.induct)
  case (2 b f ops e now1 now2 clock w s)
  show ?case
  proof (cases "now1 < e")
    case True
    have len: "w_iter w < length ops" by (rule 2(3))
    let ?i = "(w_iter w + b) mod length ops"
    let ?w = "worker_report now2 (w\<lparr>w_iter := ?i, w_completed := w_completed w + b\<rparr>)"
    from 2(2) True batch_loop_cycle [OF len, of b f s] obtain s1 where s1: "run_each f (cycle_ops ops (w_iter w) b) s = Inr s1"
      and rest: "worker_loop b f ops e clock ?w s1 = Inr (w', s')"
      by (auto simp: bind_run_Inr bind_run_assoc)
    have i: "w_iter ?w = ?i" "?i < length ops" using len by (simp_all add: worker_report_def mod_less_divisor [OF le_less_trans [OF le0 len]])
    have "batch_loop b f ops (w_iter w) s = Inr (?i, s1)" using batch_loop_cycle [OF len, of b f s] s1 by simp
    from 2(1) [OF _ this refl] True rest i obtain turns rates where
      ih: "run_each f (cycle_ops ops ?i (turns * b)) s1 = Inr s'" "w_per_second w' = w_per_second ?w @ rates"
      "w_ttl_ops w' = w_ttl_ops ?w + sum_list rates"
      "w_latency w' = w_latency ?w @ map (\<lambda>r. if r > 0 then SECOND div r else 0) rates"
      "sum_list rates + w_completed w' = turns * b + w_completed ?w" by auto
    have "cycle_ops ops (w_iter w) (Suc turns * b) = cycle_ops ops (w_iter w) b @ cycle_ops ops ?i (turns * b)"
      unfolding mult_Suc cycle_ops_append by (simp add: cycle_ops_def mod_simps)
    then have run: "run_each f (cycle_ops ops (w_iter w) (Suc turns * b)) s = Inr s'"
      using s1 ih(1) by (simp add: run_each_append)
    show ?thesis
    proof (cases "now2 \<ge> w_next_log w")
      case True
      then show ?thesis using run ih(2-5)
        by (intro exI [of _ "Suc turns"] exI [of _ "(w_completed w + b) # rates"]) (simp add: worker_report_def)
    next
      case False
      then show ?thesis using run ih(2-5)
        by (intro exI [of _ "Suc turns"] exI [of _ rates]) (simp add: worker_report_def)
    qed
  next
    case False
    then show ?thesis using 2(2) by (intro exI [of _ 0] exI [of _ "[]"]) (auto simp: cycle_ops_def)
  qed
qed simp

section \<open>Properties\<close>



text \<open>
  C23. The log in front of a data structure changes no result of the comparison. For every list of
  operations and every sequence of clock readings on which the plain structure is measured without
  a panic, the comparison creates the replicated object, registers a thread on its replica, and
  measures the object over the same readings to the end; the rows of both measurements are equal
  but for their names, and the object then represents the final state of the plain structure.
\<close>

theorem baseline_same_rows:
  assumes "baseline_measure (direct_op D) ops duration (fst clock) (snd clock) d0 = Inr (k, rates, d)"
    and "\<forall>i. mem i" "uncontended env" "0 < m" "3 \<le> n"
  shows "\<exists>nr. baseline_comparison scr env D m n mem esize d0 duration name ops log_size clock clock
      = Inr ((write_results (name @ ''-baseline'') duration rates, d), (write_results (name @ ''-log'') duration rates, nr))
    \<and> represents scr env D d0 m n d nr"
proof -
  from assms(1) obtain mt where loop: "baseline_loop (direct_op D) ops (fst clock + duration) (snd clock) (meter_start (fst clock)) d0 = Inr (mt, d)"
    and k: "k = m_completed mt" "rates = drop_last_second duration (m_per_second mt)"
    by (auto simp: baseline_measure_def bind_run_Inr)
  have "fresh_replica d0 (\<lambda>tkn. replica_with_data tkn d0)" by (rule fresh_with_data)
  from construct_ok [OF _ this assms(2), of 1 False "\<lambda>_ _. 0" esize log_size scr D] obtain nr where
    nr: "with_log_size d0 1 (\<lambda>_ _. 0) mem esize log_size = Inr (Inr nr)" and fresh: "fresh_object scr D d0 1 nr"
    by (auto simp: with_log_size_def MAX_REPLICAS_PER_LOG_def)
  then obtain tkn nr1 where reg: "nr_register 0 nr = (Some tkn, nr1)" "token_ok tkn nr1"
    and inv: "nr_inv scr D d0 [] nr1" "nr_quiet nr1" "length (replicas nr1) = 1"
    using nr_register_ok [of scr D d0 "[]" nr 0] by (auto simp: fresh_object_def MAX_THREADS_PER_REPLICA_def)
  have "represents scr env D d0 m n d0 nr1"
    unfolding represents_def using inv assms(3-5) by (intro conjI exI [of _ "[]"]) simp_all
  from nro.loop_refines [OF this reg(2) loop] obtain nr2 where
    "baseline_loop (replicated_op scr (\<lambda>_ _. 0) env D m n tkn) ops (fst clock + duration) (snd clock) (meter_start (fst clock)) nr1 = Inr (mt, nr2)"
    and rep: "represents scr env D d0 m n d nr2"
    unfolding replicated_op_def by blast
  then have "baseline_measure (replicated_op scr (\<lambda>_ _. 0) env D m n tkn) ops duration (fst clock) (snd clock) nr1 = Inr (k, rates, nr2)"
    by (simp add: baseline_measure_def k)
  then show ?thesis using assms(1) nr reg rep by (simp add: baseline_comparison_def)
qed

theorem baseline_same_rows_witness:
  "\<exists>nr. baseline_comparison True calm gcd_dispatcher 1 3 (\<lambda>_. True) 64 (nr_hash_map_new 0) (2 * SECOND) ''gcd''
      [WriteOperation (PutArray null_BlockId 7 0), ReadOperation (Get null_BlockId)] 4096
      (0, [(0, 1), (2, SECOND), (2 * SECOND, 0)]) (0, [(0, 1), (2, SECOND), (2 * SECOND, 0)])
    = Inr ((write_results (''gcd'' @ ''-baseline'') (2 * SECOND) [2], hm_insert null_BlockId (init_gcd_entry 7 0) (nr_hash_map_new 0)),
           (write_results (''gcd'' @ ''-log'') (2 * SECOND) [2], nr))
    \<and> represents True calm gcd_dispatcher (nr_hash_map_new 0) 1 3 (hm_insert null_BlockId (init_gcd_entry 7 0) (nr_hash_map_new 0)) nr"
proof -
  let ?clock = "(0, [(0, 1), (2, SECOND), (2 * SECOND, 0)]) :: nat \<times> (nat \<times> nat) list"
  let ?ops = "[WriteOperation (PutArray null_BlockId 7 0), ReadOperation (Get null_BlockId)] :: (access, modify) bench_op list"
  have "baseline_measure (direct_op gcd_dispatcher) ?ops (2 * SECOND) (fst ?clock) (snd ?clock) (nr_hash_map_new 0)
    = Inr (0, [2], hm_insert null_BlockId (init_gcd_entry 7 0) (nr_hash_map_new 0))"
    by (simp add: baseline_measure_def meter_start_def meter_report_def drop_last_second_def SECOND_def
        put_array_def hm_get_def nr_hash_map_new_def respond_def Let_def flip: numeral_2_eq_2)
  from baseline_same_rows [OF this _ uncontended_calm, of "\<lambda>_. True" 1 3 True 64 "''gcd''" 4096] show ?thesis by simp
qed

end
