(* ===== verification/Spec2Isabelle.thy ===== *)
theory Spec2Isabelle
  imports Nr_Theorems Gcd_Spec Nr_Ffi Replica_Runs Cnr_Scan Bench_Run
begin

text \<open>
  Node replication for a global cache directory.

  The program is the Rust part of the repository, \<open>src/third-party/nr_rust\<close>: the library
  \<open>node-replication\<close>, which turns a sequential data structure into a linearizable one by keeping a
  copy per NUMA node and a shared log of operations, its variant \<open>cnr\<close> with several logs, the crate
  \<open>ffi\<close>, which replicates the global cache directory with the library and offers the result to C++, and
  the benchmark harness \<open>bench_utils\<close>.

  \<^bold>\<open>Parts and how they interact.\<close> A client calls an extern function of \<open>ffi/ffi_nr_hashmap.rs\<close>. It calls
  \<open>execute_mut\<close> or \<open>execute\<close> of the replicated object (\<open>nr/mod.rs\<close>) with a token of the thread. The
  object passes the call to the replica of the thread (\<open>nr/replica.rs\<close>), where the thread puts a write
  into its context (\<open>context.rs\<close>) and tries to become the combiner; the combiner collects the
  contexts, appends the batch to the shared log (\<open>log.rs\<close>, \<open>nr/log.rs\<close>), executes the log on the
  copy of the data structure under a reader-writer lock (\<open>nr/rwlock.rs\<close>) and hands the responses back.
  A read waits until its replica has executed every completed operation. When the log is full or a
  replica blocks garbage collection, the object wakes up the replica that lags behind. In the variant
  with several logs (\<open>cnr/log.rs\<close>, \<open>cnr/replica.rs\<close>) every operation is mapped to one log, each log has a
  combiner of its own, and scans are entered into all logs. Threads are placed on processors and
  replicas by the topology of the machine (\<open>topology.rs\<close>) and the strategies of the harness (\<open>mkbench.rs\<close>).

  \<^bold>\<open>Conventions.\<close> A method is a function on explicit state that returns \<open>failure + result\<close>: \<open>Panic\<close> with the
  message of the source, or \<open>Hang\<close> where one thread alone would wait forever. The boolean \<open>scr\<close> selects
  the build. Log positions are natural numbers, since the counters of the code never wrap in
  practice; slots, node numbers and sizes are natural numbers, the indices \<open>isize\<close> of the directory are
  integers. A weak compare-and-exchange may fail: its outcomes are an argument of the model
  (\<open>cas\<close>, \<open>env\<close>), and so are the affinity function, the allocator, the topology and the responses
  of the operating system.

  \<^bold>\<open>Theories.\<close>
  \<^item> \<open>Nr_Prelude\<close>: results of runs, arrays that panic out of range, powers of two.
  \<^item> \<open>Transition_System\<close>: reachable states and the locale \<open>inductive_invariant\<close>.
  \<^item> \<open>Shared_Log\<close> (\<open>log.rs\<close>): entries, construction, registration, the slowest replica, \<open>reset\<close>.
  \<^item> \<open>Cache_Flush\<close>: \<open>flush_object\<close> of \<open>log.rs\<close> and \<open>flush_mem_region\<close> of \<open>nr/replica.rs\<close>, as the lines they flush.
  \<^item> \<open>Nr_Log\<close>, \<open>Nr_Log_Inv\<close> (\<open>nr/log.rs\<close>): \<open>append\<close>, \<open>exec\<close>, \<open>publish\<close>, \<open>advance_head\<close> as runs of one thread.
    The invariant relates the circular buffer to the history of all operations; \<open>exec\<close> replays the
    unseen history, \<open>append\<close> extends it, and both end.
  \<^item> \<open>Log_Steps\<close> (\<open>nr/log.rs\<close> with \<open>scr\<close>): the same operations split into atomic steps of all replicas,
    on memory with one cache per replica that is not kept coherent. Every replica executes a prefix
    of one history, nothing is overwritten before it was executed, publishing cannot deadlock, and
    the completed tail covers what any replica has completed.
  \<^item> \<open>Op_Context\<close> (\<open>context.rs\<close>): the bounded queue of a thread and its iterator; responses come back in order.
  \<^item> \<open>Rw_Lock\<close> (\<open>nr/rwlock.rs\<close> and the spin lock of \<open>nr/replica.rs\<close>): the locks as step relations, and their exclusion.
  \<^item> \<open>Dispatch\<close>: the trait \<open>Dispatch\<close> as a record of functions, and the sequential reference.
  \<^item> \<open>Nr_Replica\<close>, \<open>Nr_Replica_Inv\<close> (\<open>nr/replica.rs\<close>): every method of a replica; flat combining keeps the invariant and
    answers every pending operation.
  \<^item> \<open>Replica_Steps\<close>, \<open>Replica_Steps_Inv\<close>, \<open>Replica_Local\<close>, \<open>Replica_Lin\<close>, \<open>Replica_Runs\<close> (\<open>nr/replica.rs\<close> and the retry loops of \<open>nr/mod.rs\<close>, with
    \<open>scr\<close>): the threads of all replicas as one step relation over the log of \<open>Log_Steps\<close>: calls, contexts, the combiner from
    taking the lock to the last response, failed appends, registration. \<open>Replica_Steps_Inv\<close> states the invariant,
    \<open>Replica_Local\<close> and \<open>Replica_Lin\<close> show that every step keeps it, \<open>Replica_Runs\<close> concludes that the object is linearizable and shows
    the registration that breaks it.
  \<^item> \<open>Node_Replicated\<close>, \<open>Nr_Linear\<close>, \<open>Nr_Reads\<close>, \<open>Nr_Object\<close>, \<open>Nr_Theorems\<close> (\<open>nr/mod.rs\<close>): constructors, registration, the
    retry loops of writes and reads, and the locale \<open>replicated_object\<close>, the contract of an object
    that behaves like a sequential one, with its interpretations.
  \<^item> \<open>Gcd_Types\<close>, \<open>Gcd_Directory\<close> (\<open>ffi/types.rs\<close>, \<open>ffi/constants.rs\<close>, \<open>ffi/ffi_nr_hashmap.rs\<close>): the directory, one definition per
    branch of \<open>dispatch_mut\<close>.
  \<^item> \<open>Gcd_Spec\<close>: the abstract directory, maps instead of arrays with special values; every operation refines
    it, and the sharing protocol keeps writers exclusive.
  \<^item> \<open>Nr_Ffi\<close> (\<open>ffi/ffi_nr_hashmap.rs\<close>): placement, creation, registration and the extern functions, which implement
    the abstract directory.
  \<^item> \<open>Cnr_Log\<close> (\<open>cnr/log.rs\<close>): one of several logs, with reference counts in the entries and scan entries that
    depend on positions in other logs; \<open>exec\<close> replays the unseen history up to a scan that cannot run yet,
    \<open>append\<close> extends it.
  \<^item> \<open>Cnr_Replica\<close> (\<open>cnr/replica.rs\<close>): every method of a replica over all logs. A write and a read on one log return
    what the data brought up to date with that log give.
  \<^item> \<open>Cnr_Scan\<close> (\<open>cnr/replica.rs\<close>, \<open>cnr/log.rs\<close>): an operation entered into all logs runs once, on the data brought up to date with
    every log.
  \<^item> \<open>Machine_Topology\<close> (\<open>ffi/topology.rs\<close> and its copy \<open>bench_utils/src/topology.rs\<close>): discovery of the processors, queries, and
    the choice of processors for a number of threads.
  \<^item> \<open>Bench_Placement\<close>, \<open>Bench_Run\<close> (\<open>mkbench.rs\<close>, \<open>cnr_mkbench.rs\<close>, \<open>benchmark.rs\<close>, \<open>lib.rs\<close> of \<open>bench_utils/src\<close>): the division of processors
    among replicas, registration at the start of a run, the configuration of runs, the comparison of a
    data structure with and without a log in front, and the body of a worker thread. The comparison
    uses the contract \<open>replicated_object\<close>.

  \<^bold>\<open>Bounds and fuel.\<close> The loops of \<open>nr/log.rs\<close> end after \<open>WARN_THRESHOLD\<close> iterations and are total functions. The
  outer loop of \<open>execute_mut\<close> takes fuel \<open>n\<close> and the loops inside a replica fuel \<open>m\<close>; without lost
  compare-and-exchanges \<open>2 * (number of replicas) + 1\<close> turns and one inner turn suffice for a write and
  three turns for a read, which the theorems prove. The methods of \<open>cnr/replica.rs\<close> share one fuel for their
  loops and for the depth of nested combining; two levels suffice for a write on one log, three for a
  read and four for a scan. The measuring loops of the harness end with the clock, whose readings are an argument, one per
  turn. Running out of fuel or of readings is \<open>Hang\<close>, never a result.

  \<^bold>\<open>Not modelled.\<close> Interleaving inside a call is modelled for the log, the replica and its combiner with
  \<open>scr\<close> and for the locks; for the alive mask, anchored and loose reads only whole calls interleave. In the step relation of the replica
  an access to a context or to the locked data is one step, and the assertion of \<open>nr/mod.rs\<close> that a replica that
  is stuck is not the own one is left out. The theories of the variant with several logs are about the run of one thread, and have no property
  of read-only scans. Counters are sequentially consistent. The flushing variants of the
  counter accesses (feature \<open>no-coherence\<close>) are the plain accesses of the model, and debug assertions
  are those of a release build. The run of the multi-log harness, the statistics and files at the end of a
  run, the benchmark programs, the examples and the asynchronous wrappers are not modelled: they are
  input, output and floating-point measurement, or only box the synchronous calls.
\<close>

end
